(* ===== verification/Prelude.thy ===== *)
theory Prelude
  imports Main "HOL-Library.Char_ord" "HOL-Library.List_Lexorder"
    "HOL-Library.Product_Lexorder" "HOL-Library.AList" "HOL-Library.Multiset"
begin

text \<open>
  Shared vocabulary of the development: Go strings as byte lists with the functions of
  package \<^verbatim>\<open>strings\<close> and \<^verbatim>\<open>strconv\<close> that the program calls, error results as a sum
  (\<open>Inl\<close> the error), loops that stop at the first error, and Go maps as association lists
  with distinct keys. A Go string is the list of its bytes; case mapping and white space
  are those of the ASCII range, and bytes above 127 are left alone.
\<close>

section \<open>Collections of facts\<close>

named_theorems go_simps \<open>characterisations of the string and map functions\<close>
named_theorems inv_intros \<open>preservation of component invariants\<close>

section \<open>Strings\<close>

type_synonym bytes = string

fun hasPrefix :: "string \<Rightarrow> string \<Rightarrow> bool" where
  "hasPrefix s [] = True"
| "hasPrefix [] (c # cs) = False"
| "hasPrefix (x # xs) (c # cs) = (x = c \<and> hasPrefix xs cs)"

definition hasSuffix :: "string \<Rightarrow> string \<Rightarrow> bool" where
  "hasSuffix s p = hasPrefix (rev s) (rev p)"

definition trimPrefix :: "string \<Rightarrow> string \<Rightarrow> string" where
  "trimPrefix s p = (if hasPrefix s p then drop (length p) s else s)"

definition trimSuffix :: "string \<Rightarrow> string \<Rightarrow> string" where
  "trimSuffix s p = (if hasSuffix s p then take (length s - length p) s else s)"

fun containsStr :: "string \<Rightarrow> string \<Rightarrow> bool" where
  "containsStr [] sub = (sub = [])"
| "containsStr (c # cs) sub = (hasPrefix (c # cs) sub \<or> containsStr cs sub)"

fun splitOn :: "char \<Rightarrow> string \<Rightarrow> string list" where
  "splitOn c [] = [[]]"
| "splitOn c (x # xs) =
     (if x = c then [] # splitOn c xs
      else (case splitOn c xs of [] \<Rightarrow> [[x]] | y # ys \<Rightarrow> (x # y) # ys))"

fun joinWith :: "string \<Rightarrow> string list \<Rightarrow> string" where
  "joinWith sep [] = []"
| "joinWith sep [x] = x"
| "joinWith sep (x # y # zs) = x @ sep @ joinWith sep (y # zs)"

definition beforeByte :: "char \<Rightarrow> string \<Rightarrow> string" where
  "beforeByte c s = takeWhile (\<lambda>x. x \<noteq> c) s"

definition fromByte :: "char \<Rightarrow> string \<Rightarrow> string" where
  "fromByte c s = dropWhile (\<lambda>x. x \<noteq> c) s"

text \<open>\<open>cutAt\<close> is \<^verbatim>\<open>strings.Cut\<close> with a one-byte separator: before, after, found.\<close>

definition cutAt :: "char \<Rightarrow> string \<Rightarrow> string \<times> string \<times> bool" where
  "cutAt c s = (if c \<in> set s then (beforeByte c s, tl (fromByte c s), True) else (s, [], False))"

definition isSpace :: "char \<Rightarrow> bool" where
  "isSpace c = (c = CHR '' '' \<or> (9 \<le> (of_char c :: nat) \<and> (of_char c :: nat) \<le> 13))"

definition trimSpace :: "string \<Rightarrow> string" where
  "trimSpace s = rev (dropWhile isSpace (rev (dropWhile isSpace s)))"

definition trimByte :: "char \<Rightarrow> string \<Rightarrow> string" where
  "trimByte c s = rev (dropWhile (\<lambda>x. x = c) (rev (dropWhile (\<lambda>x. x = c) s)))"

text \<open>\<open>goFields\<close> is \<^verbatim>\<open>strings.Fields\<close>: the maximal runs of non-space bytes.\<close>

fun fieldsAcc :: "string \<Rightarrow> string \<Rightarrow> string list" where
  "fieldsAcc acc [] = (if acc = [] then [] else [rev acc])"
| "fieldsAcc acc (c # cs) =
     (if isSpace c then (if acc = [] then fieldsAcc [] cs else rev acc # fieldsAcc [] cs)
      else fieldsAcc (c # acc) cs)"

definition goFields :: "string \<Rightarrow> string list" where
  "goFields s = fieldsAcc [] s"

definition upperByte :: "char \<Rightarrow> char" where
  "upperByte c = (if 97 \<le> (of_char c :: nat) \<and> (of_char c :: nat) \<le> 122
                  then char_of ((of_char c :: nat) - 32) else c)"

definition lowerByte :: "char \<Rightarrow> char" where
  "lowerByte c = (if 65 \<le> (of_char c :: nat) \<and> (of_char c :: nat) \<le> 90
                  then char_of ((of_char c :: nat) + 32) else c)"

definition toUpper :: "string \<Rightarrow> string" where "toUpper s = map upperByte s"
definition toLower :: "string \<Rightarrow> string" where "toLower s = map lowerByte s"

definition isDigit :: "char \<Rightarrow> bool" where
  "isDigit c = (48 \<le> (of_char c :: nat) \<and> (of_char c :: nat) \<le> 57)"

definition isLetter :: "char \<Rightarrow> bool" where
  "isLetter c = ((65 \<le> (of_char c :: nat) \<and> (of_char c :: nat) \<le> 90) \<or>
                 (97 \<le> (of_char c :: nat) \<and> (of_char c :: nat) \<le> 122))"

fun digitsVal :: "int \<Rightarrow> string \<Rightarrow> int" where
  "digitsVal acc [] = acc"
| "digitsVal acc (c # cs) = digitsVal (10 * acc + (int (of_char c) - 48)) cs"

text \<open>
  \<open>atoi\<close> is \<^verbatim>\<open>strconv.Atoi\<close> on a 64-bit platform: an optional sign, at least one
  decimal digit, nothing else, and a value that fits in an \<^verbatim>\<open>int\<close>.
\<close>

definition maxInt :: int where "maxInt = 2 ^ 63 - 1"
definition minInt :: int where "minInt = - (2 ^ 63)"

definition atoi :: "string \<Rightarrow> int option" where
  "atoi s =
     (let neg = (case s of c # cs \<Rightarrow> c = CHR ''-'' | [] \<Rightarrow> False);
          body = (case s of c # cs \<Rightarrow> if c = CHR ''-'' \<or> c = CHR ''+'' then cs else s | [] \<Rightarrow> []);
          v = (if neg then - digitsVal 0 body else digitsVal 0 body)
      in if body = [] \<or> \<not> list_all isDigit body then None
         else if v < minInt \<or> maxInt < v then None else Some v)"

text \<open>Two's complement wrap-around of a 64-bit \<^verbatim>\<open>int\<close>.\<close>

definition wrap64 :: "int \<Rightarrow> int" where
  "wrap64 x = (x + 2 ^ 63) mod 2 ^ 64 - 2 ^ 63"

definition wrap32 :: "int \<Rightarrow> int" where
  "wrap32 x = (x + 2 ^ 31) mod 2 ^ 32 - 2 ^ 31"

text \<open>\<open>digitsOf\<close> renders a natural number in decimal, as \<^verbatim>\<open>%d\<close> does.\<close>

fun digitsOf :: "nat \<Rightarrow> string" where
  "digitsOf n = (if n < 10 then [char_of (48 + n)] else digitsOf (n div 10) @ [char_of (48 + n mod 10)])"

declare digitsOf.simps [simp del]

definition itoa :: "int \<Rightarrow> string" where
  "itoa n = (if n < 0 then CHR ''-'' # digitsOf (nat (- n)) else digitsOf (nat n))"

section \<open>Loops that stop at the first error\<close>

fun mapRes :: "('a \<Rightarrow> 'e + 'b) \<Rightarrow> 'a list \<Rightarrow> 'e + 'b list" where
  "mapRes f [] = Inr []"
| "mapRes f (x # xs) =
     (case f x of Inl e \<Rightarrow> Inl e
      | Inr y \<Rightarrow> (case mapRes f xs of Inl e \<Rightarrow> Inl e | Inr ys \<Rightarrow> Inr (y # ys)))"

fun foldRes :: "('s \<Rightarrow> 'a \<Rightarrow> 'e + 's) \<Rightarrow> 's \<Rightarrow> 'a list \<Rightarrow> 'e + 's" where
  "foldRes f s [] = Inr s"
| "foldRes f s (x # xs) = (case f s x of Inl e \<Rightarrow> Inl e | Inr s' \<Rightarrow> foldRes f s' xs)"

definition bindRes :: "'e + 'a \<Rightarrow> ('a \<Rightarrow> 'e + 'b) \<Rightarrow> 'e + 'b" where
  "bindRes r f = (case r of Inl e \<Rightarrow> Inl e | Inr x \<Rightarrow> f x)"

definition isOk :: "'e + 'a \<Rightarrow> bool" where
  "isOk r = (case r of Inl _ \<Rightarrow> False | Inr _ \<Rightarrow> True)"

definition guardRes :: "bool \<Rightarrow> 'e \<Rightarrow> 'e + unit" where
  "guardRes ok e = (if ok then Inr () else Inl e)"

fun firstErr :: "('e + unit) list \<Rightarrow> 'e + unit" where
  "firstErr [] = Inr ()"
| "firstErr (r # rs) = (case r of Inl e \<Rightarrow> Inl e | Inr _ \<Rightarrow> firstErr rs)"

section \<open>Maps\<close>

text \<open>A Go map is an association list with distinct keys; \<open>copyInto\<close> is \<^verbatim>\<open>maps.Copy\<close>.\<close>

type_synonym ('k, 'v) gomap = "('k \<times> 'v) list"

declare map_of_eq_Some_iff [simp del] Some_eq_map_of_iff [simp del]

definition copyInto :: "('k, 'v) gomap \<Rightarrow> ('k, 'v) gomap \<Rightarrow> ('k, 'v) gomap" where
  "copyInto dst src = fold (\<lambda>(k, v) m. AList.update k v m) src dst"

section \<open>Facts\<close>

lemma map_of_copyInto: "map_of (copyInto dst src) = map_of dst ++ map_of (rev src)"
  unfolding copyInto_def
  by (induction src arbitrary: dst) (auto simp: update_conv' map_add_assoc[symmetric])

lemma map_of_rev_distinct: "distinct (map fst xs) \<Longrightarrow> map_of (rev xs) = map_of xs"
  by (metis map_of_inject_set distinct_rev rev_map set_rev)

lemma copyInto_distinct: "distinct (map fst dst) \<Longrightarrow> distinct (map fst (copyInto dst src))"
  unfolding copyInto_def
  by (induction src arbitrary: dst) (auto simp: distinct_update)

lemma hasPrefix_iff [go_simps]: "hasPrefix s p \<longleftrightarrow> (\<exists>r. s = p @ r)"
  by (induction s p rule: hasPrefix.induct) auto

lemma hasPrefix_append [simp]: "hasPrefix (p @ r) p"
  by (auto simp: hasPrefix_iff)

lemma hasSuffix_iff [go_simps]: "hasSuffix s p \<longleftrightarrow> (\<exists>r. s = r @ p)"
proof
  assume "hasSuffix s p"
  then obtain r where "rev s = rev p @ r" by (auto simp: hasSuffix_def hasPrefix_iff)
  then have "s = rev r @ p" by (metis rev_append rev_rev_ident)
  then show "\<exists>r. s = r @ p" by blast
qed (auto simp: hasSuffix_def hasPrefix_iff)

lemma trimPrefix_append [simp]: "trimPrefix (p @ r) p = r"
  by (simp add: trimPrefix_def)

lemma trimSuffix_append [simp]: "trimSuffix (r @ p) p = r"
  by (auto simp: trimSuffix_def hasSuffix_iff)

lemma containsStr_iff [go_simps]: "containsStr s sub \<longleftrightarrow> (\<exists>l r. s = l @ sub @ r)"
proof (induction s)
  case Nil
  then show ?case by auto
next
  case (Cons c cs)
  show ?case
  proof
    assume "containsStr (c # cs) sub"
    then consider "hasPrefix (c # cs) sub" | "containsStr cs sub" by auto
    then show "\<exists>l r. c # cs = l @ sub @ r"
    proof cases
      case 1
      then obtain r where "c # cs = [] @ sub @ r" by (auto simp: hasPrefix_iff)
      then show ?thesis by blast
    next
      case 2
      then obtain l r where "cs = l @ sub @ r" using Cons by auto
      then have "c # cs = (c # l) @ sub @ r" by simp
      then show ?thesis by blast
    qed
  next
    assume "\<exists>l r. c # cs = l @ sub @ r"
    then obtain l r where eq: "c # cs = l @ sub @ r" by blast
    show "containsStr (c # cs) sub"
    proof (cases l)
      case Nil
      with eq have "hasPrefix (c # cs) sub" by (auto simp: hasPrefix_iff)
      then show ?thesis by simp
    next
      case (Cons x l')
      with eq have "cs = l' @ sub @ r" by simp
      then have "containsStr cs sub" using Cons.IH by blast
      then show ?thesis by simp
    qed
  qed
qed

lemma containsStr_singleton: "containsStr s [c] \<longleftrightarrow> c \<in> set s"
  by (auto simp: containsStr_iff in_set_conv_decomp)

lemma splitOn_ne [simp]: "splitOn c s \<noteq> []"
  by (induction s) (auto split: list.splits)

lemma splitOn_nosep [simp]: "c \<notin> set s \<Longrightarrow> splitOn c s = [s]"
  by (induction s) auto

lemma splitOn_append:
  "c \<notin> set s \<Longrightarrow> splitOn c (s @ c # t) = s # splitOn c t"
  by (induction s) auto

lemma splitOn_parts: "x \<in> set (splitOn c s) \<Longrightarrow> c \<notin> set x"
  by (induction s arbitrary: x) (force split: list.splits if_splits)+

lemma joinWith_splitOn: "joinWith [c] (splitOn c s) = s"
proof (induction s)
  case (Cons x xs)
  show ?case
  proof (cases "splitOn c xs")
    case (Cons y ys)
    with Cons.IH show ?thesis by (cases ys) auto
  qed simp
qed simp

lemma before_from_byte: "beforeByte c s @ fromByte c s = s"
  by (simp add: beforeByte_def fromByte_def)

lemma beforeByte_append [simp]: "c \<notin> set s \<Longrightarrow> beforeByte c (s @ c # t) = s"
  by (induction s) (auto simp: beforeByte_def)

lemma fromByte_append [simp]: "c \<notin> set s \<Longrightarrow> fromByte c (s @ c # t) = c # t"
  by (induction s) (auto simp: fromByte_def)

lemma cutAt_append [simp]: "c \<notin> set s \<Longrightarrow> cutAt c (s @ c # t) = (s, t, True)"
  by (simp add: cutAt_def)

lemma cutAt_none [simp]: "c \<notin> set s \<Longrightarrow> cutAt c s = (s, [], False)"
  by (simp add: cutAt_def)

lemma wrap64_id: "minInt \<le> x \<Longrightarrow> x \<le> maxInt \<Longrightarrow> wrap64 x = x"
  by (simp add: wrap64_def minInt_def maxInt_def)

lemma wrap64_range: "minInt \<le> wrap64 x \<and> wrap64 x \<le> maxInt"
proof -
  have "0 \<le> (x + 2 ^ 63) mod 2 ^ 64" "(x + 2 ^ 63) mod 2 ^ 64 < 2 ^ 64" by simp_all
  then show ?thesis unfolding wrap64_def minInt_def maxInt_def by simp
qed

lemma atoi_range: "atoi s = Some v \<Longrightarrow> minInt \<le> v \<and> v \<le> maxInt"
  by (auto simp: atoi_def Let_def split: if_splits)

lemma mapRes_Inr:
  "mapRes f xs = Inr ys \<Longrightarrow> length ys = length xs \<and> (\<forall>i < length xs. f (xs ! i) = Inr (ys ! i))"
proof (induction xs arbitrary: ys)
  case (Cons x xs)
  then obtain y zs where "f x = Inr y" "mapRes f xs = Inr zs" "ys = y # zs"
    by (auto split: sum.splits)
  with Cons.IH[of zs] show ?case by (auto simp: nth_Cons split: nat.splits)
qed simp

lemma mapRes_total: "(\<And>x. x \<in> set xs \<Longrightarrow> \<exists>y. f x = Inr y) \<Longrightarrow> \<exists>ys. mapRes f xs = Inr ys"
  by (induction xs) (force split: sum.splits)+

lemma mapRes_mem: "mapRes f xs = Inr ys \<Longrightarrow> y \<in> set ys \<Longrightarrow> \<exists>x \<in> set xs. f x = Inr y"
  by (induction xs arbitrary: ys) (auto split: sum.splits)

lemma isOk_iff: "isOk r \<longleftrightarrow> (\<exists>y. r = Inr y)"
  by (cases r) (auto simp: isOk_def)

lemma bindRes_Inr [simp]: "bindRes r f = Inr y \<longleftrightarrow> (\<exists>x. r = Inr x \<and> f x = Inr y)"
  by (auto simp: bindRes_def split: sum.splits)

lemma guardRes_Inr [simp]: "guardRes ok e = Inr u \<longleftrightarrow> ok"
  by (simp add: guardRes_def)

lemma firstErr_Inr: "firstErr rs = Inr u \<longleftrightarrow> (\<forall>r \<in> set rs. \<exists>v. r = Inr v)"
  by (induction rs) (auto split: sum.splits)

text \<open>
  The walk \<^verbatim>\<open>for x := range xs { if seen[key(x)] { return dup }; seen[key(x)] = {} }\<close> with other
  per-element checks around it succeeds exactly when every element passes and no key
  repeats. \<open>keys x\<close> is empty for an element that the loop does not register.
\<close>

lemma foldRes_seen:
  assumes "\<And>seen x s'. step seen x = Inr s' \<longleftrightarrow>
      ok x \<and> distinct (keys x) \<and> set (keys x) \<inter> set seen = {} \<and> s' = rev (keys x) @ seen"
  shows "foldRes step seen xs = Inr s' \<longleftrightarrow>
      (\<forall>x \<in> set xs. ok x) \<and> distinct (concat (map keys xs)) \<and>
      set (concat (map keys xs)) \<inter> set seen = {} \<and> s' = rev (concat (map keys xs)) @ seen"
proof (induction xs arbitrary: seen)
  case (Cons x xs)
  show ?case
  proof (cases "step seen x")
    case (Inl e)
    then have "\<not> (ok x \<and> distinct (keys x) \<and> set (keys x) \<inter> set seen = {})"
      using assms[of seen x "rev (keys x) @ seen"] by auto
    with Inl show ?thesis by auto
  next
    case (Inr t)
    with assms[of seen x t] have "ok x" "distinct (keys x)" "set (keys x) \<inter> set seen = {}" "t = rev (keys x) @ seen"
      by auto
    with Inr Cons.IH[of t] show ?thesis by auto
  qed
qed auto

text \<open>
  Namespacing: a key, a separator byte the key does not contain, and a name determine the
  pair. The cache, the locks, the scheduler and the event bus all build such a string.
\<close>

lemma sep_injective:
  fixes k k' n n' :: string
  assumes "c \<notin> set k" "c \<notin> set k'" "k @ c # n = k' @ c # n'"
  shows "k = k' \<and> n = n'"
proof -
  have "cutAt c (k @ c # n) = cutAt c (k' @ c # n')" using assms(3) by simp
  with assms(1,2) show ?thesis by simp
qed

section \<open>Backends shared by plugins\<close>

text \<open>A store that several plugins use, each under its own key. \<open>foreign k op\<close> says that the operation is one of a plugin other than \<open>k\<close>, and
  \<open>kept k w w'\<close> that what plugin \<open>k\<close> had in \<open>w\<close> is still there in \<open>w'\<close>, in the sense the store promises. A store whose operations keep what others have
  does so for every run of them.\<close>

locale tenant_backend =
  fixes inv :: "'w \<Rightarrow> bool"
    and foreign :: "string \<Rightarrow> 'op \<Rightarrow> bool"
    and kept :: "string \<Rightarrow> 'w \<Rightarrow> 'w \<Rightarrow> bool"
    and step :: "'op \<Rightarrow> 'w \<Rightarrow> 'w"
  assumes kept_refl: "kept k w w"
    and kept_trans: "kept k w w1 \<Longrightarrow> kept k w1 w2 \<Longrightarrow> kept k w w2"
    and step_inv: "inv w \<Longrightarrow> inv (step op w)"
    and isolated: "inv w \<Longrightarrow> foreign k op \<Longrightarrow> kept k w (step op w)"
begin

lemma run_inv: "inv w \<Longrightarrow> inv (fold step ops w)"
  by (induction ops arbitrary: w) (auto simp: step_inv)

lemma run_isolated: "inv w \<Longrightarrow> list_all (foreign k) ops \<Longrightarrow> kept k w (fold step ops w)"
proof (induction ops arbitrary: w)
  case (Cons op ops)
  then have "kept k w (step op w)" "kept k (step op w) (fold step ops (step op w))"
    by (auto simp: isolated step_inv)
  then show ?case using kept_trans by auto
qed (simp add: kept_refl)

end

end
