(* ===== verification/Pathmatch.thy ===== *)
theory Pathmatch
  imports Prelude
begin

text \<open>
  Path globs (\<^verbatim>\<open>src/pathmatch/pathmatch.go\<close>): compilation of a pattern, the index-walking
  matcher that runs on every request, and pattern sets with their match-all shortcut. The
  reference semantics \<open>globCovers\<close> reads a pattern as the documentation of the package does,
  over the list of non-empty path segments; the matcher is proved equivalent to it.
\<close>

section \<open>Model\<close>

datatype kind = kindAll | kindExact | kindPrefix | kindSegments

record Pattern =
  pat_raw :: string
  pat_kind :: kind
  pat_literal :: string
  pat_segs :: "string list"
  pat_trailingAll :: bool

datatype compile_err =
    EmptyPattern
  | NoLeadingSlash string
  | StarStarNotFinal string
  | PartialWildcard string

definition splitSegments :: "string \<Rightarrow> string list" where
  "splitSegments path =
     (let trimmed = trimByte CHR ''/'' path
      in if trimmed = [] then [] else splitOn CHR ''/'' trimmed)"

definition partialWildcard :: "string \<Rightarrow> bool" where
  "partialWildcard s = (s \<noteq> ''*'' \<and> containsStr s ''*'')"

definition Compile :: "string \<Rightarrow> compile_err + Pattern" where
  "Compile pattern =
     (if pattern = [] then Inl EmptyPattern
      else if pattern = ''**'' \<or> pattern = ''/**'' then
        Inr \<lparr>pat_raw = pattern, pat_kind = kindAll, pat_literal = [], pat_segs = [], pat_trailingAll = False\<rparr>
      else if \<not> hasPrefix pattern ''/'' then Inl (NoLeadingSlash pattern)
      else
        let trailingAll = hasSuffix pattern ''/**'';
            body = (if trailingAll then trimSuffix pattern ''/**'' else pattern)
        in if containsStr body ''**'' then Inl (StarStarNotFinal pattern)
           else let segs = splitSegments body
             in if list_ex partialWildcard segs then Inl (PartialWildcard pattern)
                else let hasWildcard = (''*'' \<in> set segs)
                  in if \<not> hasWildcard \<and> trailingAll then
                       Inr \<lparr>pat_raw = pattern, pat_kind = kindPrefix, pat_literal = body, pat_segs = [], pat_trailingAll = False\<rparr>
                     else if \<not> hasWildcard then
                       Inr \<lparr>pat_raw = pattern, pat_kind = kindExact, pat_literal = body, pat_segs = [], pat_trailingAll = False\<rparr>
                     else
                       Inr \<lparr>pat_raw = pattern, pat_kind = kindSegments, pat_literal = [], pat_segs = segs, pat_trailingAll = trailingAll\<rparr>)"

definition skipSlashes :: "string \<Rightarrow> string" where
  "skipSlashes path = dropWhile (\<lambda>c. c = CHR ''/'') path"

definition nextSegment :: "string \<Rightarrow> string \<times> string" where
  "nextSegment path0 =
     (let path = skipSlashes path0
      in if path = [] then ([], [])
         else if CHR ''/'' \<in> set path then (beforeByte CHR ''/'' path, fromByte CHR ''/'' path)
         else (path, []))"

fun walkSegments :: "string list \<Rightarrow> string \<Rightarrow> string option" where
  "walkSegments [] rest = Some rest"
| "walkSegments (want # segs) path =
     (let (got, rest) = nextSegment path
      in if got = [] then None
         else if want \<noteq> ''*'' \<and> want \<noteq> got then None
         else walkSegments segs rest)"

definition matchSegments :: "Pattern \<Rightarrow> string \<Rightarrow> bool" where
  "matchSegments p path =
     (case walkSegments (pat_segs p) path of
        None \<Rightarrow> False
      | Some rest \<Rightarrow> if pat_trailingAll p then True else rest = [] \<or> rest = ''/'')"

definition Match :: "Pattern \<Rightarrow> string \<Rightarrow> bool" where
  "Match p path =
     (case pat_kind p of
        kindAll \<Rightarrow> True
      | kindExact \<Rightarrow> path = pat_literal p
      | kindPrefix \<Rightarrow>
          if \<not> hasPrefix path (pat_literal p) then False
          else (let rest = drop (length (pat_literal p)) path
                in rest = [] \<or> rest = ''/'' \<or> rest ! 0 = CHR ''/'')
      | kindSegments \<Rightarrow> matchSegments p path)"

record PathSet =
  ps_patterns :: "Pattern list"
  ps_matchAll :: bool

definition compileSetStep :: "PathSet \<Rightarrow> string \<Rightarrow> compile_err + PathSet" where
  "compileSetStep s raw =
     (case Compile raw of
        Inl e \<Rightarrow> Inl e
      | Inr p \<Rightarrow>
          let s' = (if pat_kind p = kindAll then s\<lparr>ps_matchAll := True\<rparr> else s)
          in Inr (s'\<lparr>ps_patterns := ps_patterns s' @ [p]\<rparr>))"

definition CompileSet :: "string list \<Rightarrow> compile_err + PathSet" where
  "CompileSet patterns = foldRes compileSetStep \<lparr>ps_patterns = [], ps_matchAll = False\<rparr> patterns"

definition SetMatch :: "PathSet \<Rightarrow> string \<Rightarrow> bool" where
  "SetMatch s path = (if ps_matchAll s then True else list_ex (\<lambda>p. Match p path) (ps_patterns s))"

definition SetLen :: "PathSet \<Rightarrow> nat" where
  "SetLen s = length (ps_patterns s)"

section \<open>Reference semantics\<close>

definition pathSegments :: "string \<Rightarrow> string list" where
  "pathSegments path = filter (\<lambda>s. s \<noteq> []) (splitOn CHR ''/'' path)"

definition segOk :: "string \<Rightarrow> string \<Rightarrow> bool" where
  "segOk want got = (want = ''*'' \<or> want = got)"

text \<open>
  A pattern with wildcards covers a path when its segments match the leading segments of
  the path one by one. Without a trailing \<^verbatim>\<open>/**\<close> there are no further segments and the path
  ends in at most one slash.
\<close>

definition segsCover :: "string list \<Rightarrow> bool \<Rightarrow> string \<Rightarrow> bool" where
  "segsCover segs below path =
     (let S = pathSegments path
      in length segs \<le> length S \<and> list_all2 segOk segs (take (length segs) S) \<and>
         (below \<or> (length S = length segs \<and> \<not> hasSuffix path ''//'')))"

definition globCovers :: "string \<Rightarrow> string \<Rightarrow> bool" where
  "globCovers pattern path =
     (let below = hasSuffix pattern ''/**'';
          body = (if below then trimSuffix pattern ''/**'' else pattern)
      in if pattern = ''**'' \<or> pattern = ''/**'' then True
         else if ''*'' \<in> set (splitSegments body) then segsCover (splitSegments body) below path
         else path = body \<or> (below \<and> hasPrefix path (body @ ''/'')))"

section \<open>The segment walk\<close>

lemma pathSegments_slash [simp]: "pathSegments (CHR ''/'' # s) = pathSegments s"
  by (simp add: pathSegments_def)

lemma pathSegments_empty [simp]: "pathSegments [] = []"
  by (simp add: pathSegments_def)

lemma pathSegments_skip: "pathSegments (skipSlashes s) = pathSegments s"
  by (induction s) (auto simp: skipSlashes_def)

lemma pathSegments_single: "CHR ''/'' \<notin> set s \<Longrightarrow> s \<noteq> [] \<Longrightarrow> pathSegments s = [s]"
  by (simp add: pathSegments_def)

lemma pathSegments_cons:
  "CHR ''/'' \<notin> set s \<Longrightarrow> s \<noteq> [] \<Longrightarrow> pathSegments (s @ CHR ''/'' # t) = s # pathSegments t"
  by (simp add: pathSegments_def splitOn_append)

lemma pathSegments_nonempty: "s \<in> set (pathSegments p) \<Longrightarrow> s \<noteq> []"
  by (simp add: pathSegments_def)

lemma pathSegments_slashes: "pathSegments s = [] \<Longrightarrow> set s \<subseteq> {CHR ''/''}"
proof (induction s)
  case (Cons c s)
  then show ?case
    by (cases "c = CHR ''/''") (auto simp: pathSegments_def split: list.splits if_splits)
qed simp

lemma skipSlashes_split: "\<exists>pre. s = pre @ skipSlashes s"
  unfolding skipSlashes_def by (metis takeWhile_dropWhile_id)

lemma skipSlashes_hd: "skipSlashes s \<noteq> [] \<Longrightarrow> hd (skipSlashes s) \<noteq> CHR ''/''"
  unfolding skipSlashes_def by (metis (mono_tags, lifting) hd_dropWhile)

text \<open>One step of the walk takes the first non-empty segment off the path.\<close>

lemma nextSegment_none: "fst (nextSegment path) = [] \<longleftrightarrow> pathSegments path = []"
proof -
  let ?p = "skipSlashes path"
  have S: "pathSegments path = pathSegments ?p" by (simp add: pathSegments_skip)
  show ?thesis
  proof (cases "?p = []")
    case True
    then show ?thesis using S by (simp add: nextSegment_def)
  next
    case False
    then have hd: "hd ?p \<noteq> CHR ''/''" by (rule skipSlashes_hd)
    with False have "fst (nextSegment path) \<noteq> []"
      by (cases ?p) (auto simp: nextSegment_def beforeByte_def Let_def)
    moreover have "pathSegments ?p \<noteq> []"
    proof
      assume "pathSegments ?p = []"
      from pathSegments_slashes[OF this] False hd show False by (cases ?p) auto
    qed
    ultimately show ?thesis using S by simp
  qed
qed

lemma nextSegment_some:
  assumes "nextSegment path = (got, rest)" "got \<noteq> []"
  shows "pathSegments path = got # pathSegments rest"
    and "\<exists>pre. path = pre @ got @ rest" and "CHR ''/'' \<notin> set got"
    and "rest = [] \<or> hd rest = CHR ''/''"
proof -
  let ?p = "skipSlashes path"
  from assms have ne: "?p \<noteq> []" by (auto simp: nextSegment_def)
  have gr: "?p = got @ rest \<and> CHR ''/'' \<notin> set got \<and> (rest = [] \<or> hd rest = CHR ''/'')"
  proof (cases "CHR ''/'' \<in> set ?p")
    case True
    with assms ne have *: "got = beforeByte CHR ''/'' ?p" "rest = fromByte CHR ''/'' ?p"
      by (auto simp: nextSegment_def Let_def)
    then have "CHR ''/'' \<notin> set got" by (auto simp: beforeByte_def dest: set_takeWhileD)
    moreover have "rest \<noteq> []" using * True by (auto simp: fromByte_def dropWhile_eq_Nil_conv)
    then have "hd rest = CHR ''/''"
      unfolding * fromByte_def by (metis (mono_tags, lifting) hd_dropWhile)
    ultimately show ?thesis using * before_from_byte by metis
  next
    case False
    with assms ne show ?thesis by (auto simp: nextSegment_def Let_def)
  qed
  then show "CHR ''/'' \<notin> set got" "rest = [] \<or> hd rest = CHR ''/''" by auto
  show "\<exists>pre. path = pre @ got @ rest" using skipSlashes_split[of path] gr by simp
  show "pathSegments path = got # pathSegments rest"
  proof (cases rest)
    case Nil
    with gr assms(2) show ?thesis
      using pathSegments_single[of got] pathSegments_skip[of path] by simp
  next
    case (Cons c t)
    with gr assms(2) show ?thesis
      using pathSegments_cons[of got t] pathSegments_skip[of path] by simp
  qed
qed

lemma walkSegments_defined:
  "(\<exists>rest. walkSegments ws path = Some rest) \<longleftrightarrow>
     length ws \<le> length (pathSegments path) \<and>
     list_all2 segOk ws (take (length ws) (pathSegments path))"
proof (induction ws arbitrary: path)
  case (Cons w ws)
  obtain got rest where nx: "nextSegment path = (got, rest)" by (cases "nextSegment path")
  show ?case
  proof (cases "got = []")
    case True
    with nx nextSegment_none[of path] show ?thesis by simp
  next
    case False
    have "pathSegments path = got # pathSegments rest"
      by (rule nextSegment_some(1)[OF nx False])
    with nx False Cons.IH[of rest] show ?thesis by (auto simp: segOk_def)
  qed
qed simp

lemma walkSegments_rest:
  assumes "walkSegments ws path = Some rest"
  shows "pathSegments rest = drop (length ws) (pathSegments path)"
    and "ws \<noteq> [] \<Longrightarrow> \<exists>pre x. path = pre @ [x] @ rest \<and> x \<noteq> CHR ''/''"
  using assms
proof (induction ws arbitrary: path)
  case (Cons w ws)
  { case 1
    obtain got r where nx: "nextSegment path = (got, r)" by (cases "nextSegment path")
    from 1 have got: "got \<noteq> []" and walk: "walkSegments ws r = Some rest"
      by (simp_all add: nx split: if_splits)
    show ?case using Cons.IH(1)[OF walk] nextSegment_some(1)[OF nx got] by simp
  next
    case 2
    obtain got r where nx: "nextSegment path = (got, r)" by (cases "nextSegment path")
    from 2(2) have got: "got \<noteq> []" and walk: "walkSegments ws r = Some rest"
      by (simp_all add: nx split: if_splits)
    obtain pre where pre: "path = pre @ got @ r" using nextSegment_some(2)[OF nx got] by blast
    have last: "last got \<noteq> CHR ''/''"
      using nextSegment_some(3)[OF nx got] got by (metis last_in_set)
    show ?case
    proof (cases "ws = []")
      case True
      with walk have "path = (pre @ butlast got) @ [last got] @ rest" using pre got by simp
      with last show ?thesis by blast
    next
      case False
      then obtain pre' x where "r = pre' @ [x] @ rest" "x \<noteq> CHR ''/''"
        using Cons.IH(2)[OF False walk] by blast
      with pre have "path = (pre @ got @ pre') @ [x] @ rest" by simp
      with \<open>x \<noteq> CHR ''/''\<close> show ?thesis by blast
    qed }
qed simp_all

lemma slashes_replicate: "set s \<subseteq> {c} \<Longrightarrow> s = replicate (length s) c"
  by (induction s) auto

text \<open>What is left after the walk is empty or one slash exactly when no segment is left
  and the path does not end in two slashes.\<close>

lemma rest_trivial:
  assumes "walkSegments ws path = Some rest" "ws \<noteq> []"
  shows "(rest = [] \<or> rest = ''/'') \<longleftrightarrow>
           length (pathSegments path) = length ws \<and> \<not> hasSuffix path ''//''"
proof -
  from assms have le: "length ws \<le> length (pathSegments path)"
    using walkSegments_defined by blast
  have S: "pathSegments rest = drop (length ws) (pathSegments path)"
    by (rule walkSegments_rest(1)[OF assms(1)])
  obtain pre x where px: "path = pre @ [x] @ rest" "x \<noteq> CHR ''/''"
    using walkSegments_rest(2)[OF assms] by blast
  show ?thesis
  proof
    assume "rest = [] \<or> rest = ''/''"
    then have "pathSegments rest = []" by auto
    with S le have "length (pathSegments path) = length ws" by simp
    moreover have "\<not> hasSuffix path ''//''"
      using px \<open>rest = [] \<or> rest = ''/''\<close> by (auto simp: hasSuffix_def)
    ultimately show "length (pathSegments path) = length ws \<and> \<not> hasSuffix path ''//''" by blast
  next
    assume r: "length (pathSegments path) = length ws \<and> \<not> hasSuffix path ''//''"
    with S have "pathSegments rest = []" by simp
    then obtain k where k: "rest = replicate k CHR ''/''"
      using slashes_replicate[OF pathSegments_slashes] by blast
    have "\<not> 2 \<le> k"
    proof
      assume "2 \<le> k"
      then obtain j where "k = j + 2" by (metis add.commute le_Suc_ex)
      then have "rest = replicate j CHR ''/'' @ replicate 2 CHR ''/''"
        using k by (simp only: replicate_add)
      then have "rest = replicate j CHR ''/'' @ ''//''" by (simp add: numeral_2_eq_2)
      with px have "hasSuffix path ''//''" by (auto simp: hasSuffix_iff)
      with r show False by blast
    qed
    then have "k = 0 \<or> k = 1" by linarith
    with k show "rest = [] \<or> rest = ''/''" by auto
  qed
qed

lemma matchSegments_cover:
  assumes "pat_segs p \<noteq> []"
  shows "matchSegments p path \<longleftrightarrow> segsCover (pat_segs p) (pat_trailingAll p) path"
proof (cases "walkSegments (pat_segs p) path")
  case None
  with walkSegments_defined[of "pat_segs p" path] show ?thesis
    by (auto simp: matchSegments_def segsCover_def Let_def)
next
  case (Some rest)
  then have "length (pat_segs p) \<le> length (pathSegments path) \<and>
      list_all2 segOk (pat_segs p) (take (length (pat_segs p)) (pathSegments path))"
    using walkSegments_defined by blast
  with Some rest_trivial[OF Some assms] show ?thesis
    by (auto simp: matchSegments_def segsCover_def Let_def)
qed

section \<open>Compilation\<close>

lemma Compile_kind:
  assumes "Compile pattern = Inr p"
  shows "pat_raw p = pattern" "pattern \<noteq> []"
    and "pat_kind p = kindAll \<longleftrightarrow> pattern = ''**'' \<or> pattern = ''/**''"
  using assms by (auto simp: Compile_def Let_def split: if_splits)

lemma Match_all: "pat_kind p = kindAll \<Longrightarrow> Match p path"
  by (simp add: Match_def)

lemma prefix_rest:
  "(hasPrefix path lit \<and> (let rest = drop (length lit) path in rest = [] \<or> rest = ''/'' \<or> rest ! 0 = CHR ''/'')) \<longleftrightarrow>
     path = lit \<or> hasPrefix path (lit @ ''/'')"
proof
  assume "hasPrefix path lit \<and> (let rest = drop (length lit) path in rest = [] \<or> rest = ''/'' \<or> rest ! 0 = CHR ''/'')"
  then obtain r where "path = lit @ r" "r = [] \<or> r ! 0 = CHR ''/''"
    by (auto simp: hasPrefix_iff Let_def)
  then show "path = lit \<or> hasPrefix path (lit @ ''/'')" by (cases r) (auto simp: hasPrefix_iff)
qed (auto simp: hasPrefix_iff Let_def)

lemma Match_cover_aux:
  assumes "Compile pattern = Inr p"
  shows "Match p path \<longleftrightarrow> globCovers pattern path"
proof (cases "pattern = ''**'' \<or> pattern = ''/**''")
  case True
  with assms show ?thesis by (auto simp: Compile_def Match_def globCovers_def Let_def)
next
  case False
  let ?below = "hasSuffix pattern ''/**''"
  let ?body = "if ?below then trimSuffix pattern ''/**'' else pattern"
  show ?thesis
  proof (cases "''*'' \<in> set (splitSegments ?body)")
    case True
    with assms False have "pat_kind p = kindSegments" "pat_segs p = splitSegments ?body"
      "pat_trailingAll p = ?below"
      by (auto simp: Compile_def Let_def split: if_splits)
    moreover then have "pat_segs p \<noteq> []" using True by auto
    ultimately show ?thesis using False True matchSegments_cover[of p path]
      by (simp add: Match_def globCovers_def Let_def)
  next
    case noWild: False
    with assms False have p: "pat_literal p = ?body" "pat_kind p = (if ?below then kindPrefix else kindExact)"
      by (auto simp: Compile_def Let_def split: if_splits)
    show ?thesis
    proof (cases ?below)
      case True
      with p prefix_rest[of path "pat_literal p"] False noWild show ?thesis
        by (auto simp: Match_def globCovers_def Let_def)
    next
      case below: False
      with p False noWild show ?thesis by (simp add: Match_def globCovers_def Let_def)
    qed
  qed
qed

text \<open>C31: A compiled pattern matches exactly the paths its text covers: everything for
  \<open>**\<close>; the literal path; the literal path and what is below it (and not a path that merely
  shares its characters) for a trailing \<open>/**\<close>; and segment by segment when it has a \<open>*\<close>.
  The walk over the path without splitting it agrees with the segment-list semantics.\<close>

theorem Match_covers:
  assumes "Compile pattern = Inr p"
  shows "Match p path \<longleftrightarrow> globCovers pattern path"
  using assms by (rule Match_cover_aux)

theorem Match_covers_witness:
  "(\<exists>p. Compile ''/api/*/items'' = Inr p \<and> Match p ''/api/7/items'' \<and> \<not> Match p ''/api/7/items/9'')"
proof -
  let ?c = "Compile ''/api/*/items''"
  have c: "?c = Inr (projr ?c)" by code_simp
  have "globCovers ''/api/*/items'' ''/api/7/items''" "\<not> globCovers ''/api/*/items'' ''/api/7/items/9''"
    by code_simp+
  with Match_covers[OF c] c show ?thesis by metis
qed

lemma compileSet_fold:
  assumes "foldRes compileSetStep s ps = Inr s'"
    and "ps_matchAll s \<longleftrightarrow> (\<exists>p \<in> set (ps_patterns s). pat_kind p = kindAll)"
  shows "(ps_matchAll s' \<longleftrightarrow> (\<exists>p \<in> set (ps_patterns s'). pat_kind p = kindAll)) \<and>
         (\<exists>qs. ps_patterns s' = ps_patterns s @ qs \<and> mapRes Compile ps = Inr qs)"
  using assms
proof (induction ps arbitrary: s)
  case (Cons r ps)
  then obtain p where p: "Compile r = Inr p" by (auto simp: compileSetStep_def split: sum.splits)
  define t where "t = (if pat_kind p = kindAll then s\<lparr>ps_matchAll := True\<rparr> else s)"
  define u where "u = t\<lparr>ps_patterns := ps_patterns t @ [p]\<rparr>"
  have st: "compileSetStep s r = Inr u" using p by (simp add: compileSetStep_def u_def t_def Let_def)
  have "ps_matchAll u \<longleftrightarrow> (\<exists>p \<in> set (ps_patterns u). pat_kind p = kindAll)"
    using Cons.prems(2) by (auto simp: u_def t_def)
  from Cons.IH[OF _ this] Cons.prems(1) st p show ?case by (auto simp: u_def t_def)
qed simp

lemma CompileSet_patterns:
  assumes "CompileSet ps = Inr s"
  shows "(ps_matchAll s \<longleftrightarrow> (\<exists>p \<in> set (ps_patterns s). pat_kind p = kindAll)) \<and>
         mapRes Compile ps = Inr (ps_patterns s)"
  using compileSet_fold[OF assms[unfolded CompileSet_def]] by auto

lemma mapRes_Compile_raw: "mapRes Compile ps = Inr qs \<Longrightarrow> map pat_raw qs = ps"
  by (induction ps arbitrary: qs) (auto split: sum.splits dest: Compile_kind(1))

lemma SetMatch_cover_aux:
  assumes "CompileSet ps = Inr s"
  shows "SetMatch s path \<longleftrightarrow> (\<exists>pat \<in> set ps. globCovers pat path)"
proof -
  from CompileSet_patterns[OF assms] have all: "ps_matchAll s \<longleftrightarrow> (\<exists>p \<in> set (ps_patterns s). pat_kind p = kindAll)"
    and cs: "mapRes Compile ps = Inr (ps_patterns s)" by auto
  have "SetMatch s path \<longleftrightarrow> (\<exists>p \<in> set (ps_patterns s). Match p path)"
    using all Match_all by (auto simp: SetMatch_def list_ex_iff)
  moreover have "\<forall>p \<in> set (ps_patterns s). Match p path \<longleftrightarrow> globCovers (pat_raw p) path"
  proof
    fix p assume "p \<in> set (ps_patterns s)"
    then obtain pat where "Compile pat = Inr p" using mapRes_mem[OF cs] by blast
    with Match_cover_aux Compile_kind(1) show "Match p path \<longleftrightarrow> globCovers (pat_raw p) path" by metis
  qed
  ultimately have "SetMatch s path \<longleftrightarrow> (\<exists>pat \<in> pat_raw ` set (ps_patterns s). globCovers pat path)"
    by auto
  then show ?thesis using mapRes_Compile_raw[OF cs] by auto
qed

text \<open>A compiled set matches a path exactly when one of the patterns it was compiled
  from covers it, so the match-all shortcut is only an optimisation and the set compiled
  from no pattern matches nothing.\<close>

theorem SetMatch_covers:
  assumes "CompileSet ps = Inr s"
  shows "SetMatch s path \<longleftrightarrow> (\<exists>pat \<in> set ps. globCovers pat path)"
  using assms by (rule SetMatch_cover_aux)

theorem SetMatch_covers_witness:
  "(\<exists>s. CompileSet [''/api/**'', ''/x''] = Inr s \<and> SetMatch s ''/api/v1'' \<and> \<not> SetMatch s ''/apifoo'')"
proof -
  let ?c = "CompileSet [''/api/**'', ''/x'']"
  have c: "?c = Inr (projr ?c)" by code_simp
  have "globCovers ''/api/**'' ''/api/v1''" "\<not> globCovers ''/api/**'' ''/apifoo''" "\<not> globCovers ''/x'' ''/apifoo''"
    by code_simp+
  with SetMatch_covers[OF c] c show ?thesis by (metis list.set_intros(1) set_ConsD empty_iff list.set(1))
qed

end
