(* ===== verification/Cron.thy ===== *)
theory Cron
  imports Prelude "HOL-Library.Word"
begin

text \<open>
  Five-field cron schedules (\<^verbatim>\<open>src/manifest/cron.go\<close>): the parser, whose fields become bit
  masks in machine words of the widths the code uses, and the matcher. The loop that sets
  one bit per step runs over a 64-bit \<^verbatim>\<open>int\<close> that wraps around, so it is written with fuel and
  its end is a theorem. The meaning of an expression is given by \<open>fieldDenotes\<close>.
\<close>

unbundle bit_operations_syntax

section \<open>Model\<close>

record Schedule =
  sch_minute :: "64 word"
  sch_hour :: "32 word"
  sch_dom :: "32 word"
  sch_month :: "16 word"
  sch_dow :: "8 word"
  sch_domRestricted :: bool
  sch_dowRestricted :: bool

text \<open>The calendar fields of a \<^verbatim>\<open>time.Time\<close> that the matcher reads.\<close>

record Civil =
  t_Minute :: nat
  t_Hour :: nat
  t_Day :: nat
  t_Month :: nat
  t_Weekday :: nat

datatype part_err =
    BadStep string
  | BadRangeStart string
  | BadRangeEnd string
  | BackwardsRange int int
  | BadValue string
  | OutOfRange int int
  | LoopDiverges

datatype cron_err = FieldCount nat | InField string part_err

definition shiftBit :: "int \<Rightarrow> 64 word" where
  "shiftBit v = (if 0 \<le> v \<and> v < 64 then push_bit (nat v) 1 else 0)"

definition fullMask :: "int \<Rightarrow> int \<Rightarrow> 64 word" where
  "fullMask lo hi = fold (\<lambda>v m. m OR shiftBit v) [lo..hi] 0"

fun maskLoop :: "nat \<Rightarrow> int \<Rightarrow> int \<Rightarrow> int \<Rightarrow> 64 word \<Rightarrow> 64 word option" where
  "maskLoop 0 v hi step acc = None"
| "maskLoop (Suc fuel) v hi step acc =
     (if v \<le> hi then maskLoop fuel (wrap64 (v + step)) hi step (acc OR shiftBit v) else Some acc)"

definition partStep :: "string \<Rightarrow> part_err + (string \<times> int)" where
  "partStep part =
     (case cutAt CHR ''/'' part of (base, stepStr, hasStep) \<Rightarrow>
        if hasStep then
          (case atoi stepStr of
             None \<Rightarrow> Inl (BadStep stepStr)
           | Some n \<Rightarrow> if n \<le> 0 then Inl (BadStep stepStr) else Inr (base, n))
        else Inr (part, 1))"

definition partBounds :: "string \<Rightarrow> int \<Rightarrow> int \<Rightarrow> part_err + (int \<times> int)" where
  "partBounds part lo0 hi0 =
     (if part = ''*'' then Inr (lo0, hi0)
      else if containsStr part ''-'' then
        (case cutAt CHR ''-'' part of (loStr, hiStr, _) \<Rightarrow>
           (case atoi loStr of
              None \<Rightarrow> Inl (BadRangeStart loStr)
            | Some lo \<Rightarrow>
                (case atoi hiStr of
                   None \<Rightarrow> Inl (BadRangeEnd hiStr)
                 | Some hi \<Rightarrow> if hi < lo then Inl (BackwardsRange lo hi) else Inr (lo, hi))))
      else (case atoi part of None \<Rightarrow> Inl (BadValue part) | Some n \<Rightarrow> Inr (n, n)))"

definition partRange :: "string \<Rightarrow> int \<Rightarrow> int \<Rightarrow> part_err + (int \<times> int \<times> int)" where
  "partRange part0 lo0 hi0 =
     (case partStep part0 of
        Inl e \<Rightarrow> Inl e
      | Inr (part, step) \<Rightarrow>
          (case partBounds part lo0 hi0 of
             Inl e \<Rightarrow> Inl e
           | Inr (lo, hi) \<Rightarrow>
               if lo < lo0 \<or> hi > hi0 then Inl (OutOfRange lo0 hi0) else Inr (lo, hi, step)))"

definition maskFuel :: nat where "maskFuel = 128"

definition parsePart :: "string \<Rightarrow> int \<Rightarrow> int \<Rightarrow> part_err + 64 word" where
  "parsePart part lo0 hi0 =
     (case partRange part lo0 hi0 of
        Inl e \<Rightarrow> Inl e
      | Inr (lo, hi, step) \<Rightarrow>
          (case maskLoop maskFuel lo hi step 0 of None \<Rightarrow> Inl LoopDiverges | Some m \<Rightarrow> Inr m))"

definition fieldStep :: "int \<Rightarrow> int \<Rightarrow> 64 word \<Rightarrow> string \<Rightarrow> part_err + 64 word" where
  "fieldStep lo0 hi0 acc part =
     (case parsePart part lo0 hi0 of Inl e \<Rightarrow> Inl e | Inr m \<Rightarrow> Inr (acc OR m))"

definition parseField :: "string \<Rightarrow> int \<Rightarrow> int \<Rightarrow> part_err + (64 word \<times> bool)" where
  "parseField field lo0 hi0 =
     (if field = ''*'' then Inr (fullMask lo0 hi0, False)
      else (case foldRes (fieldStep lo0 hi0) 0 (splitOn CHR '','' field) of
              Inl e \<Rightarrow> Inl e | Inr acc \<Rightarrow> Inr (acc, True)))"

definition inField :: "string \<Rightarrow> part_err + 'a \<Rightarrow> cron_err + 'a" where
  "inField label r = (case r of Inl e \<Rightarrow> Inl (InField label e) | Inr x \<Rightarrow> Inr x)"

definition ParseSchedule :: "string \<Rightarrow> cron_err + Schedule" where
  "ParseSchedule expr =
     (case goFields expr of
        [f0, f1, f2, f3, f4] \<Rightarrow>
          (case inField ''minute'' (parseField f0 0 59) of Inl e \<Rightarrow> Inl e | Inr (minute, _) \<Rightarrow>
          (case inField ''hour'' (parseField f1 0 23) of Inl e \<Rightarrow> Inl e | Inr (hour, _) \<Rightarrow>
          (case inField ''day of month'' (parseField f2 1 31) of Inl e \<Rightarrow> Inl e | Inr (domM, domRestricted) \<Rightarrow>
          (case inField ''month'' (parseField f3 1 12) of Inl e \<Rightarrow> Inl e | Inr (month, _) \<Rightarrow>
          (case inField ''day of week'' (parseField f4 0 6) of Inl e \<Rightarrow> Inl e | Inr (dow, dowRestricted) \<Rightarrow>
             Inr \<lparr>sch_minute = minute, sch_hour = ucast hour, sch_dom = ucast domM,
                  sch_month = ucast month, sch_dow = ucast dow,
                  sch_domRestricted = domRestricted, sch_dowRestricted = dowRestricted\<rparr>)))))
      | fs \<Rightarrow> Inl (FieldCount (length fs)))"

definition Matches :: "Schedule \<Rightarrow> Civil \<Rightarrow> bool" where
  "Matches s t =
     (if sch_minute s AND push_bit (t_Minute t) 1 = 0 then False
      else if sch_hour s AND push_bit (t_Hour t) 1 = 0 then False
      else if sch_month s AND push_bit (t_Month t) 1 = 0 then False
      else let domOK = (sch_dom s AND push_bit (t_Day t) 1 \<noteq> 0);
               dowOK = (sch_dow s AND push_bit (t_Weekday t) 1 \<noteq> 0)
           in if sch_domRestricted s \<and> sch_dowRestricted s then domOK \<or> dowOK else domOK \<and> dowOK)"

section \<open>What an expression denotes\<close>

definition partDenotes :: "string \<Rightarrow> int \<Rightarrow> int \<Rightarrow> int \<Rightarrow> bool" where
  "partDenotes part lo0 hi0 v =
     (case partRange part lo0 hi0 of
        Inl _ \<Rightarrow> False
      | Inr (lo, hi, step) \<Rightarrow> lo \<le> v \<and> v \<le> hi \<and> step dvd (v - lo))"

definition fieldDenotes :: "string \<Rightarrow> int \<Rightarrow> int \<Rightarrow> int \<Rightarrow> bool" where
  "fieldDenotes field lo0 hi0 v =
     (if field = ''*'' then lo0 \<le> v \<and> v \<le> hi0
      else list_ex (\<lambda>part. partDenotes part lo0 hi0 v) (splitOn CHR '','' field))"

text \<open>No step of the field makes the loop counter wrap around.\<close>

definition partFits :: "string \<Rightarrow> int \<Rightarrow> int \<Rightarrow> bool" where
  "partFits part lo0 hi0 =
     (case partRange part lo0 hi0 of Inl _ \<Rightarrow> True | Inr (lo, hi, step) \<Rightarrow> hi + step \<le> maxInt)"

definition fieldFits :: "string \<Rightarrow> int \<Rightarrow> int \<Rightarrow> bool" where
  "fieldFits field lo0 hi0 =
     (field = ''*'' \<or> list_all (\<lambda>part. partFits part lo0 hi0) (splitOn CHR '','' field))"

definition exprFits :: "string \<Rightarrow> bool" where
  "exprFits expr =
     (case goFields expr of
        [f0, f1, f2, f3, f4] \<Rightarrow> fieldFits f0 0 59 \<and> fieldFits f1 0 23 \<and> fieldFits f2 1 31 \<and>
          fieldFits f3 1 12 \<and> fieldFits f4 0 6
      | _ \<Rightarrow> False)"

definition validCivil :: "Civil \<Rightarrow> bool" where
  "validCivil t = (t_Minute t \<le> 59 \<and> t_Hour t \<le> 23 \<and> 1 \<le> t_Day t \<and> t_Day t \<le> 31 \<and>
     1 \<le> t_Month t \<and> t_Month t \<le> 12 \<and> t_Weekday t \<le> 6)"

definition cronFires :: "string \<Rightarrow> Civil \<Rightarrow> bool" where
  "cronFires expr t =
     (case goFields expr of
        [f0, f1, f2, f3, f4] \<Rightarrow>
          fieldDenotes f0 0 59 (int (t_Minute t)) \<and> fieldDenotes f1 0 23 (int (t_Hour t)) \<and>
          fieldDenotes f3 1 12 (int (t_Month t)) \<and>
          (let domOK = fieldDenotes f2 1 31 (int (t_Day t));
               dowOK = fieldDenotes f4 0 6 (int (t_Weekday t))
           in if f2 \<noteq> ''*'' \<and> f4 \<noteq> ''*'' then domOK \<or> dowOK else domOK \<and> dowOK)
      | _ \<Rightarrow> False)"

section \<open>Bits\<close>

lemma bit_shiftBit [simp]: "bit (shiftBit v) n \<longleftrightarrow> int n = v \<and> n < 64"
  by (auto simp: shiftBit_def bit_exp_iff)

lemma bit_fold_shift:
  "bit (fold (\<lambda>v m. m OR shiftBit v) vs m) n \<longleftrightarrow> bit m n \<or> (int n \<in> set vs \<and> n < 64)"
  by (induction vs arbitrary: m) (auto simp: bit_or_iff)

lemma bit_fullMask: "bit (fullMask lo hi) n \<longleftrightarrow> lo \<le> int n \<and> int n \<le> hi \<and> n < 64"
  by (auto simp: fullMask_def bit_fold_shift)

lemma and_exp_eq_0:
  fixes w :: "'a::len word"
  shows "w AND 2 ^ n = 0 \<longleftrightarrow> \<not> bit w n"
proof
  assume z: "w AND 2 ^ n = 0"
  show "\<not> bit w n"
  proof
    assume b: "bit w n"
    then have "n < LENGTH('a)" by (rule bit_imp_le_length)
    with b have "bit (w AND 2 ^ n) n" by (simp add: bit_and_iff bit_exp_iff)
    with z show False by simp
  qed
next
  assume "\<not> bit w n"
  then show "w AND 2 ^ n = 0"
    by (intro bit_word_eqI) (auto simp: bit_and_iff bit_exp_iff)
qed

section \<open>The loop\<close>

lemma partRange_bounds:
  assumes "partRange part lo0 hi0 = Inr (lo, hi, step)"
  shows "lo0 \<le> lo" "hi \<le> hi0" "0 < step" "step \<le> maxInt"
proof -
  from assms show "lo0 \<le> lo" "hi \<le> hi0"
    by (auto simp: partRange_def split: sum.splits if_splits prod.splits)
  from assms obtain b where "partStep part = Inr (b, step)"
    by (auto simp: partRange_def split: sum.splits if_splits prod.splits)
  then show "0 < step" "step \<le> maxInt"
    by (auto simp: partStep_def maxInt_def split: prod.splits if_splits option.splits
             dest: atoi_range[unfolded maxInt_def])
qed

lemma maskLoop_bits:
  assumes "maskLoop fuel v hi step acc = Some m" "0 \<le> v" "0 < step" "hi < 64" "hi + step \<le> maxInt"
  shows "bit m n \<longleftrightarrow> bit acc n \<or> (v \<le> int n \<and> int n \<le> hi \<and> step dvd (int n - v))"
  using assms
proof (induction fuel arbitrary: v acc)
  case (Suc fuel)
  show ?case
  proof (cases "v \<le> hi")
    case False
    with Suc.prems show ?thesis by auto
  next
    case True
    with Suc.prems have w: "wrap64 (v + step) = v + step"
      by (intro wrap64_id) (auto simp: minInt_def)
    have "bit m n \<longleftrightarrow> bit (acc OR shiftBit v) n \<or> (v + step \<le> int n \<and> int n \<le> hi \<and> step dvd (int n - (v + step)))"
      using Suc.IH[of "v + step"] Suc.prems True w by simp
    moreover have "step dvd (int n - (v + step)) \<longleftrightarrow> step dvd (int n - v)"
      by (metis diff_diff_eq dvd_diff_left_iff dvd_refl)
    moreover have "step dvd (int n - v) \<Longrightarrow> v \<le> int n \<Longrightarrow> int n \<noteq> v \<Longrightarrow> v + step \<le> int n"
      using zdvd_imp_le[of step "int n - v"] by linarith
    ultimately show ?thesis using True Suc.prems by (auto simp: bit_or_iff)
  qed
qed simp

lemma maskLoop_ends_small:
  assumes "0 \<le> v" "0 < step" "hi < 64" "hi + step \<le> maxInt" "hi - v + 2 \<le> int fuel" "0 < fuel"
  shows "\<exists>m. maskLoop fuel v hi step acc = Some m"
  using assms
proof (induction fuel arbitrary: v acc)
  case (Suc fuel)
  show ?case
  proof (cases "v \<le> hi")
    case True
    with Suc.prems have w: "wrap64 (v + step) = v + step"
      by (intro wrap64_id) (auto simp: minInt_def)
    show ?thesis using Suc.IH[of "v + step"] Suc.prems True w by simp
  qed simp
qed simp

text \<open>When the step is so large that the counter wraps, every second iteration brings it
  back to a value at least two below where it was, until it stops.\<close>

lemma maskLoop_ends_big:
  assumes "v \<le> 63" "- 63 \<le> v" "0 \<le> hi" "hi < 64" "2 ^ 62 < step" "step \<le> maxInt" "2 * nat v + 2 \<le> fuel"
  shows "\<exists>m. maskLoop fuel v hi step acc = Some m"
  using assms
proof (induction "nat v" arbitrary: v acc fuel rule: less_induct)
  case less
  obtain f where f: "fuel = Suc (Suc f)" using less.prems(7) by (metis Suc_le_D add_2_eq_Suc' Suc_le_mono)
  show ?case
  proof (cases "v \<le> hi \<and> maxInt < v + step")
    case False
    show ?thesis
    proof (cases "v \<le> hi")
      case True
      with False have "v + step \<le> maxInt" by simp
      moreover then have "wrap64 (v + step) = v + step"
        using less.prems by (intro wrap64_id) (auto simp: minInt_def)
      moreover have "\<not> v + step \<le> hi" using less.prems by simp
      ultimately show ?thesis using f True by simp
    qed (simp add: f)
  next
    case True
    let ?u = "v + step - 2 ^ 64"
    have w1: "wrap64 (v + step) = ?u"
    proof -
      have "(v + step + 2 ^ 63) mod 2 ^ 64 = (v + step + 2 ^ 63 - 2 ^ 64) mod 2 ^ 64"
        by (rule minus_mod_self2 [symmetric])
      also have "\<dots> = v + step + 2 ^ 63 - 2 ^ 64"
        using True less.prems by (intro mod_pos_pos_trivial) (auto simp: maxInt_def)
      finally show ?thesis by (simp add: wrap64_def)
    qed
    have w2: "wrap64 (?u + step) = v - 2 * (2 ^ 63 - step)"
      using True less.prems by (subst wrap64_id) (auto simp: minInt_def maxInt_def)
    let ?v = "v - 2 * (2 ^ 63 - step)"
    have "0 < v" using True less.prems by (auto simp: maxInt_def)
    then have dec: "nat ?v < nat v" "?v \<le> 63" "- 63 \<le> ?v" "2 * nat ?v + 2 \<le> f"
      using True less.prems f by (auto simp: maxInt_def)
    have "?u \<le> hi" using True less.prems by (auto simp: maxInt_def)
    then show ?thesis using True f w1 w2 less.hyps[OF dec(1-3) less.prems(3-6) dec(4)] by simp
  qed
qed

lemma parsePart_ends:
  assumes "0 \<le> lo0" "hi0 < 64"
  shows "parsePart part lo0 hi0 \<noteq> Inl LoopDiverges"
proof (cases "partRange part lo0 hi0")
  case (Inl e)
  have "e \<noteq> LoopDiverges"
    using Inl by (auto simp: partRange_def partStep_def partBounds_def split: sum.splits if_splits prod.splits option.splits)
  with Inl show ?thesis by (simp add: parsePart_def)
next
  case (Inr r)
  obtain lo hi step where r: "r = (lo, hi, step)" by (cases r) auto
  note b = partRange_bounds[OF Inr[unfolded r]]
  have "\<exists>m. maskLoop maskFuel lo hi step 0 = Some m"
  proof (cases "lo \<le> hi")
    case False
    then show ?thesis by (simp add: maskFuel_def numeral_eq_Suc)
  next
    case True
    show ?thesis
    proof (cases "step \<le> 2 ^ 62")
      case le: True
      show ?thesis using b assms True le
        by (intro maskLoop_ends_small) (auto simp: maskFuel_def maxInt_def)
    next
      case False
      show ?thesis using b assms True False
        by (intro maskLoop_ends_big) (auto simp: maskFuel_def)
    qed
  qed
  then show ?thesis using Inr r by (auto simp: parsePart_def)
qed

lemma fieldStep_ends:
  assumes "0 \<le> lo0" "hi0 < 64"
  shows "foldRes (fieldStep lo0 hi0) m parts \<noteq> Inl LoopDiverges"
  using parsePart_ends[OF assms] by (induction parts arbitrary: m) (auto simp: fieldStep_def split: sum.splits)

lemma parseField_ends:
  assumes "0 \<le> lo0" "hi0 < 64"
  shows "parseField field lo0 hi0 \<noteq> Inl LoopDiverges"
  using fieldStep_ends[OF assms] by (auto simp: parseField_def split: sum.splits)

text \<open>C39: Parsing a schedule always ends: for every input text, whatever its steps, the
  bit-setting loop of every field stops within the fuel the model gives it, even where the
  64-bit loop counter wraps around.\<close>

theorem ParseSchedule_ends: "ParseSchedule expr \<noteq> Inl (InField label LoopDiverges)"
  using parseField_ends[of 0 59] parseField_ends[of 0 23] parseField_ends[of 1 31]
    parseField_ends[of 1 12] parseField_ends[of 0 6]
  by (auto simp: ParseSchedule_def inField_def split: list.splits sum.splits)

section \<open>Meaning of a parsed schedule\<close>

lemma parsePart_bits:
  assumes "parsePart part lo0 hi0 = Inr m" "partFits part lo0 hi0" "0 \<le> lo0" "hi0 < 64"
  shows "bit m n \<longleftrightarrow> partDenotes part lo0 hi0 (int n)"
proof -
  from assms(1) obtain lo hi step where r: "partRange part lo0 hi0 = Inr (lo, hi, step)"
    and l: "maskLoop maskFuel lo hi step 0 = Some m"
    by (auto simp: parsePart_def split: sum.splits option.splits)
  show ?thesis
    using maskLoop_bits[OF l, of n] partRange_bounds[OF r] assms r
    by (simp add: partDenotes_def partFits_def)
qed

lemma fieldStep_bits:
  assumes "foldRes (fieldStep lo0 hi0) m0 parts = Inr m" "list_all (\<lambda>part. partFits part lo0 hi0) parts"
    "0 \<le> lo0" "hi0 < 64"
  shows "bit m n \<longleftrightarrow> bit m0 n \<or> list_ex (\<lambda>part. partDenotes part lo0 hi0 (int n)) parts"
  using assms
proof (induction parts arbitrary: m0)
  case (Cons part parts)
  then obtain m1 where "parsePart part lo0 hi0 = Inr m1"
    by (auto simp: fieldStep_def split: sum.splits)
  with Cons parsePart_bits[OF this] show ?case by (auto simp: fieldStep_def bit_or_iff)
qed simp

lemma parseField_bits:
  assumes "parseField field lo0 hi0 = Inr (m, restricted)" "fieldFits field lo0 hi0" "0 \<le> lo0" "hi0 < 64"
  shows "restricted \<longleftrightarrow> field \<noteq> ''*''" "bit m n \<longleftrightarrow> fieldDenotes field lo0 hi0 (int n)"
proof -
  show "restricted \<longleftrightarrow> field \<noteq> ''*''" using assms(1) by (auto simp: parseField_def split: sum.splits if_splits)
  show "bit m n \<longleftrightarrow> fieldDenotes field lo0 hi0 (int n)"
  proof (cases "field = ''*''")
    case True
    with assms show ?thesis by (auto simp: parseField_def fieldDenotes_def bit_fullMask)
  next
    case False
    with assms(1) have f: "foldRes (fieldStep lo0 hi0) 0 (splitOn CHR '','' field) = Inr m"
      by (auto simp: parseField_def split: sum.splits)
    from assms(2) False have "list_all (\<lambda>part. partFits part lo0 hi0) (splitOn CHR '','' field)"
      by (simp add: fieldFits_def)
    from fieldStep_bits[OF f this assms(3,4), of n] False show ?thesis by (simp add: fieldDenotes_def)
  qed
qed

lemma ParseSchedule_fields:
  assumes "ParseSchedule expr = Inr s"
  obtains f0 f1 f2 f3 f4 mi h d mo w r0 r1 r3 where
    "goFields expr = [f0, f1, f2, f3, f4]"
    "parseField f0 0 59 = Inr (mi, r0)" "parseField f1 0 23 = Inr (h, r1)"
    "parseField f2 1 31 = Inr (d, sch_domRestricted s)" "parseField f3 1 12 = Inr (mo, r3)"
    "parseField f4 0 6 = Inr (w, sch_dowRestricted s)"
    "sch_minute s = mi" "sch_hour s = ucast h" "sch_dom s = ucast d" "sch_month s = ucast mo" "sch_dow s = ucast w"
  using assms
  by (auto simp: ParseSchedule_def inField_def split: list.splits sum.splits)

text \<open>A parsed schedule fires exactly at the minutes its text denotes, under cron's own
  rule for the two day fields: when both are restricted either is enough, otherwise both
  must hold. The masks narrowed to 32, 16 and 8 bits lose nothing. The steps are assumed
  not to wrap the 64-bit loop counter.\<close>

theorem Matches_fires:
  assumes "ParseSchedule expr = Inr s" "exprFits expr" "validCivil t"
  shows "Matches s t \<longleftrightarrow> cronFires expr t"
proof -
  obtain f0 f1 f2 f3 f4 mi h d mo w r0 r1 r3 where F: "goFields expr = [f0, f1, f2, f3, f4]"
    and P: "parseField f0 0 59 = Inr (mi, r0)" "parseField f1 0 23 = Inr (h, r1)"
    "parseField f2 1 31 = Inr (d, sch_domRestricted s)" "parseField f3 1 12 = Inr (mo, r3)"
    "parseField f4 0 6 = Inr (w, sch_dowRestricted s)"
    and S: "sch_minute s = mi" "sch_hour s = ucast h" "sch_dom s = ucast d" "sch_month s = ucast mo" "sch_dow s = ucast w"
    using ParseSchedule_fields[OF assms(1)] by metis
  from assms(2) F have fit: "fieldFits f0 0 59" "fieldFits f1 0 23" "fieldFits f2 1 31" "fieldFits f3 1 12" "fieldFits f4 0 6"
    by (simp_all add: exprFits_def)
  note bits = parseField_bits[OF P(1) fit(1), simplified] parseField_bits[OF P(2) fit(2), simplified]
    parseField_bits[OF P(3) fit(3), simplified] parseField_bits[OF P(4) fit(4), simplified]
    parseField_bits[OF P(5) fit(5), simplified]
  show ?thesis using assms(3) F
    by (auto simp: Matches_def cronFires_def validCivil_def and_exp_eq_0 S bit_ucast_iff bits Let_def)
qed

theorem Matches_fires_witness:
  "(\<exists>s. ParseSchedule ''*/15 2-4 1 * 1'' = Inr s \<and>
      Matches s \<lparr>t_Minute = 30, t_Hour = 3, t_Day = 8, t_Month = 6, t_Weekday = 1\<rparr> \<and>
      \<not> Matches s \<lparr>t_Minute = 31, t_Hour = 3, t_Day = 8, t_Month = 6, t_Weekday = 1\<rparr>)"
proof -
  let ?e = "''*/15 2-4 1 * 1''"
  have c: "ParseSchedule ?e = Inr (projr (ParseSchedule ?e))" by code_simp
  have f: "exprFits ?e" by code_simp
  have "cronFires ?e \<lparr>t_Minute = 30, t_Hour = 3, t_Day = 8, t_Month = 6, t_Weekday = 1\<rparr>"
    "\<not> cronFires ?e \<lparr>t_Minute = 31, t_Hour = 3, t_Day = 8, t_Month = 6, t_Weekday = 1\<rparr>" by code_simp+
  with Matches_fires[OF c f] c show ?thesis by (auto simp: validCivil_def)
qed

text \<open>A step so large that it wraps the 64-bit loop counter is accepted and sets bits
  below the range: \<^verbatim>\<open>2-59/9223372036854775807\<close> in the minute field denotes minute 2 alone,
  but the parsed mask also contains minute 0.\<close>

theorem parsePart_step_wraps:
  "parsePart ''2-59/9223372036854775807'' 0 59 = Inr 5 \<and>
   \<not> partDenotes ''2-59/9223372036854775807'' 0 59 0"
  by code_simp

end
