(* ===== verification/Manifest.thy ===== *)
theory Manifest
  imports Pathmatch Cron
begin

text \<open>
  The plugin manifest (\<^verbatim>\<open>src/manifest/manifest.go\<close>, \<^verbatim>\<open>src/manifest/plugin.go\<close>): its data, the
  checks that run before a plugin may be installed, compiled filters, and configuration
  defaults. \<open>Validate\<close> is the source's walk that stops at the first problem; \<open>wellFormed\<close> is
  the same contract as one predicate, and the two are proved equal. The YAML decoder is a
  parameter of \<open>Load\<close>. Error texts are constructors carrying the values they print.
\<close>

section \<open>Data\<close>

record ConfigDecl =
  cd_Key :: string
  cd_Label :: string
  cd_Description :: string
  cd_Type :: string
  cd_Default :: string
  cd_Required :: bool
  cd_Secret :: bool

datatype MenuItem =
  MenuItem (mi_Path: string) (mi_Title: string) (mi_Icon: string) (mi_Order: int)
    (mi_Entry: string) (mi_Roles: "string list") (mi_Children: "MenuItem list")

record Index =
  ix_Fields :: "string list"
  ix_Unique :: bool

record Collection =
  col_Name :: string
  col_Indexes :: "Index list"

record Runtime =
  rt_Entrypoint :: string
  rt_Args :: "string list"
  rt_Replicas :: int

record FilterMatch =
  fm_Paths :: "string list"
  fm_Methods :: "string list"

record FilterDecl =
  fd_Name :: string
  fd_Phase :: string
  fd_Match :: FilterMatch
  fd_Order :: int
  fd_FailClosed :: bool
  fd_TimeoutMS :: int
  fd_NeedsRequestBody :: bool
  fd_NeedsResponseBody :: bool
  fd_MaxBodyBytes :: int

record JobDecl =
  jd_Name :: string
  jd_Cron :: string

record Manifest =
  m_Key :: string
  m_DisplayName :: string
  m_Version :: string
  m_Weight :: int
  m_Runtime :: Runtime
  m_Permissions :: "string list"
  m_Menus :: "MenuItem list"
  m_Collections :: "Collection list"
  m_Filters :: "FilterDecl list"
  m_Jobs :: "JobDecl list"
  m_EgressAllow :: "string list"
  m_Config :: "ConfigDecl list"

definition PermDB :: string where "PermDB = ''db''"
definition PermDBTx :: string where "PermDBTx = ''db:tx''"
definition PermQueue :: string where "PermQueue = ''queue''"
definition PermCache :: string where "PermCache = ''cache''"
definition PermLock :: string where "PermLock = ''lock''"
definition PermCron :: string where "PermCron = ''cron''"
definition PermEvents :: string where "PermEvents = ''events''"
definition PermFilesRead :: string where "PermFilesRead = ''files:read''"
definition PermFilesWrite :: string where "PermFilesWrite = ''files:write''"
definition PermHTTPEgress :: string where "PermHTTPEgress = ''http:egress''"
definition PermFilterAuthenticate :: string where "PermFilterAuthenticate = ''filter:authenticate''"

definition knownPermissions :: "string list" where
  "knownPermissions = [PermDB, PermDBTx, PermQueue, PermCache, PermLock, PermCron, PermEvents,
     PermFilesRead, PermFilesWrite, PermHTTPEgress, PermFilterAuthenticate]"

definition PhasePreRoute :: string where "PhasePreRoute = ''pre_route''"
definition PhaseAuthenticate :: string where "PhaseAuthenticate = ''authenticate''"
definition PhaseAuthorize :: string where "PhaseAuthorize = ''authorize''"
definition PhasePreHandler :: string where "PhasePreHandler = ''pre_handler''"
definition PhasePostHandler :: string where "PhasePostHandler = ''post_handler''"
definition PhaseOnError :: string where "PhaseOnError = ''on_error''"
definition PhaseLog :: string where "PhaseLog = ''log''"

definition knownPhases :: "string list" where
  "knownPhases = [PhasePreRoute, PhaseAuthenticate, PhaseAuthorize, PhasePreHandler,
     PhasePostHandler, PhaseOnError, PhaseLog]"

definition ConfigTypes :: "string list" where
  "ConfigTypes = [''string'', ''int'', ''bool'', ''duration'', ''text'']"

definition MaxFilters :: nat where "MaxFilters = 64"
definition MaxCollections :: nat where "MaxCollections = 64"
definition MaxJobs :: nat where "MaxJobs = 64"
definition MaxConfigKeys :: nat where "MaxConfigKeys = 128"
definition MaxMenuDepth :: nat where "MaxMenuDepth = 8"
definition MaxMenuNodes :: nat where "MaxMenuNodes = 256"
definition MaxManifestBytes :: nat where "MaxManifestBytes = 2 ^ 20"

text \<open>How an error message names a filter: by its name, or by its index and phase.\<close>

datatype label = ByName string | ByIndex nat string

definition filterLabel :: "FilterDecl \<Rightarrow> nat \<Rightarrow> label" where
  "filterLabel f idx = (if fd_Name f \<noteq> [] then ByName (fd_Name f) else ByIndex idx (fd_Phase f))"

datatype verr =
    KeyRequired | BadKey string | VersionRequired | UnknownPermission string
  | UnknownPhase label string | DuplicateFilter string | NoPaths label
  | BadPattern label compile_err | MissingAuthPermission label | NegativeTimeout label
  | NegativeMaxBody label | MaxBodyWithoutRequestBody label
  | JobNoName | DuplicateJob string | JobNoCron string | BadCron string cron_err
  | JobsWithoutPermission | EgressWithoutPermission | NegativeReplicas
  | TooManyFilters nat | TooManyCollections nat | TooManyJobs nat | TooManyConfig nat
  | MenuTooDeep | TooManyMenuNodes
  | ConfigNoKey | DuplicateConfig string | UnknownConfigType string string

datatype menu_err = MenuNoPath string | DuplicateMenuPath string

section \<open>Operations\<close>

definition HasPermission :: "Manifest \<Rightarrow> string \<Rightarrow> bool" where
  "HasPermission m perm = (perm \<in> set (m_Permissions m))"

definition ReplicaCount :: "Manifest \<Rightarrow> int" where
  "ReplicaCount m = (if rt_Replicas (m_Runtime m) \<le> 0 then 1 else rt_Replicas (m_Runtime m))"

text \<open>The menu walk registers every path; the accumulator is the set of paths seen.\<close>

fun walkMenus :: "string list \<Rightarrow> MenuItem list \<Rightarrow> menu_err + string list" where
  "walkMenus seen [] = Inr seen"
| "walkMenus seen (MenuItem path title icon ord entry roles children # ns) =
     (if path = [] then Inl (MenuNoPath title)
      else if path \<in> set seen then Inl (DuplicateMenuPath path)
      else (case walkMenus (path # seen) children of
              Inl e \<Rightarrow> Inl e
            | Inr seen' \<Rightarrow> walkMenus seen' ns))"

definition validateMenus :: "MenuItem list \<Rightarrow> menu_err + unit" where
  "validateMenus nodes = (case walkMenus [] nodes of Inl e \<Rightarrow> Inl e | Inr _ \<Rightarrow> Inr ())"

text \<open>\<open>walkSize cnt depth nodes\<close> is the body of the size walk at a depth already checked;
  the check of the next depth happens on entering a node's children, even when it has none.\<close>

fun walkSize :: "nat \<Rightarrow> nat \<Rightarrow> MenuItem list \<Rightarrow> verr + nat" where
  "walkSize cnt depth [] = Inr cnt"
| "walkSize cnt depth (MenuItem path title icon ord entry roles children # ns) =
     (if MaxMenuNodes < cnt + 1 then Inl TooManyMenuNodes
      else (case (if MaxMenuDepth < depth + 1 then Inl MenuTooDeep
                  else walkSize (cnt + 1) (depth + 1) children) of
              Inl e \<Rightarrow> Inl e
            | Inr cnt' \<Rightarrow> walkSize cnt' depth ns))"

definition checkMenuSize :: "MenuItem list \<Rightarrow> verr + unit" where
  "checkMenuSize nodes =
     (if MaxMenuDepth < 1 then Inl MenuTooDeep
      else (case walkSize 0 1 nodes of Inl e \<Rightarrow> Inl e | Inr _ \<Rightarrow> Inr ()))"

datatype load_err = ManifestTooBig nat | ReadFailed | ParseFailed | MenusInvalid menu_err

datatype decode_err = DecodeEOF | DecodeOther

text \<open>\<open>Load\<close> over the file's stat size, its contents and the YAML decoder.\<close>

definition Load :: "nat option \<Rightarrow> bytes option \<Rightarrow> (bytes \<Rightarrow> decode_err option \<times> Manifest) \<Rightarrow> load_err + Manifest" where
  "Load statSize contents decode =
     bindRes (case statSize of
        Some n \<Rightarrow> if MaxManifestBytes < n then Inl (ManifestTooBig n) else Inr ()
      | None \<Rightarrow> Inr ()) (\<lambda>_.
      (case contents of
        None \<Rightarrow> Inl ReadFailed
      | Some bs \<Rightarrow>
          (case decode bs of (err, m) \<Rightarrow>
             if err = Some DecodeOther then Inl ParseFailed
             else (case validateMenus (m_Menus m) of Inl e \<Rightarrow> Inl (MenusInvalid e) | Inr _ \<Rightarrow> Inr m))))"

definition validateFilter :: "Manifest \<Rightarrow> string list \<Rightarrow> nat \<times> FilterDecl \<Rightarrow> verr + string list" where
  "validateFilter m seen nf =
     (case nf of (i, f) \<Rightarrow>
      let label = filterLabel f i;
          seen' = (if fd_Name f \<noteq> [] then fd_Name f # seen else seen)
      in if fd_Phase f \<notin> set knownPhases then Inl (UnknownPhase label (fd_Phase f))
         else if fd_Name f \<noteq> [] \<and> fd_Name f \<in> set seen then Inl (DuplicateFilter (fd_Name f))
         else if fm_Paths (fd_Match f) = [] then Inl (NoPaths label)
         else (case CompileSet (fm_Paths (fd_Match f)) of
                 Inl e \<Rightarrow> Inl (BadPattern label e)
               | Inr _ \<Rightarrow>
                   if fd_Phase f = PhaseAuthenticate \<and> \<not> HasPermission m PermFilterAuthenticate
                   then Inl (MissingAuthPermission label)
                   else if fd_TimeoutMS f < 0 then Inl (NegativeTimeout label)
                   else if fd_MaxBodyBytes f < 0 then Inl (NegativeMaxBody label)
                   else if fd_MaxBodyBytes f > 0 \<and> \<not> fd_NeedsRequestBody f
                   then Inl (MaxBodyWithoutRequestBody label)
                   else Inr seen'))"

definition validateJob :: "string list \<Rightarrow> JobDecl \<Rightarrow> verr + string list" where
  "validateJob seen j =
     (if jd_Name j = [] then Inl JobNoName
      else if jd_Name j \<in> set seen then Inl (DuplicateJob (jd_Name j))
      else if jd_Cron j = [] then Inl (JobNoCron (jd_Name j))
      else (case ParseSchedule (jd_Cron j) of
              Inl e \<Rightarrow> Inl (BadCron (jd_Name j) e)
            | Inr _ \<Rightarrow> Inr (jd_Name j # seen)))"

definition validateConfig :: "string list \<Rightarrow> ConfigDecl \<Rightarrow> verr + string list" where
  "validateConfig seen c =
     (if cd_Key c = [] then Inl ConfigNoKey
      else if cd_Key c \<in> set seen then Inl (DuplicateConfig (cd_Key c))
      else if cd_Type c = [] then Inr (cd_Key c # seen)
      else if cd_Type c \<notin> set ConfigTypes then Inl (UnknownConfigType (cd_Key c) (cd_Type c))
      else Inr (cd_Key c # seen))"

definition badKeyByte :: "char \<Rightarrow> bool" where
  "badKeyByte c = (c = CHR ''/'' \<or> c = CHR 0x5C \<or> c = CHR ''.'' \<or> c = CHR '' '')"

definition validatePerm :: "unit \<Rightarrow> string \<Rightarrow> verr + unit" where
  "validatePerm u p = (if p \<in> set knownPermissions then Inr () else Inl (UnknownPermission p))"

definition Validate :: "Manifest \<Rightarrow> verr + unit" where
  "Validate m =
     (if m_Key m = [] then Inl KeyRequired
      else if list_ex badKeyByte (m_Key m) then Inl (BadKey (m_Key m))
      else if m_Version m = [] then Inl VersionRequired
      else bindRes (foldRes validatePerm () (m_Permissions m)) (\<lambda>_.
      bindRes (foldRes (validateFilter m) [] (List.enumerate 0 (m_Filters m))) (\<lambda>_.
      bindRes (foldRes validateJob [] (m_Jobs m)) (\<lambda>_.
        if m_Jobs m \<noteq> [] \<and> \<not> HasPermission m PermCron then Inl JobsWithoutPermission
        else if m_EgressAllow m \<noteq> [] \<and> \<not> HasPermission m PermHTTPEgress then Inl EgressWithoutPermission
        else if rt_Replicas (m_Runtime m) < 0 then Inl NegativeReplicas
        else if MaxFilters < length (m_Filters m) then Inl (TooManyFilters (length (m_Filters m)))
        else if MaxCollections < length (m_Collections m) then Inl (TooManyCollections (length (m_Collections m)))
        else if MaxJobs < length (m_Jobs m) then Inl (TooManyJobs (length (m_Jobs m)))
        else if MaxConfigKeys < length (m_Config m) then Inl (TooManyConfig (length (m_Config m)))
        else bindRes (checkMenuSize (m_Menus m)) (\<lambda>_.
        bindRes (foldRes validateConfig [] (m_Config m)) (\<lambda>_. Inr ()))))))"

text \<open>A compiled filter; \<open>None\<close> as method set is the nil map, which means every method.\<close>

record CompiledFilter =
  cf_Decl :: FilterDecl
  cf_Paths :: PathSet
  cf_methods :: "string list option"

definition normMethod :: "string \<Rightarrow> string" where
  "normMethod m = toUpper (trimSpace m)"

fun normalizeLoop :: "string list \<Rightarrow> string list \<Rightarrow> string list option" where
  "normalizeLoop acc [] = Some acc"
| "normalizeLoop acc (m0 # ms) =
     (let m = normMethod m0 in if m = ''*'' \<or> m = [] then None else normalizeLoop (List.insert m acc) ms)"

definition normalizeMethods :: "string list \<Rightarrow> string list option" where
  "normalizeMethods methods = (if methods = [] then None else normalizeLoop [] methods)"

definition MatchesMethod :: "CompiledFilter \<Rightarrow> string \<Rightarrow> bool" where
  "MatchesMethod c method = (case cf_methods c of None \<Rightarrow> True | Some ms \<Rightarrow> method \<in> set ms)"

definition FilterMatches :: "CompiledFilter \<Rightarrow> string \<Rightarrow> string \<Rightarrow> bool" where
  "FilterMatches c method path = (MatchesMethod c method \<and> SetMatch (cf_Paths c) path)"

definition compileFilter :: "nat \<times> FilterDecl \<Rightarrow> (label \<times> compile_err) + CompiledFilter" where
  "compileFilter nf =
     (case nf of (i, f) \<Rightarrow>
      case CompileSet (fm_Paths (fd_Match f)) of
        Inl e \<Rightarrow> Inl (filterLabel f i, e)
      | Inr ps \<Rightarrow> Inr \<lparr>cf_Decl = f, cf_Paths = ps, cf_methods = normalizeMethods (fm_Methods (fd_Match f))\<rparr>)"

definition CompileFilters :: "Manifest \<Rightarrow> (label \<times> compile_err) + CompiledFilter list" where
  "CompileFilters m = mapRes compileFilter (List.enumerate 0 (m_Filters m))"

definition ConfigDefaults :: "Manifest \<Rightarrow> (string, string) gomap" where
  "ConfigDefaults m =
     fold (\<lambda>c out. if cd_Default c \<noteq> [] then AList.update (cd_Key c) (cd_Default c) out else out) (m_Config m) []"

definition MergeConfig :: "Manifest \<Rightarrow> (string, string) gomap \<Rightarrow> (string, string) gomap" where
  "MergeConfig m conf =
     (let defaults = ConfigDefaults m
      in if length defaults = 0 then conf else copyInto (copyInto [] defaults) conf)"

section \<open>Menus\<close>

fun menuPaths :: "MenuItem list \<Rightarrow> string list" where
  "menuPaths [] = []"
| "menuPaths (MenuItem path title icon ord entry roles children # ns) =
     path # menuPaths children @ menuPaths ns"

fun menuDepth :: "MenuItem list \<Rightarrow> nat" where
  "menuDepth [] = 0"
| "menuDepth (MenuItem path title icon ord entry roles children # ns) =
     max (1 + menuDepth children) (menuDepth ns)"

abbreviation menuCount :: "MenuItem list \<Rightarrow> nat" where
  "menuCount ns \<equiv> length (menuPaths ns)"

lemma walkMenus_iff:
  "walkMenus seen ns = Inr seen' \<longleftrightarrow>
     [] \<notin> set (menuPaths ns) \<and> distinct (menuPaths ns) \<and> set (menuPaths ns) \<inter> set seen = {} \<and>
     seen' = rev (menuPaths ns) @ seen"
proof (induction seen ns arbitrary: seen' rule: walkMenus.induct)
  case (2 seen path title icon ord entry roles children ns)
  show ?case
  proof (cases "path = [] \<or> path \<in> set seen")
    case True
    then show ?thesis by auto
  next
    case False
    then show ?thesis
    proof (cases "walkMenus (path # seen) children")
      case (Inl e)
      then have "\<not> ([] \<notin> set (menuPaths children) \<and> distinct (menuPaths children) \<and>
          set (menuPaths children) \<inter> set (path # seen) = {})"
        using 2(1)[of "rev (menuPaths children) @ path # seen"] False by auto
      with Inl False show ?thesis by auto
    next
      case (Inr t)
      with 2(1)[of t] False have t: "[] \<notin> set (menuPaths children)" "distinct (menuPaths children)"
        "set (menuPaths children) \<inter> set (path # seen) = {}" "t = rev (menuPaths children) @ path # seen"
        by auto
      have "walkMenus t ns = Inr seen' \<longleftrightarrow> [] \<notin> set (menuPaths ns) \<and> distinct (menuPaths ns) \<and>
          set (menuPaths ns) \<inter> set t = {} \<and> seen' = rev (menuPaths ns) @ t"
        using 2(2) Inr False by auto
      with Inr False t show ?thesis by auto
    qed
  qed
qed auto

text \<open>The menu check of \<^verbatim>\<open>Load\<close> accepts exactly the trees in which every node, at any depth,
  has a path and no path occurs twice.\<close>

theorem validateMenus_iff:
  "validateMenus ns = Inr () \<longleftrightarrow> [] \<notin> set (menuPaths ns) \<and> distinct (menuPaths ns)"
  using walkMenus_iff[of "[]" ns]
  by (cases "walkMenus [] ns") (auto simp: validateMenus_def)

lemma walkSize_count: "walkSize cnt depth ns = Inr cnt' \<Longrightarrow> cnt' = cnt + menuCount ns"
  by (induction cnt depth ns arbitrary: cnt' rule: walkSize.induct)
    (fastforce split: if_splits sum.splits)+

lemma walkSize_iff:
  "cnt \<le> MaxMenuNodes \<Longrightarrow> depth \<le> MaxMenuDepth \<Longrightarrow>
   (\<exists>cnt'. walkSize cnt depth ns = Inr cnt') \<longleftrightarrow>
     cnt + menuCount ns \<le> MaxMenuNodes \<and> depth + menuDepth ns \<le> MaxMenuDepth"
proof (induction cnt depth ns rule: walkSize.induct)
  case (2 cnt depth path title icon ord entry roles children ns)
  show ?case
  proof (cases "MaxMenuNodes < cnt + 1 \<or> MaxMenuDepth < depth + 1")
    case True
    then show ?thesis by auto
  next
    case False
    then have IH1: "(\<exists>c. walkSize (cnt + 1) (depth + 1) children = Inr c) \<longleftrightarrow>
        cnt + 1 + menuCount children \<le> MaxMenuNodes \<and> depth + 1 + menuDepth children \<le> MaxMenuDepth"
      using 2(1) by auto
    show ?thesis
    proof (cases "walkSize (cnt + 1) (depth + 1) children")
      case (Inl e)
      with IH1 False show ?thesis by auto
    next
      case (Inr c)
      then have c: "c = cnt + 1 + menuCount children" by (rule walkSize_count)
      from Inr IH1 have ok: "c \<le> MaxMenuNodes" "depth + 1 + menuDepth children \<le> MaxMenuDepth"
        using c by auto
      have "(\<exists>c'. walkSize c depth ns = Inr c') \<longleftrightarrow> c + menuCount ns \<le> MaxMenuNodes \<and> depth + menuDepth ns \<le> MaxMenuDepth"
        using 2(2) Inr False ok by auto
      with Inr False c ok show ?thesis by auto
    qed
  qed
qed auto

lemma checkMenuSize_iff:
  "checkMenuSize ns = Inr () \<longleftrightarrow> menuCount ns \<le> MaxMenuNodes \<and> menuDepth ns < MaxMenuDepth"
  using walkSize_iff[of 0 1 ns]
  by (cases "walkSize 0 1 ns") (auto simp: checkMenuSize_def MaxMenuDepth_def)

text \<open>The size check accepts exactly the trees with at most 256 nodes and at most seven
  levels: since the depth is checked on entering the children of a node even when there are
  none, a tree with the eight levels the limit names is refused as deeper than eight.\<close>

theorem checkMenuSize_accepts:
  "checkMenuSize ns = Inr () \<longleftrightarrow> menuCount ns \<le> 256 \<and> menuDepth ns \<le> 7"
  by (auto simp: checkMenuSize_iff MaxMenuNodes_def MaxMenuDepth_def)

section \<open>Validation\<close>

definition filterOk :: "Manifest \<Rightarrow> FilterDecl \<Rightarrow> bool" where
  "filterOk m f =
     (fd_Phase f \<in> set knownPhases \<and> fm_Paths (fd_Match f) \<noteq> [] \<and>
      list_all (\<lambda>pat. isOk (Compile pat)) (fm_Paths (fd_Match f)) \<and>
      (fd_Phase f = PhaseAuthenticate \<longrightarrow> HasPermission m PermFilterAuthenticate) \<and>
      0 \<le> fd_TimeoutMS f \<and> 0 \<le> fd_MaxBodyBytes f \<and>
      (0 < fd_MaxBodyBytes f \<longrightarrow> fd_NeedsRequestBody f))"

definition wellFormed :: "Manifest \<Rightarrow> bool" where
  "wellFormed m =
     (m_Key m \<noteq> [] \<and> list_all (\<lambda>c. \<not> badKeyByte c) (m_Key m) \<and> m_Version m \<noteq> [] \<and>
      set (m_Permissions m) \<subseteq> set knownPermissions \<and>
      list_all (filterOk m) (m_Filters m) \<and>
      distinct (filter (\<lambda>n. n \<noteq> []) (map fd_Name (m_Filters m))) \<and>
      list_all (\<lambda>j. jd_Name j \<noteq> [] \<and> jd_Cron j \<noteq> [] \<and> isOk (ParseSchedule (jd_Cron j))) (m_Jobs m) \<and>
      distinct (map jd_Name (m_Jobs m)) \<and>
      (m_Jobs m \<noteq> [] \<longrightarrow> HasPermission m PermCron) \<and>
      (m_EgressAllow m \<noteq> [] \<longrightarrow> HasPermission m PermHTTPEgress) \<and>
      0 \<le> rt_Replicas (m_Runtime m) \<and>
      length (m_Filters m) \<le> MaxFilters \<and> length (m_Collections m) \<le> MaxCollections \<and>
      length (m_Jobs m) \<le> MaxJobs \<and> length (m_Config m) \<le> MaxConfigKeys \<and>
      menuCount (m_Menus m) \<le> MaxMenuNodes \<and> menuDepth (m_Menus m) < MaxMenuDepth \<and>
      list_all (\<lambda>c. cd_Key c \<noteq> [] \<and> (cd_Type c = [] \<or> cd_Type c \<in> set ConfigTypes)) (m_Config m) \<and>
      distinct (map cd_Key (m_Config m)))"

lemma CompileSet_total:
  "(\<exists>s. CompileSet ps = Inr s) \<longleftrightarrow> list_all (\<lambda>pat. isOk (Compile pat)) ps"
proof -
  have "(\<exists>s'. foldRes compileSetStep s ps = Inr s') \<longleftrightarrow> list_all (\<lambda>pat. isOk (Compile pat)) ps" for s
    by (induction ps arbitrary: s) (auto simp: compileSetStep_def isOk_iff Let_def split: sum.splits)
  then show ?thesis by (simp add: CompileSet_def)
qed

lemma foldRes_perm: "foldRes validatePerm u ps = Inr v \<longleftrightarrow> set ps \<subseteq> set knownPermissions"
  by (induction ps arbitrary: u) (auto simp: validatePerm_def)

lemma validateFilter_Inr:
  "validateFilter m seen nf = Inr s' \<longleftrightarrow>
     filterOk m (snd nf) \<and> distinct (filter (\<lambda>n. n \<noteq> []) [fd_Name (snd nf)]) \<and>
     set (filter (\<lambda>n. n \<noteq> []) [fd_Name (snd nf)]) \<inter> set seen = {} \<and>
     s' = rev (filter (\<lambda>n. n \<noteq> []) [fd_Name (snd nf)]) @ seen"
proof -
  obtain i f where nf: "nf = (i, f)" by (cases nf)
  show ?thesis
    using CompileSet_total[of "fm_Paths (fd_Match f)"]
    by (cases "CompileSet (fm_Paths (fd_Match f))")
      (auto simp: nf validateFilter_def filterOk_def Let_def)
qed

lemma validateJob_Inr:
  "validateJob seen j = Inr s' \<longleftrightarrow>
     (jd_Name j \<noteq> [] \<and> jd_Cron j \<noteq> [] \<and> isOk (ParseSchedule (jd_Cron j))) \<and> distinct [jd_Name j] \<and>
     set [jd_Name j] \<inter> set seen = {} \<and> s' = rev [jd_Name j] @ seen"
  by (auto simp: validateJob_def isOk_iff split: sum.splits)

lemma validateConfig_Inr:
  "validateConfig seen c = Inr s' \<longleftrightarrow>
     (cd_Key c \<noteq> [] \<and> (cd_Type c = [] \<or> cd_Type c \<in> set ConfigTypes)) \<and> distinct [cd_Key c] \<and>
     set [cd_Key c] \<inter> set seen = {} \<and> s' = rev [cd_Key c] @ seen"
  by (auto simp: validateConfig_def)

lemma concat_singletons: "concat (map (\<lambda>x. [f x]) xs) = map f xs"
  by (induction xs) auto

lemma concat_filter_names:
  "concat (map (\<lambda>nf. filter P [g (snd nf)]) (List.enumerate n fs)) = filter P (map g fs)"
  by (induction fs arbitrary: n) auto

lemma foldRes_filters:
  "(\<exists>s. foldRes (validateFilter m) [] (List.enumerate 0 (m_Filters m)) = Inr s) \<longleftrightarrow>
     list_all (filterOk m) (m_Filters m) \<and> distinct (filter (\<lambda>n. n \<noteq> []) (map fd_Name (m_Filters m)))"
proof -
  have "(\<forall>nf \<in> set (List.enumerate 0 (m_Filters m)). filterOk m (snd nf)) \<longleftrightarrow> list_all (filterOk m) (m_Filters m)"
    by (metis (mono_tags, lifting) list_all_iff map_snd_enumerate image_iff list.set_map)
  then show ?thesis
    using foldRes_seen[where ok = "\<lambda>nf. filterOk m (snd nf)" and step = "validateFilter m"
        and keys = "\<lambda>nf. filter (\<lambda>n. n \<noteq> []) [fd_Name (snd nf)]", OF validateFilter_Inr]
    by (simp only: concat_filter_names) auto
qed

lemma foldRes_jobs:
  "(\<exists>s. foldRes validateJob [] js = Inr s) \<longleftrightarrow>
     list_all (\<lambda>j. jd_Name j \<noteq> [] \<and> jd_Cron j \<noteq> [] \<and> isOk (ParseSchedule (jd_Cron j))) js \<and> distinct (map jd_Name js)"
  using foldRes_seen[where step = validateJob and seen = "[]" and xs = js
      and keys = "\<lambda>j. [jd_Name j]", OF validateJob_Inr]
  by (simp only: concat_singletons list_all_iff) auto

lemma foldRes_config:
  "(\<exists>s. foldRes validateConfig [] cs = Inr s) \<longleftrightarrow>
     list_all (\<lambda>c. cd_Key c \<noteq> [] \<and> (cd_Type c = [] \<or> cd_Type c \<in> set ConfigTypes)) cs \<and> distinct (map cd_Key cs)"
  using foldRes_seen[where step = validateConfig and seen = "[]" and xs = cs
      and keys = "\<lambda>c. [cd_Key c]", OF validateConfig_Inr]
  by (simp only: concat_singletons list_all_iff) auto

lemma Validate_wellFormed: "Validate m = Inr () \<longleftrightarrow> wellFormed m"
  using foldRes_filters[of m] foldRes_jobs[of "m_Jobs m"] foldRes_config[of "m_Config m"]
  by (auto simp: Validate_def wellFormed_def foldRes_perm checkMenuSize_iff list_all_iff list_ex_iff not_less)


section \<open>Compiled filters\<close>

lemma normalizeLoop_None:
  "normalizeLoop acc ms = None \<longleftrightarrow> (\<exists>m \<in> set ms. normMethod m = ''*'' \<or> normMethod m = [])"
  by (induction ms arbitrary: acc) (auto simp: Let_def)

lemma normalizeLoop_Some:
  "normalizeLoop acc ms = Some s \<Longrightarrow> set s = set acc \<union> normMethod ` set ms"
  by (induction ms arbitrary: acc) (auto simp: Let_def split: if_splits)

definition methodDeclared :: "string list \<Rightarrow> string \<Rightarrow> bool" where
  "methodDeclared ms method =
     (ms = [] \<or> list_ex (\<lambda>m. normMethod m = ''*'' \<or> normMethod m = [] \<or> normMethod m = method) ms)"

lemma normalizeMethods_iff:
  "(case normalizeMethods ms of None \<Rightarrow> True | Some s \<Rightarrow> method \<in> set s) \<longleftrightarrow> methodDeclared ms method"
proof (cases "normalizeLoop [] ms")
  case None
  then show ?thesis using normalizeLoop_None[of "[]" ms]
    by (auto simp: normalizeMethods_def methodDeclared_def list_ex_iff)
next
  case (Some s)
  have "\<not> (\<exists>m \<in> set ms. normMethod m = ''*'' \<or> normMethod m = [])"
    using Some normalizeLoop_None[of "[]" ms] by auto
  then show ?thesis using Some normalizeLoop_Some[OF Some]
    by (auto simp: normalizeMethods_def methodDeclared_def list_ex_iff)
qed

text \<open>Compiling the filters of a validated manifest never fails, and the compiled filters
  are the declared ones in order, each applying to exactly the requests its declaration
  names: the method is listed up to case and space (or every method is meant) and one of
  the declared paths covers the path.\<close>

theorem CompileFilters_validated:
  assumes "Validate m = Inr ()"
  shows "\<exists>cfs. CompileFilters m = Inr cfs \<and> map cf_Decl cfs = m_Filters m \<and>
    (\<forall>cf \<in> set cfs. \<forall>method path. FilterMatches cf method path \<longleftrightarrow>
       methodDeclared (fm_Methods (fd_Match (cf_Decl cf))) method \<and>
       (\<exists>pat \<in> set (fm_Paths (fd_Match (cf_Decl cf))). globCovers pat path))"
proof -
  from assms have ok: "list_all (filterOk m) (m_Filters m)" by (simp add: Validate_wellFormed wellFormed_def)
  have "\<exists>y. compileFilter nf = Inr y" if "nf \<in> set (List.enumerate 0 (m_Filters m))" for nf
  proof -
    obtain i f where nf: "nf = (i, f)" by (cases nf)
    with that have "f \<in> set (m_Filters m)" by (auto simp: in_set_enumerate_eq)
    with ok have "list_all (\<lambda>pat. isOk (Compile pat)) (fm_Paths (fd_Match f))"
      by (auto simp: list_all_iff filterOk_def)
    with CompileSet_total show ?thesis by (force simp: nf compileFilter_def)
  qed
  then obtain cfs where cfs: "CompileFilters m = Inr cfs"
    unfolding CompileFilters_def using mapRes_total by blast
  have decl: "mapRes compileFilter (List.enumerate n fs) = Inr cs \<Longrightarrow> map cf_Decl cs = fs" for n fs cs
    by (induction fs arbitrary: n cs) (auto simp: compileFilter_def split: sum.splits)
  have "FilterMatches cf verb path \<longleftrightarrow>
       methodDeclared (fm_Methods (fd_Match (cf_Decl cf))) verb \<and>
       (\<exists>pat \<in> set (fm_Paths (fd_Match (cf_Decl cf))). globCovers pat path)"
    if mem: "cf \<in> set cfs" for cf verb path
  proof -
    obtain nf where "compileFilter nf = Inr cf"
      using mapRes_mem[OF cfs[unfolded CompileFilters_def] mem] by blast
    then obtain ps where ps: "CompileSet (fm_Paths (fd_Match (cf_Decl cf))) = Inr ps" "cf_Paths cf = ps"
      "cf_methods cf = normalizeMethods (fm_Methods (fd_Match (cf_Decl cf)))"
      by (auto simp: compileFilter_def split: prod.splits sum.splits)
    with SetMatch_cover_aux[OF ps(1)] normalizeMethods_iff show ?thesis
      by (simp add: FilterMatches_def MatchesMethod_def)
  qed
  with cfs decl[OF cfs[unfolded CompileFilters_def]] show ?thesis by blast
qed

definition sampleFilter :: FilterDecl where
  "sampleFilter = \<lparr>fd_Name = ''guard'', fd_Phase = ''authenticate'',
     fd_Match = \<lparr>fm_Paths = [''/api/**''], fm_Methods = [''get '']\<rparr>, fd_Order = 10,
     fd_FailClosed = True, fd_TimeoutMS = 20, fd_NeedsRequestBody = False,
     fd_NeedsResponseBody = False, fd_MaxBodyBytes = 0\<rparr>"

definition sampleManifest :: Manifest where
  "sampleManifest = \<lparr>m_Key = ''apikey'', m_DisplayName = ''API keys'', m_Version = ''1.0.0'', m_Weight = 0,
     m_Runtime = \<lparr>rt_Entrypoint = ''bin/apikey'', rt_Args = [], rt_Replicas = 2\<rparr>,
     m_Permissions = [''filter:authenticate'', ''cron''], m_Menus = [], m_Collections = [],
     m_Filters = [sampleFilter], m_Jobs = [\<lparr>jd_Name = ''sweep'', jd_Cron = ''*/5 * * * *''\<rparr>],
     m_EgressAllow = [],
     m_Config = [\<lparr>cd_Key = ''header'', cd_Label = [], cd_Description = [], cd_Type = ''string'',
        cd_Default = ''X-Key'', cd_Required = False, cd_Secret = False\<rparr>]\<rparr>"

lemma sampleManifest_valid: "Validate sampleManifest = Inr ()"
  by code_simp

theorem CompileFilters_validated_witness:
  "\<exists>cfs. CompileFilters sampleManifest = Inr cfs \<and> map cf_Decl cfs = m_Filters sampleManifest"
  using CompileFilters_validated[OF sampleManifest_valid] by blast

section \<open>Configuration defaults\<close>

definition defaultOf :: "Manifest \<Rightarrow> string \<Rightarrow> string option" where
  "defaultOf m k =
     map_option cd_Default (find (\<lambda>c. cd_Key c = k \<and> cd_Default c \<noteq> []) (m_Config m))"

lemma ConfigDefaults_fold:
  assumes "distinct (map cd_Key cs)"
  shows "map_of (fold (\<lambda>c out. if cd_Default c \<noteq> [] then AList.update (cd_Key c) (cd_Default c) out else out) cs acc) k =
     (case find (\<lambda>c. cd_Key c = k \<and> cd_Default c \<noteq> []) cs of Some c \<Rightarrow> Some (cd_Default c) | None \<Rightarrow> map_of acc k)"
  using assms
proof (induction cs arbitrary: acc)
  case (Cons c cs)
  have "find (\<lambda>c. cd_Key c = k \<and> cd_Default c \<noteq> []) cs = None" if "cd_Key c = k"
    using that Cons.prems by (auto simp: find_None_iff) (metis image_eqI)
  then show ?case using Cons by (auto simp: update_conv' split: option.splits)
qed simp

lemma ConfigDefaults_lookup:
  assumes "distinct (map cd_Key (m_Config m))"
  shows "map_of (ConfigDefaults m) k = defaultOf m k"
  using ConfigDefaults_fold[OF assms, of "[]" k]
  by (auto simp: ConfigDefaults_def defaultOf_def split: option.splits)

lemma ConfigDefaults_distinct: "distinct (map fst (ConfigDefaults m))"
proof -
  have *: "distinct (map fst acc) \<Longrightarrow> distinct (map fst (fold (\<lambda>c out. if cd_Default c \<noteq> [] then
      AList.update (cd_Key c) (cd_Default c) out else out) cs acc))" for cs acc
    by (induction cs arbitrary: acc) (auto simp: distinct_update)
  show ?thesis unfolding ConfigDefaults_def by (rule *) simp
qed

text \<open>For a validated manifest the configuration a plugin receives is the operator's map
  completed with the declared defaults: a key the operator set keeps its value, an empty
  one included; any other key has its declared non-empty default, or is absent.\<close>

theorem MergeConfig_lookup:
  assumes "Validate m = Inr ()" "distinct (map fst conf)"
  shows "map_of (MergeConfig m conf) k = (case map_of conf k of Some v \<Rightarrow> Some v | None \<Rightarrow> defaultOf m k)"
proof -
  from assms(1) have "distinct (map cd_Key (m_Config m))" by (simp add: Validate_wellFormed wellFormed_def)
  from ConfigDefaults_lookup[OF this] have D: "map_of (ConfigDefaults m) = defaultOf m" by auto
  show ?thesis
  proof (cases "ConfigDefaults m = []")
    case True
    with D have "defaultOf m = Map.empty" by auto
    with True show ?thesis by (auto simp: MergeConfig_def Let_def split: option.splits)
  next
    case False
    then show ?thesis
      by (simp add: MergeConfig_def Let_def map_of_copyInto D assms(2) map_of_rev_distinct
          ConfigDefaults_distinct map_add_def)
  qed
qed

theorem MergeConfig_lookup_witness:
  "map_of (MergeConfig sampleManifest [(''header'', [])]) ''header'' = Some [] \<and>
   map_of (MergeConfig sampleManifest [(''other'', ''x'')]) ''header'' = Some ''X-Key''"
proof -
  have "defaultOf sampleManifest ''header'' = Some ''X-Key''" by code_simp
  then show ?thesis
    using MergeConfig_lookup[OF sampleManifest_valid, of "[(''header'', [])]" "''header''"]
      MergeConfig_lookup[OF sampleManifest_valid, of "[(''other'', ''x'')]" "''header''"]
    by simp
qed

end
