(* ===== verification/Chain.thy ===== *)
theory Chain
  imports Manifest
begin

text \<open>
  The filter chain (\<^verbatim>\<open>src/core/pipeline/chain.go\<close>): the per-phase table of filters built from
  every enabled plugin's compiled declarations. \<open>chainOf\<close> describes the table in one line
  per field; \<open>BuildChain\<close> is proved to produce it, which gives independence of the order in
  which the plugins are visited.
\<close>

section \<open>Model\<close>

datatype Phase =
    PHASE_UNSPECIFIED | PHASE_PRE_ROUTE | PHASE_AUTHENTICATE | PHASE_AUTHORIZE
  | PHASE_PRE_HANDLER | PHASE_POST_HANDLER | PHASE_ON_ERROR | PHASE_LOG

definition allPhases :: "Phase list" where
  "allPhases = [PHASE_UNSPECIFIED, PHASE_PRE_ROUTE, PHASE_AUTHENTICATE, PHASE_AUTHORIZE,
     PHASE_PRE_HANDLER, PHASE_POST_HANDLER, PHASE_ON_ERROR, PHASE_LOG]"

text \<open>Durations are nanoseconds in a signed 64-bit integer.\<close>

definition millisecond :: int where "millisecond = 1000000"

record Defaults =
  df_Timeout :: int
  df_MaxBodyBytes :: int

definition DefaultDefaults :: Defaults where
  "DefaultDefaults = \<lparr>df_Timeout = 50 * millisecond, df_MaxBodyBytes = 2 ^ 20\<rparr>"

record Filter =
  fl_PluginKey :: string
  fl_Name :: string
  fl_Order :: int
  fl_Decl :: FilterDecl
  fl_match :: CompiledFilter
  fl_Timeout :: int
  fl_MaxBody :: int
  fl_AllowIdentityMutation :: bool

definition Filter_Matches :: "Filter \<Rightarrow> string \<Rightarrow> string \<Rightarrow> bool" where
  "Filter_Matches f method path = FilterMatches (fl_match f) method path"

definition Filter_Label :: "Filter \<Rightarrow> string" where
  "Filter_Label f =
     (if fl_Name f \<noteq> [] then fl_PluginKey f @ ''/'' @ fl_Name f
      else fl_PluginKey f @ ''/'' @ fd_Phase (fl_Decl f))"

record PluginFilters =
  pf_Key :: string
  pf_Filters :: "CompiledFilter list"
  pf_AllowIdentityMutation :: bool

record Chain =
  ch_phases :: "Phase \<Rightarrow> Filter list"
  ch_anyNeedsRequestBody :: bool
  ch_maxRequestBody :: int
  ch_anyNeedsResponseBody :: bool

definition EmptyChain :: Chain where
  "EmptyChain = \<lparr>ch_phases = (\<lambda>_. []), ch_anyNeedsRequestBody = False, ch_maxRequestBody = 0,
     ch_anyNeedsResponseBody = False\<rparr>"

definition phaseFromName :: "string \<Rightarrow> string + Phase" where
  "phaseFromName name =
     (if name = PhasePreRoute then Inr PHASE_PRE_ROUTE
      else if name = PhaseAuthenticate then Inr PHASE_AUTHENTICATE
      else if name = PhaseAuthorize then Inr PHASE_AUTHORIZE
      else if name = PhasePreHandler then Inr PHASE_PRE_HANDLER
      else if name = PhasePostHandler then Inr PHASE_POST_HANDLER
      else if name = PhaseOnError then Inr PHASE_ON_ERROR
      else if name = PhaseLog then Inr PHASE_LOG
      else Inl name)"

definition mkFilter :: "Defaults \<Rightarrow> PluginFilters \<Rightarrow> CompiledFilter \<Rightarrow> Filter" where
  "mkFilter defaults p cf =
     \<lparr>fl_PluginKey = pf_Key p, fl_Name = fd_Name (cf_Decl cf), fl_Order = fd_Order (cf_Decl cf),
      fl_Decl = cf_Decl cf, fl_match = cf,
      fl_Timeout = (if fd_TimeoutMS (cf_Decl cf) > 0 then wrap64 (fd_TimeoutMS (cf_Decl cf) * millisecond)
                    else df_Timeout defaults),
      fl_MaxBody = (if fd_MaxBodyBytes (cf_Decl cf) > 0 then fd_MaxBodyBytes (cf_Decl cf)
                    else df_MaxBodyBytes defaults),
      fl_AllowIdentityMutation = pf_AllowIdentityMutation p\<rparr>"

definition addFilter :: "Defaults \<Rightarrow> PluginFilters \<Rightarrow> Chain \<Rightarrow> CompiledFilter \<Rightarrow> (string \<times> string) + Chain" where
  "addFilter defaults p c cf =
     (case phaseFromName (fd_Phase (cf_Decl cf)) of
        Inl e \<Rightarrow> Inl (pf_Key p, e)
      | Inr phase \<Rightarrow>
          let f = mkFilter defaults p cf;
              c1 = (if fd_NeedsRequestBody (cf_Decl cf)
                    then c\<lparr>ch_anyNeedsRequestBody := True,
                           ch_maxRequestBody := (if fl_MaxBody f > ch_maxRequestBody c then fl_MaxBody f
                                                 else ch_maxRequestBody c)\<rparr>
                    else c);
              c2 = (if fd_NeedsResponseBody (cf_Decl cf) then c1\<lparr>ch_anyNeedsResponseBody := True\<rparr> else c1)
          in Inr (c2\<lparr>ch_phases := (ch_phases c2)(phase := ch_phases c2 phase @ [f])\<rparr>))"

definition addPlugin :: "Defaults \<Rightarrow> Chain \<Rightarrow> PluginFilters \<Rightarrow> (string \<times> string) + Chain" where
  "addPlugin defaults c p = foldRes (addFilter defaults p) c (pf_Filters p)"

definition fillDefaults :: "Defaults \<Rightarrow> Defaults" where
  "fillDefaults d =
     \<lparr>df_Timeout = (if df_Timeout d \<le> 0 then df_Timeout DefaultDefaults else df_Timeout d),
      df_MaxBodyBytes = (if df_MaxBodyBytes d \<le> 0 then df_MaxBodyBytes DefaultDefaults else df_MaxBodyBytes d)\<rparr>"

text \<open>The comparison function of the stable sort, as a key in the lexicographic order.\<close>

definition filterKey :: "Filter \<Rightarrow> int \<times> string \<times> string" where
  "filterKey f = (fl_Order f, fl_PluginKey f, fl_Name f)"

definition sortPhases :: "Chain \<Rightarrow> Chain" where
  "sortPhases c = c\<lparr>ch_phases := (\<lambda>ph. sort_key filterKey (ch_phases c ph))\<rparr>"

definition BuildChain :: "PluginFilters list \<Rightarrow> Defaults \<Rightarrow> (string \<times> string) + Chain" where
  "BuildChain plugins defaults =
     (case foldRes (addPlugin (fillDefaults defaults)) EmptyChain plugins of
        Inl e \<Rightarrow> Inl e
      | Inr c \<Rightarrow> Inr (sortPhases c))"

definition HasPhase :: "Chain \<Rightarrow> Phase \<Rightarrow> bool" where
  "HasPhase c phase = (length (ch_phases c phase) > 0)"

definition Filters :: "Chain \<Rightarrow> Phase \<Rightarrow> Filter list" where
  "Filters c phase = ch_phases c phase"

definition NeedsRequestBody :: "Chain \<Rightarrow> bool" where "NeedsRequestBody c = ch_anyNeedsRequestBody c"
definition NeedsResponseBody :: "Chain \<Rightarrow> bool" where "NeedsResponseBody c = ch_anyNeedsResponseBody c"
definition MaxRequestBodyBytes :: "Chain \<Rightarrow> int" where "MaxRequestBodyBytes c = ch_maxRequestBody c"

definition ChainLen :: "Chain \<Rightarrow> nat" where
  "ChainLen c = fold (\<lambda>ph n. n + length (ch_phases c ph)) allPhases 0"

section \<open>The table in one line per field\<close>

definition allFilters :: "Defaults \<Rightarrow> PluginFilters list \<Rightarrow> Filter list" where
  "allFilters d ps = concat (map (\<lambda>p. map (mkFilter d p) (pf_Filters p)) ps)"

definition inPhase :: "Phase \<Rightarrow> Filter \<Rightarrow> bool" where
  "inPhase ph f = (phaseFromName (fd_Phase (fl_Decl f)) = Inr ph)"

definition bodyCaps :: "Filter list \<Rightarrow> int list" where
  "bodyCaps fs = map fl_MaxBody (filter (\<lambda>f. fd_NeedsRequestBody (fl_Decl f)) fs)"

definition chainOf :: "Filter list \<Rightarrow> Chain" where
  "chainOf fs =
     \<lparr>ch_phases = (\<lambda>ph. filter (inPhase ph) fs),
      ch_anyNeedsRequestBody = list_ex (\<lambda>f. fd_NeedsRequestBody (fl_Decl f)) fs,
      ch_maxRequestBody = fold max (bodyCaps fs) 0,
      ch_anyNeedsResponseBody = list_ex (\<lambda>f. fd_NeedsResponseBody (fl_Decl f)) fs\<rparr>"

definition phaseKnown :: "Filter \<Rightarrow> bool" where
  "phaseKnown f = isOk (phaseFromName (fd_Phase (fl_Decl f)))"

lemma phaseFromName_known: "isOk (phaseFromName name) \<longleftrightarrow> name \<in> set knownPhases"
  by (auto simp: phaseFromName_def knownPhases_def isOk_def)

lemma addFilter_chainOf:
  "addFilter d p (chainOf fs) cf =
     (if phaseKnown (mkFilter d p cf) then Inr (chainOf (fs @ [mkFilter d p cf]))
      else Inl (pf_Key p, fd_Phase (cf_Decl cf)))"
proof (cases "phaseFromName (fd_Phase (cf_Decl cf))")
  case (Inl e)
  then have "e = fd_Phase (cf_Decl cf)" by (auto simp: phaseFromName_def split: if_splits)
  with Inl show ?thesis by (simp add: addFilter_def phaseKnown_def mkFilter_def isOk_def)
next
  case (Inr ph)
  have D: "fl_Decl (mkFilter d p cf) = cf_Decl cf" by (simp add: mkFilter_def)
  have "(\<lambda>q. filter (inPhase q) (fs @ [mkFilter d p cf])) =
      (\<lambda>q. filter (inPhase q) fs)(ph := filter (inPhase ph) fs @ [mkFilter d p cf])"
    using Inr by (auto simp: inPhase_def D)
  then show ?thesis
    using Inr by (auto simp: addFilter_def chainOf_def phaseKnown_def isOk_def D bodyCaps_def Let_def max_def)
qed

lemma addPlugin_chainOf:
  "addPlugin d (chainOf fs) p = Inr c \<longleftrightarrow>
     list_all phaseKnown (map (mkFilter d p) (pf_Filters p)) \<and> c = chainOf (fs @ map (mkFilter d p) (pf_Filters p))"
proof -
  have "foldRes (addFilter d p) (chainOf fs) cfs = Inr c \<longleftrightarrow>
      list_all phaseKnown (map (mkFilter d p) cfs) \<and> c = chainOf (fs @ map (mkFilter d p) cfs)" for cfs
    by (induction cfs arbitrary: fs) (auto simp: addFilter_chainOf eq_commute[of c])
  then show ?thesis by (simp add: addPlugin_def)
qed

lemma foldRes_addPlugin:
  "foldRes (addPlugin d) (chainOf fs) ps = Inr c \<longleftrightarrow>
     list_all phaseKnown (allFilters d ps) \<and> c = chainOf (fs @ allFilters d ps)"
proof (induction ps arbitrary: fs)
  case (Cons p ps)
  show ?case
  proof (cases "addPlugin d (chainOf fs) p")
    case (Inl e)
    with addPlugin_chainOf[of d fs p "chainOf (fs @ map (mkFilter d p) (pf_Filters p))"]
    show ?thesis by (auto simp: allFilters_def)
  next
    case (Inr c1)
    with addPlugin_chainOf[of d fs p c1] Cons.IH show ?thesis by (auto simp: allFilters_def)
  qed
qed (auto simp: allFilters_def)

lemma BuildChain_iff:
  "BuildChain ps d = Inr c \<longleftrightarrow>
     list_all phaseKnown (allFilters (fillDefaults d) ps) \<and> c = sortPhases (chainOf (allFilters (fillDefaults d) ps))"
proof -
  let ?r = "foldRes (addPlugin (fillDefaults d)) (chainOf []) ps"
  let ?fs = "allFilters (fillDefaults d) ps"
  have E: "EmptyChain = chainOf []" by (simp add: EmptyChain_def chainOf_def bodyCaps_def)
  have F: "?r = Inr c' \<longleftrightarrow> list_all phaseKnown ?fs \<and> c' = chainOf ?fs" for c'
    using foldRes_addPlugin[of "fillDefaults d" "[]" ps] by simp
  show ?thesis
  proof (cases "?r")
    case (Inl e)
    with F[of "chainOf ?fs"] E show ?thesis by (simp add: BuildChain_def)
  next
    case (Inr c')
    with F[of c'] E show ?thesis by (auto simp: BuildChain_def)
  qed
qed

text \<open>C21: A chain that was built holds in every phase exactly the filters declared for it by
  the plugins, sorted by order, then plugin key, then filter name; its body flags tell
  whether any filter asked for a body, and the request body cap is the largest any of the
  asking filters accepts.\<close>

theorem BuildChain_table:
  assumes "BuildChain ps d = Inr c"
  shows "mset (Filters c ph) = mset (filter (inPhase ph) (allFilters (fillDefaults d) ps)) \<and>
    sorted (map filterKey (Filters c ph)) \<and>
    (NeedsRequestBody c \<longleftrightarrow> (\<exists>f \<in> set (allFilters (fillDefaults d) ps). fd_NeedsRequestBody (fl_Decl f))) \<and>
    (NeedsResponseBody c \<longleftrightarrow> (\<exists>f \<in> set (allFilters (fillDefaults d) ps). fd_NeedsResponseBody (fl_Decl f))) \<and>
    MaxRequestBodyBytes c = Max (set (0 # bodyCaps (allFilters (fillDefaults d) ps)))"
proof -
  let ?fs = "allFilters (fillDefaults d) ps"
  from assms have c: "c = sortPhases (chainOf ?fs)" by (simp add: BuildChain_iff)
  have "fold max (bodyCaps ?fs) 0 = Max (set (0 # bodyCaps ?fs))" by (rule Max.set_eq_fold [symmetric])
  then show ?thesis
    by (simp add: c sortPhases_def chainOf_def Filters_def NeedsRequestBody_def NeedsResponseBody_def
        MaxRequestBodyBytes_def list_ex_iff)
qed

text \<open>Two lists with the same elements sort to the same list when, for each key, the elements
  with that key stand in the same order.\<close>

lemma sort_key_eqI:
  assumes "mset xs = mset ys" "\<And>k. filter (\<lambda>x. f x = k) xs = filter (\<lambda>x. f x = k) ys"
  shows "sort_key f xs = sort_key f ys"
proof (rule properties_for_sort_key)
  show "mset (sort_key f ys) = mset xs" using assms(1) by simp
  fix k assume "k \<in> set (sort_key f ys)"
  have e: "(\<lambda>x. f k = f x) = (\<lambda>x. f x = f k)" by auto
  show "filter (\<lambda>x. f k = f x) (sort_key f ys) = filter (\<lambda>x. f k = f x) xs"
    unfolding e using assms(2)[of "f k"] by (simp add: sort_key_stable)
qed simp

text \<open>The filters with one plugin key come from one plugin.\<close>

lemma allFilters_of_key:
  assumes "distinct (map pf_Key ps)"
  shows "filter (\<lambda>f. fl_PluginKey f = k) (allFilters d ps) =
     (case find (\<lambda>p. pf_Key p = k) ps of None \<Rightarrow> [] | Some p \<Rightarrow> map (mkFilter d p) (pf_Filters p))"
  using assms
proof (induction ps)
  case (Cons p ps)
  have here: "filter (\<lambda>f. fl_PluginKey f = k) (map (mkFilter d p) (pf_Filters p)) =
      (if pf_Key p = k then map (mkFilter d p) (pf_Filters p) else [])"
    by (simp add: filter_map comp_def mkFilter_def)
  have none: "find (\<lambda>p. pf_Key p = k) ps = None" if "pf_Key p = k"
    using that Cons.prems by (auto simp: find_None_iff image_iff)
  show ?case
  proof (cases "pf_Key p = k")
    case True
    with here none Cons show ?thesis by (simp add: allFilters_def)
  next
    case False
    with here Cons show ?thesis by (simp add: allFilters_def)
  qed
qed (simp add: allFilters_def)

lemma find_key_iff:
  assumes "distinct (map pf_Key ps)"
  shows "find (\<lambda>p. pf_Key p = k) ps = Some p \<longleftrightarrow> p \<in> set ps \<and> pf_Key p = k"
  using assms by (induction ps) (auto simp: image_iff)

lemma find_perm:
  assumes "distinct (map pf_Key ps)" "mset ps = mset qs"
  shows "find (\<lambda>p. pf_Key p = k) ps = find (\<lambda>p. pf_Key p = k) qs"
proof -
  have dq: "distinct (map pf_Key qs)" using assms by (metis mset_eq_imp_distinct_iff mset_map)
  have S: "set ps = set qs" using assms(2) by (rule mset_eq_setD)
  have "find (\<lambda>p. pf_Key p = k) ps = Some p \<longleftrightarrow> find (\<lambda>p. pf_Key p = k) qs = Some p" for p
    unfolding find_key_iff[OF assms(1)] find_key_iff[OF dq] S by (rule refl)
  then show ?thesis by (metis option.exhaust)
qed

lemma list_all_mset: "mset xs = mset ys \<Longrightarrow> list_all P xs = list_all P ys"
  by (metis list_all_iff mset_eq_setD)

lemma chain_perm:
  assumes "distinct (map pf_Key ps)" "mset ps = mset qs"
  shows "sortPhases (chainOf (allFilters d ps)) = sortPhases (chainOf (allFilters d qs))"
    and "mset (allFilters d ps) = mset (allFilters d qs)"
proof -
  have dq: "distinct (map pf_Key qs)" using assms by (metis mset_eq_imp_distinct_iff mset_map)
  show m: "mset (allFilters d ps) = mset (allFilters d qs)"
  proof -
    have "sum_list (map h ps) = sum_list (map h qs)" for h :: "PluginFilters \<Rightarrow> Filter multiset"
      by (simp add: sum_mset_sum_list [symmetric] assms(2))
    then show ?thesis by (simp add: allFilters_def mset_concat comp_def)
  qed
  then have S: "set (allFilters d ps) = set (allFilters d qs)" by (rule mset_eq_setD)
  have K: "filter (\<lambda>f. fl_PluginKey f = k) (allFilters d ps) = filter (\<lambda>f. fl_PluginKey f = k) (allFilters d qs)" for k
    unfolding allFilters_of_key[OF assms(1)] allFilters_of_key[OF dq] find_perm[OF assms, of k] by (rule refl)
  have "filter (\<lambda>x. filterKey x = k) (filter P (allFilters d ps)) =
      filter (\<lambda>x. filterKey x = k) (filter P (allFilters d qs))" for k P
  proof -
    have split: "filter (\<lambda>x. filterKey x = k) (filter P fs) =
        filter (\<lambda>x. filterKey x = k \<and> P x) (filter (\<lambda>f. fl_PluginKey f = fst (snd k)) fs)" for fs
      by (auto simp: filterKey_def intro!: filter_cong)
    show ?thesis unfolding split K by (rule refl)
  qed
  then have "sort_key filterKey (filter (inPhase ph) (allFilters d ps)) =
      sort_key filterKey (filter (inPhase ph) (allFilters d qs))" for ph
    using m by (intro sort_key_eqI) (auto simp: mset_filter)
  moreover have "fold max (bodyCaps (allFilters d ps)) 0 = fold max (bodyCaps (allFilters d qs)) (0::int)"
    unfolding Max.set_eq_fold [symmetric] bodyCaps_def using S by simp
  ultimately show "sortPhases (chainOf (allFilters d ps)) = sortPhases (chainOf (allFilters d qs))"
    using S by (simp add: sortPhases_def chainOf_def list_ex_iff)
qed

text \<open>The chain does not depend on the order in which the plugins are visited, which in
  the registry is the iteration order of a map: any permutation of the same plugins gives
  the very same chain.\<close>

theorem BuildChain_perm:
  assumes "distinct (map pf_Key ps)" "mset ps = mset qs" "BuildChain ps d = Inr c"
  shows "BuildChain qs d = Inr c"
  using assms chain_perm[OF assms(1,2), of "fillDefaults d"] list_all_mset
  by (metis BuildChain_iff)

definition sampleCompiled :: CompiledFilter where
  "sampleCompiled = \<lparr>cf_Decl = sampleFilter, cf_Paths = \<lparr>ps_patterns = [], ps_matchAll = True\<rparr>, cf_methods = None\<rparr>"

definition samplePlugins :: "PluginFilters list" where
  "samplePlugins = [\<lparr>pf_Key = ''b'', pf_Filters = [sampleCompiled], pf_AllowIdentityMutation = True\<rparr>,
     \<lparr>pf_Key = ''a'', pf_Filters = [sampleCompiled], pf_AllowIdentityMutation = False\<rparr>]"

lemma samplePlugins_build:
  "BuildChain samplePlugins DefaultDefaults = Inr (sortPhases (chainOf (allFilters (fillDefaults DefaultDefaults) samplePlugins)))"
  by (simp add: BuildChain_iff phaseKnown_def samplePlugins_def sampleCompiled_def sampleFilter_def allFilters_def
      mkFilter_def phaseFromName_known knownPhases_def PhaseAuthenticate_def)

theorem BuildChain_table_witness:
  "\<exists>c. BuildChain samplePlugins DefaultDefaults = Inr c \<and> sorted (map filterKey (Filters c PHASE_AUTHENTICATE))"
  using BuildChain_table[OF samplePlugins_build] samplePlugins_build by blast

theorem BuildChain_perm_witness:
  "BuildChain (rev samplePlugins) DefaultDefaults = BuildChain samplePlugins DefaultDefaults"
proof -
  have "distinct (map pf_Key samplePlugins)" "mset samplePlugins = mset (rev samplePlugins)"
    by (simp_all add: samplePlugins_def)
  from BuildChain_perm[OF this samplePlugins_build] samplePlugins_build show ?thesis by simp
qed

text \<open>Plugins whose manifests passed \<^verbatim>\<open>Validate\<close> can always be chained: for any set of
  validated manifests with their compiled filters, building the chain succeeds, so the
  registry's error branch for an unknown phase is unreachable.\<close>

theorem BuildChain_validated:
  assumes "list_all (\<lambda>(m, cfs). Validate m = Inr () \<and> CompileFilters m = Inr cfs) ms"
  shows "\<exists>c. BuildChain (map (\<lambda>(m, cfs). \<lparr>pf_Key = m_Key m, pf_Filters = cfs,
            pf_AllowIdentityMutation = HasPermission m PermFilterAuthenticate\<rparr>) ms) d = Inr c"
proof -
  have "phaseKnown f" if "f \<in> set (allFilters (fillDefaults d) (map (\<lambda>(m, cfs). \<lparr>pf_Key = m_Key m, pf_Filters = cfs,
            pf_AllowIdentityMutation = HasPermission m PermFilterAuthenticate\<rparr>) ms))" for f
  proof -
    from that obtain m cfs cf where m: "(m, cfs) \<in> set ms" "cf \<in> set cfs" "fl_Decl f = cf_Decl cf"
      by (auto simp: allFilters_def mkFilter_def)
    with assms have ok: "wellFormed m" "CompileFilters m = Inr cfs"
      by (auto simp: list_all_iff Validate_wellFormed)
    have "cf_Decl cf \<in> set (m_Filters m)"
      using mapRes_mem[OF ok(2)[unfolded CompileFilters_def] m(2)]
      by (auto simp: compileFilter_def in_set_enumerate_eq split: sum.splits)
    with ok(1) m(3) show ?thesis
      by (auto simp: wellFormed_def list_all_iff filterOk_def phaseKnown_def phaseFromName_known)
  qed
  then show ?thesis by (auto simp: BuildChain_iff list_all_iff)
qed

theorem BuildChain_validated_witness:
  "\<exists>cfs c. CompileFilters sampleManifest = Inr cfs \<and>
     BuildChain [\<lparr>pf_Key = m_Key sampleManifest, pf_Filters = cfs,
       pf_AllowIdentityMutation = HasPermission sampleManifest PermFilterAuthenticate\<rparr>] DefaultDefaults = Inr c"
proof -
  have cfs: "CompileFilters sampleManifest = Inr (projr (CompileFilters sampleManifest))" by code_simp
  show ?thesis
    using BuildChain_validated[of "[(sampleManifest, projr (CompileFilters sampleManifest))]" DefaultDefaults]
      sampleManifest_valid cfs by auto
qed

end
