(* ===== verification/Pipeline.thy ===== *)
theory Pipeline
  imports Chain
begin

text \<open>
  The request pipeline (\<^verbatim>\<open>src/core/pipeline/headers.go\<close>, \<^verbatim>\<open>context.go\<close>, \<^verbatim>\<open>runner.go\<close>): header
  conversion, the state a request carries, mutations, admissions and the runner that calls
  the filters of a phase. A plugin instance and the resolver are seen through the Go
  interfaces \<^verbatim>\<open>Target\<close> and \<^verbatim>\<open>Resolver\<close>; here they are the record \<open>TargetOps\<close> of operations on a
  state \<open>'w\<close>, and the locale \<open>target_ops\<close> states the accounting law an implementation owes.
  A map is a list of pairs in the order an iteration visits it; the nil map is the empty list.
\<close>

section \<open>Headers\<close>

type_synonym headers = "(string, string list) gomap"

definition validHeaderByte :: "char \<Rightarrow> bool" where
  "validHeaderByte c = (isDigit c \<or> isLetter c \<or> c \<in> set ''!#$%&*+-.^_`|~'' \<or> c = CHR 0x27)"

fun canonLoop :: "bool \<Rightarrow> string \<Rightarrow> string" where
  "canonLoop upper [] = []"
| "canonLoop upper (c # cs) =
     (let c' = (if upper then upperByte c else lowerByte c) in c' # canonLoop (c' = CHR ''-'') cs)"

text \<open>\<^verbatim>\<open>http.CanonicalHeaderKey\<close> of the standard library.\<close>

definition CanonicalHeaderKey :: "string \<Rightarrow> string" where
  "CanonicalHeaderKey s = (if list_all validHeaderByte s then canonLoop True s else s)"

definition ToProtoHeaders :: "headers \<Rightarrow> headers" where
  "ToProtoHeaders h = (if length h = 0 then [] else map (\<lambda>(k, vs). (k, vs)) h)"

definition setCanonical :: "headers \<Rightarrow> headers \<Rightarrow> headers" where
  "setCanonical inp out = fold (\<lambda>(k, vs) h. AList.update (CanonicalHeaderKey k) vs h) inp out"

definition FromProtoHeaders :: "headers \<Rightarrow> headers" where
  "FromProtoHeaders inp = (if length inp = 0 then [] else setCanonical inp [])"

definition delHeader :: "string \<Rightarrow> headers \<Rightarrow> headers" where
  "delHeader k h = AList.delete (CanonicalHeaderKey k) h"

definition applyHeaderMutation :: "headers \<Rightarrow> headers \<Rightarrow> string list \<Rightarrow> headers" where
  "applyHeaderMutation h sets remove = setCanonical sets (fold delHeader remove h)"

section \<open>Wire messages\<close>

record Identity =
  id_UserId :: string
  id_Username :: string
  id_Roles :: "string list"

record HttpResponse =
  hr_StatusCode :: int
  hr_Headers :: headers
  hr_Body :: bytes

record RequestMutation =
  mu_SetRequestHeaders :: headers
  mu_RemoveRequestHeaders :: "string list"
  mu_SetResponseHeaders :: headers
  mu_RemoveResponseHeaders :: "string list"
  mu_RewritePath :: string
  mu_SetIdentity :: "Identity option"
  mu_SetContext :: "(string, string) gomap"

datatype action = ACTION_CONTINUE | ACTION_SHORT_CIRCUIT | ACTION_MUTATE | ACTION_OTHER int

record FilterResponse =
  fr_Action :: action
  fr_ShortCircuitResponse :: "HttpResponse option"
  fr_Mutation :: "RequestMutation option"

record FilterRequest =
  fq_TraceId :: string
  fq_Phase :: Phase
  fq_Method :: string
  fq_Path :: string
  fq_Query :: string
  fq_Headers :: headers
  fq_ClientIp :: string
  fq_Identity :: "Identity option"
  fq_Body :: bytes
  fq_UpstreamStatus :: int
  fq_UpstreamHeaders :: headers
  fq_UpstreamBody :: bytes
  fq_Context :: "(string, string) gomap"
  fq_ElapsedMicros :: int
  fq_FilterName :: string

section \<open>The request's state\<close>

record 'r RequestContext =
  rc_TraceID :: string
  rc_Method :: string
  rc_Path :: string
  rc_Query :: string
  rc_ClientIP :: string
  rc_Header :: headers
  rc_Identity :: "Identity option"
  rc_Values :: "(string, string) gomap"
  rc_RequestBody :: bytes
  rc_ResponseStatus :: int
  rc_ResponseHeader :: headers
  rc_ResponseBody :: bytes
  rc_startedAt :: int
  rc_protoHeaders :: headers
  rc_admissions :: "(string \<times> 'r) list"

definition Admit :: "'r RequestContext \<Rightarrow> string \<Rightarrow> ('w \<Rightarrow> 'r option \<times> 'w) \<Rightarrow> 'w \<Rightarrow> bool \<times> 'r RequestContext \<times> 'w" where
  "Admit rc pluginKey beginFn w =
     (if map_of (rc_admissions rc) pluginKey \<noteq> None then (True, rc, w)
      else (case beginFn w of
              (None, w') \<Rightarrow> (False, rc, w')
            | (Some release, w') \<Rightarrow>
                (True, rc\<lparr>rc_admissions := rc_admissions rc @ [(pluginKey, release)]\<rparr>, w')))"

definition ForAsync :: "'r RequestContext \<Rightarrow> 'r RequestContext" where
  "ForAsync rc =
     \<lparr>rc_TraceID = rc_TraceID rc, rc_Method = rc_Method rc, rc_Path = rc_Path rc, rc_Query = rc_Query rc,
      rc_ClientIP = rc_ClientIP rc, rc_Header = rc_Header rc, rc_Identity = rc_Identity rc,
      rc_Values = rc_Values rc, rc_RequestBody = rc_RequestBody rc, rc_ResponseStatus = rc_ResponseStatus rc,
      rc_ResponseHeader = rc_ResponseHeader rc, rc_ResponseBody = rc_ResponseBody rc,
      rc_startedAt = rc_startedAt rc, rc_protoHeaders = [], rc_admissions = []\<rparr>"

definition ReleaseAdmissions :: "('r \<Rightarrow> 'w \<Rightarrow> 'w) \<Rightarrow> 'r RequestContext \<Rightarrow> 'w \<Rightarrow> 'r RequestContext \<times> 'w" where
  "ReleaseAdmissions release rc w =
     (rc\<lparr>rc_admissions := []\<rparr>, fold (\<lambda>(key, r) w. release r w) (rc_admissions rc) w)"

text \<open>The incoming request as \<open>NewRequestContext\<close> reads it, and the clock.\<close>

definition NewRequestContext :: "string \<Rightarrow> string \<Rightarrow> string \<Rightarrow> string \<Rightarrow> headers \<Rightarrow> string \<Rightarrow> int \<Rightarrow> 'r RequestContext" where
  "NewRequestContext traceID method path rawQuery hdr clientIP now =
     \<lparr>rc_TraceID = traceID, rc_Method = method, rc_Path = path, rc_Query = rawQuery, rc_ClientIP = clientIP,
      rc_Header = hdr, rc_Identity = None, rc_Values = [], rc_RequestBody = [], rc_ResponseStatus = 0,
      rc_ResponseHeader = [], rc_ResponseBody = [], rc_startedAt = now, rc_protoHeaders = [], rc_admissions = []\<rparr>"

definition Elapsed :: "'r RequestContext \<Rightarrow> int \<Rightarrow> int" where
  "Elapsed rc now = now - rc_startedAt rc"

definition SetValue :: "string \<Rightarrow> string \<Rightarrow> 'r RequestContext \<Rightarrow> 'r RequestContext" where
  "SetValue k v rc = rc\<lparr>rc_Values := AList.update k v (rc_Values rc)\<rparr>"

definition wireHeaders :: "'r RequestContext \<Rightarrow> 'r RequestContext \<times> headers" where
  "wireHeaders rc =
     (let rc' = (if rc_protoHeaders rc = [] then rc\<lparr>rc_protoHeaders := ToProtoHeaders (rc_Header rc)\<rparr> else rc)
      in (rc', rc_protoHeaders rc'))"

definition isResponsePhase :: "Phase \<Rightarrow> bool" where
  "isResponsePhase phase =
     (case phase of PHASE_POST_HANDLER \<Rightarrow> True | PHASE_ON_ERROR \<Rightarrow> True | PHASE_LOG \<Rightarrow> True | _ \<Rightarrow> False)"

definition buildFilterRequest :: "Phase \<Rightarrow> Filter \<Rightarrow> int \<Rightarrow> 'r RequestContext \<Rightarrow> FilterRequest \<times> 'r RequestContext" where
  "buildFilterRequest phase f now rc0 =
     (case wireHeaders rc0 of (rc, hdrs) \<Rightarrow>
        (\<lparr>fq_TraceId = rc_TraceID rc, fq_Phase = phase, fq_Method = rc_Method rc, fq_Path = rc_Path rc,
          fq_Query = rc_Query rc, fq_Headers = hdrs, fq_ClientIp = rc_ClientIP rc, fq_Identity = rc_Identity rc,
          fq_Body = (if fd_NeedsRequestBody (fl_Decl f) then rc_RequestBody rc else []),
          fq_UpstreamStatus = (if isResponsePhase phase then wrap32 (rc_ResponseStatus rc) else 0),
          fq_UpstreamHeaders = (if isResponsePhase phase then ToProtoHeaders (rc_ResponseHeader rc) else []),
          fq_UpstreamBody = (if isResponsePhase phase \<and> fd_NeedsResponseBody (fl_Decl f) then rc_ResponseBody rc else []),
          fq_Context = rc_Values rc, fq_ElapsedMicros = Elapsed rc now div 1000,
          fq_FilterName = fd_Name (fl_Decl f)\<rparr>, rc))"

definition identityMutationAllowed :: "Phase \<Rightarrow> bool" where
  "identityMutationAllowed phase =
     (case phase of PHASE_AUTHENTICATE \<Rightarrow> True | PHASE_AUTHORIZE \<Rightarrow> True | _ \<Rightarrow> False)"

definition applyMutation :: "RequestMutation option \<Rightarrow> Phase \<Rightarrow> bool \<Rightarrow> 'r RequestContext \<Rightarrow> 'r RequestContext" where
  "applyMutation mo phase allowIdentity rc =
     (case mo of
        None \<Rightarrow> rc
      | Some m \<Rightarrow>
          let rc1 = rc\<lparr>rc_Header := applyHeaderMutation (rc_Header rc) (mu_SetRequestHeaders m) (mu_RemoveRequestHeaders m),
                       rc_protoHeaders := []\<rparr>;
              rc2 = (if isResponsePhase phase
                     then rc1\<lparr>rc_ResponseHeader := applyHeaderMutation (rc_ResponseHeader rc1)
                                (mu_SetResponseHeaders m) (mu_RemoveResponseHeaders m)\<rparr>
                     else rc1);
              rc3 = (if mu_RewritePath m \<noteq> [] \<and> \<not> isResponsePhase phase
                     then rc2\<lparr>rc_Path := mu_RewritePath m\<rparr> else rc2);
              rc4 = (if mu_SetIdentity m \<noteq> None \<and> allowIdentity
                     then rc3\<lparr>rc_Identity := mu_SetIdentity m\<rparr> else rc3)
          in fold (\<lambda>(k, v) r. SetValue k v r) (mu_SetContext m) rc4)"

section \<open>The runner\<close>

record ('t, 'r, 'w) TargetOps =
  op_Target :: "string \<Rightarrow> 'w \<Rightarrow> 't option \<times> 'w"
  op_Filter :: "'t \<Rightarrow> int \<Rightarrow> FilterRequest \<Rightarrow> 'w \<Rightarrow> (string + FilterResponse) \<times> 'w"
  op_Allow :: "'t \<Rightarrow> 'w \<Rightarrow> bool \<times> 'w"
  op_RecordSuccess :: "'t \<Rightarrow> 'w \<Rightarrow> 'w"
  op_RecordFailure :: "'t \<Rightarrow> 'w \<Rightarrow> 'w"
  op_Begin :: "'t \<Rightarrow> 'w \<Rightarrow> 'r option \<times> 'w"
  op_Release :: "'r \<Rightarrow> 'w \<Rightarrow> 'w"
  op_Now :: "'w \<Rightarrow> int"

datatype filter_err =
    BodyTooLarge nat int | NotRunning | Draining | CallFailed string
  | ShortCircuitNoResponse | IdentityNotAllowed

text \<open>What the runner threads through a phase: the request, the host, and the errors
  handed to \<^verbatim>\<open>OnFilterError\<close> so far.\<close>

record ('r, 'w) RunState =
  rs_rc :: "'r RequestContext"
  rs_world :: 'w
  rs_reports :: "(Filter \<times> filter_err) list"

definition report :: "Filter \<Rightarrow> filter_err \<Rightarrow> ('r, 'w) RunState \<Rightarrow> ('r, 'w) RunState" where
  "report f err st = st\<lparr>rs_reports := rs_reports st @ [(f, err)]\<rparr>"

definition StatusRequestEntityTooLarge :: int where "StatusRequestEntityTooLarge = 413"
definition StatusServiceUnavailable :: int where "StatusServiceUnavailable = 503"

definition failure :: "Filter \<Rightarrow> int \<Rightarrow> string \<Rightarrow> HttpResponse option" where
  "failure f status message =
     (if \<not> fd_FailClosed (fl_Decl f) then None
      else Some \<lparr>hr_StatusCode = wrap32 status,
                 hr_Headers = [(''Content-Type'', [''text/plain; charset=utf-8''])], hr_Body = message\<rparr>)"

text \<open>The decision carried by an answer: stop with a response, or go on.\<close>

definition applyDecision :: "Phase \<Rightarrow> Filter \<Rightarrow> FilterResponse \<Rightarrow> ('r, 'w) RunState \<Rightarrow> HttpResponse option \<times> ('r, 'w) RunState" where
  "applyDecision phase f resp st =
     (case fr_Action resp of
        ACTION_SHORT_CIRCUIT \<Rightarrow>
          (case fr_ShortCircuitResponse resp of
             None \<Rightarrow> (None, report f ShortCircuitNoResponse st)
           | Some sc \<Rightarrow> (Some sc, st))
      | ACTION_MUTATE \<Rightarrow>
          (let allowIdentity = (fl_AllowIdentityMutation f \<and> identityMutationAllowed phase);
               wants = (case fr_Mutation resp of None \<Rightarrow> False | Some m \<Rightarrow> mu_SetIdentity m \<noteq> None);
               st1 = (if wants \<and> \<not> allowIdentity then report f IdentityNotAllowed st else st)
           in (None, st1\<lparr>rs_rc := applyMutation (fr_Mutation resp) phase allowIdentity (rs_rc st1)\<rparr>))
      | _ \<Rightarrow> (None, st))"

definition runOne :: "('t, 'r, 'w) TargetOps \<Rightarrow> Phase \<Rightarrow> Filter \<Rightarrow> ('r, 'w) RunState \<Rightarrow> HttpResponse option \<times> ('r, 'w) RunState" where
  "runOne ops phase f st =
     (if fd_NeedsRequestBody (fl_Decl f) \<and> fl_MaxBody f < int (length (rc_RequestBody (rs_rc st))) then
        (failure f StatusRequestEntityTooLarge (''request body too large for filter '' @ Filter_Label f),
         report f (BodyTooLarge (length (rc_RequestBody (rs_rc st))) (fl_MaxBody f)) st)
      else (case op_Target ops (fl_PluginKey f) (rs_world st) of
        (None, w1) \<Rightarrow>
          (failure f StatusServiceUnavailable (''plugin '' @ fl_PluginKey f @ '' is unavailable''),
           report f NotRunning (st\<lparr>rs_world := w1\<rparr>))
      | (Some target, w1) \<Rightarrow>
         (case op_Allow ops target w1 of
           (False, w2) \<Rightarrow>
             (failure f StatusServiceUnavailable (''plugin '' @ fl_PluginKey f @ '' is unhealthy''),
              st\<lparr>rs_world := w2\<rparr>)
         | (True, w2) \<Rightarrow>
            (case Admit (rs_rc st) (fl_PluginKey f) (op_Begin ops target) w2 of
              (False, rc1, w3) \<Rightarrow>
                (failure f StatusServiceUnavailable (''plugin '' @ fl_PluginKey f @ '' is draining''),
                 report f Draining (st\<lparr>rs_rc := rc1, rs_world := w3\<rparr>))
            | (True, rc1, w3) \<Rightarrow>
               (case buildFilterRequest phase f (op_Now ops w3) rc1 of (req, rc2) \<Rightarrow>
               (case op_Filter ops target (fl_Timeout f) req w3 of
                 (Inl err, w4) \<Rightarrow>
                   (failure f StatusServiceUnavailable (''filter '' @ Filter_Label f @ '' failed''),
                    report f (CallFailed err) (st\<lparr>rs_rc := rc2, rs_world := op_RecordFailure ops target w4\<rparr>))
               | (Inr resp, w4) \<Rightarrow>
                   applyDecision phase f resp
                     (st\<lparr>rs_rc := rc2, rs_world := op_RecordSuccess ops target w4\<rparr>)))))))"

fun runFilters :: "('t, 'r, 'w) TargetOps \<Rightarrow> Phase \<Rightarrow> Filter list \<Rightarrow> ('r, 'w) RunState \<Rightarrow> HttpResponse option \<times> ('r, 'w) RunState" where
  "runFilters ops phase [] st = (None, st)"
| "runFilters ops phase (f # fs) st =
     (if \<not> Filter_Matches f (rc_Method (rs_rc st)) (rc_Path (rs_rc st)) then runFilters ops phase fs st
      else (case runOne ops phase f st of
              (Some resp, st') \<Rightarrow> (Some resp, st')
            | (None, st') \<Rightarrow> runFilters ops phase fs st'))"

definition Run :: "('t, 'r, 'w) TargetOps \<Rightarrow> Chain option \<Rightarrow> Phase \<Rightarrow> ('r, 'w) RunState \<Rightarrow> HttpResponse option \<times> ('r, 'w) RunState" where
  "Run ops chain phase st =
     (case chain of
        None \<Rightarrow> (None, st)
      | Some c \<Rightarrow> if \<not> HasPhase c phase then (None, st) else runFilters ops phase (Filters c phase) st)"

text \<open>The body of the goroutine \<^verbatim>\<open>RunAsync\<close> starts: the phase, then the deferred release.\<close>

definition RunAsync :: "('t, 'r, 'w) TargetOps \<Rightarrow> Chain option \<Rightarrow> Phase \<Rightarrow> ('r, 'w) RunState \<Rightarrow> ('r, 'w) RunState" where
  "RunAsync ops chain phase st =
     (case chain of
        None \<Rightarrow> st
      | Some c \<Rightarrow>
          if \<not> HasPhase c phase then st
          else (case Run ops chain phase st of (_, st1) \<Rightarrow>
                (case ReleaseAdmissions (op_Release ops) (rs_rc st1) (rs_world st1) of (rc, w) \<Rightarrow>
                   st1\<lparr>rs_rc := rc, rs_world := w\<rparr>)))"

section \<open>Header laws\<close>

lemma map_of_setCanonical:
  "map_of (setCanonical inp out) = map_of out ++ map_of (rev (map (\<lambda>(k, vs). (CanonicalHeaderKey k, vs)) inp))"
proof -
  have "setCanonical inp out = copyInto out (map (\<lambda>(k, vs). (CanonicalHeaderKey k, vs)) inp)"
    unfolding setCanonical_def copyInto_def by (induction inp arbitrary: out) auto
  then show ?thesis by (simp add: map_of_copyInto)
qed



text \<open>Removals run before additions, so a header listed in both is replaced.\<close>

lemma applyHeaderMutation_lookup:
  assumes "distinct (map (\<lambda>(k, vs). CanonicalHeaderKey k) sets)"
  shows "map_of (applyHeaderMutation h sets remove) k =
     (case map_of (map (\<lambda>(k, vs). (CanonicalHeaderKey k, vs)) sets) k of
        Some vs \<Rightarrow> Some vs
      | None \<Rightarrow> if k \<in> CanonicalHeaderKey ` set remove then None else map_of h k)"
proof -
  have del: "map_of (fold delHeader remove h) k = (if k \<in> CanonicalHeaderKey ` set remove then None else map_of h k)"
    by (induction remove arbitrary: h) (auto simp: delHeader_def delete_conv')
  have "distinct (map fst (map (\<lambda>(k, vs). (CanonicalHeaderKey k, vs)) sets))"
    using assms by (simp add: comp_def case_prod_unfold)
  then show ?thesis
    by (simp add: applyHeaderMutation_def map_of_setCanonical map_of_rev_distinct map_add_def del split: option.splits)
qed

section \<open>What a phase may change\<close>

lemma fold_SetValue:
  "fold (\<lambda>(k, v) r. SetValue k v r) kvs rc = rc\<lparr>rc_Values := copyInto (rc_Values rc) kvs\<rparr>"
  unfolding copyInto_def by (induction kvs arbitrary: rc) (auto simp: SetValue_def)

text \<open>The frame of one mutation: what it leaves alone, and under which condition it touches
  the identity, the path and the response headers.\<close>

definition samePart :: "'r RequestContext \<Rightarrow> 'r RequestContext \<Rightarrow> bool" where
  "samePart rc rc' \<longleftrightarrow> rc_TraceID rc' = rc_TraceID rc \<and> rc_Method rc' = rc_Method rc \<and>
     rc_Query rc' = rc_Query rc \<and> rc_ClientIP rc' = rc_ClientIP rc \<and> rc_RequestBody rc' = rc_RequestBody rc \<and>
     rc_ResponseStatus rc' = rc_ResponseStatus rc \<and> rc_ResponseBody rc' = rc_ResponseBody rc \<and>
     rc_startedAt rc' = rc_startedAt rc"

definition phaseFrame :: "Phase \<Rightarrow> bool \<Rightarrow> 'r RequestContext \<Rightarrow> 'r RequestContext \<Rightarrow> bool" where
  "phaseFrame phase mayIdentify rc rc' \<longleftrightarrow> samePart rc rc' \<and>
     (rc_Identity rc' = rc_Identity rc \<or> (mayIdentify \<and> identityMutationAllowed phase)) \<and>
     (rc_Path rc' = rc_Path rc \<or> \<not> isResponsePhase phase) \<and>
     (rc_ResponseHeader rc' = rc_ResponseHeader rc \<or> isResponsePhase phase)"

lemma phaseFrame_refl [simp]: "phaseFrame ph b rc rc"
  by (simp add: phaseFrame_def samePart_def)

lemma phaseFrame_trans: "phaseFrame ph b rc rc' \<Longrightarrow> phaseFrame ph b rc' rc'' \<Longrightarrow> phaseFrame ph b rc rc''"
  by (auto simp: phaseFrame_def samePart_def)

lemma phaseFrame_mono: "phaseFrame ph b rc rc' \<Longrightarrow> (b \<Longrightarrow> b') \<Longrightarrow> phaseFrame ph b' rc rc'"
  by (auto simp: phaseFrame_def)

definition coherent :: "'r RequestContext \<Rightarrow> bool" where
  "coherent rc \<longleftrightarrow> rc_protoHeaders rc = [] \<or> rc_protoHeaders rc = ToProtoHeaders (rc_Header rc)"

lemma ToProtoHeaders_id [simp]: "ToProtoHeaders h = h"
  by (simp add: ToProtoHeaders_def)

lemma applyMutation_frame:
  "(allow \<Longrightarrow> b \<and> identityMutationAllowed ph) \<Longrightarrow> phaseFrame ph b rc (applyMutation mo ph allow rc)"
  by (auto simp: applyMutation_def phaseFrame_def samePart_def fold_SetValue Let_def split: option.splits)

lemma applyMutation_admissions [simp]:
  "rc_admissions (applyMutation mo ph b rc) = rc_admissions rc"
  by (auto simp: applyMutation_def fold_SetValue Let_def split: option.splits)

lemma applyMutation_coherent: "coherent rc \<Longrightarrow> coherent (applyMutation mo ph b rc)"
  by (auto simp: applyMutation_def coherent_def fold_SetValue Let_def split: option.splits)

lemma wireHeaders_facts:
  "phaseFrame ph b rc (fst (wireHeaders rc))" "rc_admissions (fst (wireHeaders rc)) = rc_admissions rc"
  "coherent rc \<Longrightarrow> coherent (fst (wireHeaders rc))" "coherent rc \<Longrightarrow> snd (wireHeaders rc) = rc_Header rc"
  by (auto simp: wireHeaders_def phaseFrame_def samePart_def coherent_def Let_def)

lemma buildFilterRequest_snd: "snd (buildFilterRequest ph f now rc) = fst (wireHeaders rc)"
  by (simp add: buildFilterRequest_def split: prod.splits)

lemma Admit_facts:
  assumes "Admit rc key bg w = (ok, rc', w')"
  shows "phaseFrame ph b rc rc'" "coherent rc' \<longleftrightarrow> coherent rc"
  using assms by (auto simp: Admit_def phaseFrame_def samePart_def coherent_def split: if_splits prod.splits option.splits)

lemma applyDecision_facts:
  assumes "applyDecision ph f resp st = (res, st')"
  shows "phaseFrame ph (fl_AllowIdentityMutation f) (rs_rc st) (rs_rc st')" "rs_world st' = rs_world st"
    and "rc_admissions (rs_rc st') = rc_admissions (rs_rc st)" "coherent (rs_rc st) \<Longrightarrow> coherent (rs_rc st')"
proof -
  show "phaseFrame ph (fl_AllowIdentityMutation f) (rs_rc st) (rs_rc st')"
    using assms
    by (auto simp: applyDecision_def report_def Let_def intro: applyMutation_frame
        split: action.splits option.splits if_splits)
  show "rs_world st' = rs_world st" "rc_admissions (rs_rc st') = rc_admissions (rs_rc st)"
    "coherent (rs_rc st) \<Longrightarrow> coherent (rs_rc st')"
    using assms applyMutation_coherent
    by (auto simp: applyDecision_def report_def Let_def split: action.splits option.splits if_splits)
qed

text \<open>The stages of \<open>runOne\<close>: it stops before the call with a failure, or the call is made
  under an admission and its result decides.\<close>

definition called :: "('t, 'r, 'w) TargetOps \<Rightarrow> Phase \<Rightarrow> Filter \<Rightarrow> ('r, 'w) RunState \<Rightarrow> (string + FilterResponse) \<Rightarrow> bool" where
  "called ops phase f st answer \<longleftrightarrow>
     (\<exists>target w1 w2 w3 w4 rc1.
        op_Target ops (fl_PluginKey f) (rs_world st) = (Some target, w1) \<and>
        op_Allow ops target w1 = (True, w2) \<and>
        Admit (rs_rc st) (fl_PluginKey f) (op_Begin ops target) w2 = (True, rc1, w3) \<and>
        op_Filter ops target (fl_Timeout f) (fst (buildFilterRequest phase f (op_Now ops w3) rc1)) w3 = (answer, w4))"

lemma runOne_result:
  assumes "runOne ops ph f st = (res, st')"
  obtains (failed) status msg where "res = failure f status msg" "status = 413 \<or> status = 503"
  | (answered) resp st1 where "called ops ph f st (Inr resp)" "applyDecision ph f resp st1 = (res, st')"
  using assms
  by (auto simp: runOne_def called_def StatusRequestEntityTooLarge_def StatusServiceUnavailable_def
      split: if_splits prod.splits option.splits bool.splits sum.splits)

lemma runOne_frame:
  assumes "runOne ops ph f st = (res, st')"
  shows "phaseFrame ph (fl_AllowIdentityMutation f) (rs_rc st) (rs_rc st')"
    and "coherent (rs_rc st) \<Longrightarrow> coherent (rs_rc st')"
proof -
  let ?b = "fl_AllowIdentityMutation f"
  have "phaseFrame ph ?b (rs_rc st) (rs_rc st') \<and> (coherent (rs_rc st) \<longrightarrow> coherent (rs_rc st'))"
  proof (cases "rs_rc st' = rs_rc st")
    case False
    then obtain target w2 w3 ok rc1 where ad: "Admit (rs_rc st) (fl_PluginKey f) (op_Begin ops target) w2 = (ok, rc1, w3)"
      and st': "rs_rc st' = rc1 \<or> (\<exists>now st1 resp.
         rs_rc st1 = snd (buildFilterRequest ph f now rc1) \<and>
         (rs_rc st' = rs_rc st1 \<or> applyDecision ph f resp st1 = (res, st')))"
      using assms
      by (auto simp: runOne_def report_def split: if_splits prod.splits option.splits bool.splits sum.splits)
        (metis RunState.select_convs(1) RunState.surjective RunState.update_convs(1) RunState.update_convs(2) snd_conv)+
    note A = Admit_facts(1)[OF ad, of ph ?b] Admit_facts(2)[OF ad]
    from st' show ?thesis
    proof
      assume "rs_rc st' = rc1"
      with A show ?thesis by simp
    next
      assume "\<exists>now st1 resp. rs_rc st1 = snd (buildFilterRequest ph f now rc1) \<and>
         (rs_rc st' = rs_rc st1 \<or> applyDecision ph f resp st1 = (res, st'))"
      then obtain st1 resp where w: "rs_rc st1 = fst (wireHeaders rc1)"
        "rs_rc st' = rs_rc st1 \<or> applyDecision ph f resp st1 = (res, st')"
        by (auto simp: buildFilterRequest_snd)
      have B: "phaseFrame ph ?b (rs_rc st) (rs_rc st1)" "coherent (rs_rc st) \<Longrightarrow> coherent (rs_rc st1)"
        using A wireHeaders_facts(1)[of ph ?b rc1] wireHeaders_facts(3)[of rc1] w(1) by (auto intro: phaseFrame_trans)
      with w(2) applyDecision_facts[of ph f resp st1 res st'] show ?thesis
        by (auto intro: phaseFrame_trans)
    qed
  qed simp
  then show "phaseFrame ph ?b (rs_rc st) (rs_rc st')" "coherent (rs_rc st) \<Longrightarrow> coherent (rs_rc st')" by auto
qed

lemma runFilters_frame:
  assumes "runFilters ops ph fs st = (res, st')"
  shows "phaseFrame ph (\<exists>f \<in> set fs. fl_AllowIdentityMutation f) (rs_rc st) (rs_rc st')"
    and "coherent (rs_rc st) \<Longrightarrow> coherent (rs_rc st')"
proof -
  have "phaseFrame ph (\<exists>f \<in> set fs. fl_AllowIdentityMutation f) (rs_rc st) (rs_rc st') \<and>
      (coherent (rs_rc st) \<longrightarrow> coherent (rs_rc st'))"
    using assms
  proof (induction fs arbitrary: st)
    case (Cons f fs)
    let ?B = "\<exists>g \<in> set (f # fs). fl_AllowIdentityMutation g"
    show ?case
    proof (cases "Filter_Matches f (rc_Method (rs_rc st)) (rc_Path (rs_rc st))")
      case False
      with Cons show ?thesis by (auto intro: phaseFrame_mono)
    next
      case True
      obtain r st1 where one: "runOne ops ph f st = (r, st1)" by (cases "runOne ops ph f st")
      have 1: "phaseFrame ph ?B (rs_rc st) (rs_rc st1)" "coherent (rs_rc st) \<Longrightarrow> coherent (rs_rc st1)"
        using runOne_frame[OF one] by (auto intro: phaseFrame_mono)
      show ?thesis
      proof (cases r)
        case (Some resp)
        with one True Cons.prems have "st' = st1" by simp
        with 1 show ?thesis by simp
      next
        case None
        with one True Cons.prems have "runFilters ops ph fs st1 = (res, st')" by simp
        from Cons.IH[OF this] have "phaseFrame ph ?B (rs_rc st1) (rs_rc st')"
          "coherent (rs_rc st1) \<Longrightarrow> coherent (rs_rc st')"
          by (auto intro: phaseFrame_mono)
        with 1 show ?thesis by (auto intro: phaseFrame_trans)
      qed
    qed
  qed simp
  then show "phaseFrame ph (\<exists>f \<in> set fs. fl_AllowIdentityMutation f) (rs_rc st) (rs_rc st')"
    "coherent (rs_rc st) \<Longrightarrow> coherent (rs_rc st')" by auto
qed

lemma Run_runFilters: "Run ops (Some c) ph st = runFilters ops ph (Filters c ph) st"
  by (auto simp: Run_def HasPhase_def Filters_def)

text \<open>C20: Running a phase, whatever the plugins answer, never changes the method, the query, the
  trace id, the client address, the request body, the response status or the response body.
  The identity changes only in the authenticate and authorize phases and only if a filter
  of that phase holds the permission; the path changes only before the handler has run,
  and the response headers only after.\<close>

theorem Run_frame:
  assumes "Run ops (Some c) ph st = (res, st')"
  shows "samePart (rs_rc st) (rs_rc st') \<and>
    (rc_Identity (rs_rc st') = rc_Identity (rs_rc st) \<or>
       ((ph = PHASE_AUTHENTICATE \<or> ph = PHASE_AUTHORIZE) \<and> (\<exists>f \<in> set (Filters c ph). fl_AllowIdentityMutation f))) \<and>
    (rc_Path (rs_rc st') = rc_Path (rs_rc st) \<or> \<not> isResponsePhase ph) \<and>
    (rc_ResponseHeader (rs_rc st') = rc_ResponseHeader (rs_rc st) \<or> isResponsePhase ph)"
  using runFilters_frame(1)[OF assms[unfolded Run_runFilters]]
  by (auto simp: phaseFrame_def identityMutationAllowed_def split: Phase.splits)

text \<open>The cached wire form of the headers is never stale: after any filters of a request
  have run, the next filter is sent exactly the current request headers.\<close>

theorem wire_headers_current:
  assumes "rc_protoHeaders (rs_rc st) = []" "runFilters ops ph fs st = (res, st')"
  shows "fq_Headers (fst (buildFilterRequest ph' f now (rs_rc st'))) = rc_Header (rs_rc st')"
proof -
  have "coherent (rs_rc st)" using assms(1) by (simp add: coherent_def)
  with runFilters_frame(2)[OF assms(2)] have "coherent (rs_rc st')" by blast
  from wireHeaders_facts(4)[OF this] show ?thesis
    by (auto simp: buildFilterRequest_def split: prod.splits)
qed

section \<open>Failing open and failing closed\<close>

text \<open>The answer lets the request go on: it does not stop it with a response.\<close>

definition letsPass :: "FilterResponse \<Rightarrow> bool" where
  "letsPass resp = (fr_Action resp \<noteq> ACTION_SHORT_CIRCUIT \<or> fr_ShortCircuitResponse resp = None)"

lemma applyDecision_res:
  assumes "applyDecision ph f resp st = (res, st')"
  shows "res = (if letsPass resp then None else fr_ShortCircuitResponse resp)"
  using assms by (auto simp: applyDecision_def letsPass_def Let_def split: action.splits option.splits)

lemma runFilters_split:
  assumes "runFilters ops ph (pre @ f # post) st = (None, st')"
  shows "\<exists>st1. runFilters ops ph pre st = (None, st1) \<and>
    (Filter_Matches f (rc_Method (rs_rc st1)) (rc_Path (rs_rc st1)) \<longrightarrow> (\<exists>st2. runOne ops ph f st1 = (None, st2)))"
  using assms
proof (induction pre arbitrary: st)
  case Nil
  then show ?case by (auto split: if_splits prod.splits option.splits)
next
  case (Cons g pre)
  then show ?case by (auto split: if_splits prod.splits option.splits)
qed

text \<open>C2: A fail-closed filter cannot be passed by default. If a phase lets a request through,
  then every fail-closed filter of the phase that matched the request when its turn came
  was really called, under an admission and with its breaker closed, and the plugin itself
  answered without stopping the request. No outage, timeout, drain, open breaker or
  oversized body lets the request by.\<close>

theorem fail_closed_answered:
  assumes "Run ops (Some c) ph st = (None, st')" "Filters c ph = pre @ f # post" "fd_FailClosed (fl_Decl f)"
  shows "\<exists>st1. runFilters ops ph pre st = (None, st1) \<and>
    (Filter_Matches f (rc_Method (rs_rc st1)) (rc_Path (rs_rc st1)) \<longrightarrow>
       (\<exists>resp. called ops ph f st1 (Inr resp) \<and> letsPass resp))"
proof -
  from assms(1,2) have "runFilters ops ph (pre @ f # post) st = (None, st')" by (simp add: Run_runFilters)
  from runFilters_split[OF this] obtain st1 where pre: "runFilters ops ph pre st = (None, st1)"
    and one: "Filter_Matches f (rc_Method (rs_rc st1)) (rc_Path (rs_rc st1)) \<longrightarrow> (\<exists>st2. runOne ops ph f st1 = (None, st2))"
    by blast
  have "\<exists>resp. called ops ph f st1 (Inr resp) \<and> letsPass resp" if "runOne ops ph f st1 = (None, st2)" for st2
    using that
  proof (cases rule: runOne_result)
    case (failed status msg)
    with assms(3) show ?thesis by (simp add: failure_def)
  next
    case (answered resp st3)
    with applyDecision_res[OF answered(2)] have "letsPass resp" by (auto simp: letsPass_def split: if_splits)
    with answered(1) show ?thesis by blast
  qed
  with pre one show ?thesis by blast
qed

text \<open>A filter stops a request in two ways only: the plugin answered with a response of its
  own, or the filter is fail-closed and the response is 413 or 503. A fail-open filter that
  cannot be asked never stops a request.\<close>

theorem stop_reason:
  assumes "runOne ops ph f st = (Some resp, st')"
  shows "(\<exists>answer. called ops ph f st (Inr answer) \<and> fr_Action answer = ACTION_SHORT_CIRCUIT \<and>
            fr_ShortCircuitResponse answer = Some resp) \<or>
         (fd_FailClosed (fl_Decl f) \<and> (hr_StatusCode resp = 413 \<or> hr_StatusCode resp = 503))"
  using assms
proof (cases rule: runOne_result)
  case (failed status msg)
  then show ?thesis by (auto simp: failure_def wrap32_def split: if_splits)
next
  case (answered answer st1)
  from applyDecision_res[OF answered(2)] answered(1) show ?thesis
    by (auto simp: letsPass_def split: if_splits)
qed

section \<open>Admissions\<close>

text \<open>
  The law of the interface: \<open>held w r\<close> counts the reservations outstanding on \<open>r\<close>. Only
  \<^verbatim>\<open>Begin\<close> adds one and only the release it returned takes one away.
\<close>

locale target_ops =
  fixes ops :: "('t, 'r, 'w) TargetOps"
    and held :: "'w \<Rightarrow> 'r \<Rightarrow> int"
  assumes begin_held: "op_Begin ops t w = (Some r, w') \<Longrightarrow> held w' = (held w)(r := held w r + 1)"
    and begin_refused: "op_Begin ops t w = (None, w') \<Longrightarrow> held w' = held w"
    and release_held: "held (op_Release ops r w) = (held w)(r := held w r - 1)"
    and target_held: "op_Target ops k w = (x, w') \<Longrightarrow> held w' = held w"
    and allow_held: "op_Allow ops t w = (ok, w') \<Longrightarrow> held w' = held w"
    and filter_held: "op_Filter ops t d q w = (a, w') \<Longrightarrow> held w' = held w"
    and success_held: "held (op_RecordSuccess ops t w) = held w"
    and failure_held: "held (op_RecordFailure ops t w) = held w"
begin

definition admHeld :: "'r RequestContext \<Rightarrow> 'r \<Rightarrow> int" where
  "admHeld rc r = int (count (mset (map snd (rc_admissions rc))) r)"

definition balanced :: "('r, 'w) RunState \<Rightarrow> ('r, 'w) RunState \<Rightarrow> bool" where
  "balanced st st' \<longleftrightarrow>
     (\<exists>new. rc_admissions (rs_rc st') = rc_admissions (rs_rc st) @ new) \<and>
     (distinct (map fst (rc_admissions (rs_rc st))) \<longrightarrow> distinct (map fst (rc_admissions (rs_rc st')))) \<and>
     (\<forall>r. held (rs_world st') r + admHeld (rs_rc st) r = held (rs_world st) r + admHeld (rs_rc st') r)"

lemma balanced_refl [simp]: "balanced st st"
  by (auto simp: balanced_def)

lemma balanced_trans:
  assumes "balanced st st1" "balanced st1 st2"
  shows "balanced st st2"
proof -
  have "held (rs_world st2) r + admHeld (rs_rc st) r = held (rs_world st) r + admHeld (rs_rc st2) r" for r
  proof -
    have "held (rs_world st1) r + admHeld (rs_rc st) r = held (rs_world st) r + admHeld (rs_rc st1) r"
      "held (rs_world st2) r + admHeld (rs_rc st1) r = held (rs_world st1) r + admHeld (rs_rc st2) r"
      using assms by (simp_all add: balanced_def)
    then show ?thesis by linarith
  qed
  with assms show ?thesis by (auto simp: balanced_def)
qed

lemma balanced_world:
  assumes "rc_admissions (rs_rc st') = rc_admissions (rs_rc st)" "held (rs_world st') = held (rs_world st)"
  shows "balanced st st'"
  using assms by (simp add: balanced_def admHeld_def)

lemma Admit_balanced:
  assumes "Admit rc key (op_Begin ops t) w = (ok, rc', w')"
    "rs_rc st = rc" "rs_rc st' = rc'" "held (rs_world st) = held w" "held (rs_world st') = held w'"
  shows "balanced st st'"
proof (cases "map_of (rc_admissions rc) key")
  case (Some r)
  with assms show ?thesis by (auto simp: Admit_def intro: balanced_world)
next
  case None
  obtain x w1 where b: "op_Begin ops t w = (x, w1)" by (cases "op_Begin ops t w")
  show ?thesis
  proof (cases x)
    case None
    with b assms \<open>map_of (rc_admissions rc) key = None\<close> begin_refused show ?thesis
      by (auto simp: Admit_def intro!: balanced_world)
  next
    case (Some r)
    have "held w1 = (held w)(r := held w r + 1)" using b Some begin_held by blast
    moreover have "key \<notin> fst ` set (rc_admissions rc)" using \<open>map_of (rc_admissions rc) key = None\<close>
      by (simp add: map_of_eq_None_iff)
    moreover have "rc' = rc\<lparr>rc_admissions := rc_admissions rc @ [(key, r)]\<rparr>" "w' = w1"
      using b Some assms(1) \<open>map_of (rc_admissions rc) key = None\<close> by (auto simp: Admit_def)
    ultimately show ?thesis using assms(2-5) by (auto simp: balanced_def admHeld_def)
  qed
qed

lemma runOne_balanced:
  assumes "runOne ops ph f st = (res, st')"
  shows "balanced st st'"
proof (cases "fd_NeedsRequestBody (fl_Decl f) \<and> fl_MaxBody f < int (length (rc_RequestBody (rs_rc st)))")
  case True
  with assms show ?thesis by (auto simp: runOne_def report_def intro!: balanced_world)
next
  case small: False
  obtain x w1 where t: "op_Target ops (fl_PluginKey f) (rs_world st) = (x, w1)"
    by (cases "op_Target ops (fl_PluginKey f) (rs_world st)")
  have h1: "held w1 = held (rs_world st)" using t by (rule target_held)
  show ?thesis
  proof (cases x)
    case None
    with assms small t h1 show ?thesis by (auto simp: runOne_def report_def intro!: balanced_world)
  next
    case (Some target)
    obtain ok w2 where al: "op_Allow ops target w1 = (ok, w2)" by (cases "op_Allow ops target w1")
    have h2: "held w2 = held (rs_world st)" using al h1 allow_held by metis
    show ?thesis
    proof (cases ok)
      case False
      with assms small t Some al h2 show ?thesis by (auto simp: runOne_def intro!: balanced_world)
    next
      case ok: True
      obtain adm rc1 w3 where ad: "Admit (rs_rc st) (fl_PluginKey f) (op_Begin ops target) w2 = (adm, rc1, w3)"
        by (cases "Admit (rs_rc st) (fl_PluginKey f) (op_Begin ops target) w2") auto
      define st1 where "st1 = st\<lparr>rs_rc := rc1, rs_world := w3\<rparr>"
      have b1: "balanced st st1" by (rule Admit_balanced[OF ad]) (simp_all add: st1_def h2)
      show ?thesis
      proof (cases adm)
        case False
        with assms small t Some al ok ad b1 show ?thesis
          by (auto simp: runOne_def report_def st1_def intro: balanced_trans[OF _ balanced_world])
      next
        case True
        obtain req rc2 where bf: "buildFilterRequest ph f (op_Now ops w3) rc1 = (req, rc2)"
          by (cases "buildFilterRequest ph f (op_Now ops w3) rc1")
        have rc2: "rc_admissions rc2 = rc_admissions rc1"
          using buildFilterRequest_snd[of ph f "op_Now ops w3" rc1] wireHeaders_facts(2)[of rc1] bf by simp
        obtain a w4 where fi: "op_Filter ops target (fl_Timeout f) req w3 = (a, w4)"
          by (cases "op_Filter ops target (fl_Timeout f) req w3")
        have h4: "held w4 = held w3" using fi by (rule filter_held)
        have "balanced st1 st'"
        proof (cases a)
          case (Inl err)
          with assms small t Some al ok ad True bf fi rc2 h4 show ?thesis
            by (auto simp: runOne_def report_def st1_def failure_held intro!: balanced_world)
        next
          case (Inr resp)
          with assms small t Some al ok ad True bf fi
          have "applyDecision ph f resp (st\<lparr>rs_rc := rc2, rs_world := op_RecordSuccess ops target w4\<rparr>) = (res, st')"
            by (simp add: runOne_def)
          from applyDecision_facts(2,3)[OF this] rc2 h4 show ?thesis
            by (intro balanced_world) (simp_all add: st1_def success_held)
        qed
        with b1 show ?thesis by (rule balanced_trans)
      qed
    qed
  qed
qed

lemma runFilters_balanced:
  assumes "runFilters ops ph fs st = (res, st')"
  shows "balanced st st'"
  using assms
proof (induction fs arbitrary: st)
  case (Cons f fs)
  show ?case
  proof (cases "Filter_Matches f (rc_Method (rs_rc st)) (rc_Path (rs_rc st))")
    case True
    obtain r st1 where one: "runOne ops ph f st = (r, st1)" by (cases "runOne ops ph f st")
    with True Cons.prems Cons.IH[of st1] runOne_balanced[OF one] show ?thesis
      by (cases r) (auto intro: balanced_trans)
  qed (use Cons in auto)
qed simp

lemma release_all:
  "held (fold (\<lambda>(key, r) w. op_Release ops r w) adm w) r = held w r - int (count (mset (map snd adm)) r)"
proof (induction adm arbitrary: w)
  case (Cons a adm)
  obtain k x where a: "a = (k, x)" by (cases a)
  show ?case using Cons.IH[of "op_Release ops x w"] by (auto simp: a release_held)
qed simp

text \<open>A phase and the release that follows it leave every reservation count as it was.\<close>

lemma run_and_release:
  assumes "Run ops (Some c) ph st = (res, st1)" "rc_admissions (rs_rc st) = []"
    "ReleaseAdmissions (op_Release ops) (rs_rc st1) (rs_world st1) = (rc2, w2)"
  shows "held w2 = held (rs_world st) \<and> rc_admissions rc2 = [] \<and> distinct (map fst (rc_admissions (rs_rc st1)))"
proof -
  have bal: "balanced st st1" using assms(1) runFilters_balanced by (simp add: Run_runFilters)
  then have eq: "held (rs_world st1) r = held (rs_world st) r + int (count (mset (map snd (rc_admissions (rs_rc st1)))) r)" for r
    using assms(2) by (simp add: balanced_def admHeld_def)
  have w2: "w2 = fold (\<lambda>(key, r) w. op_Release ops r w) (rc_admissions (rs_rc st1)) (rs_world st1)"
    and rc2: "rc_admissions rc2 = []"
    using assms(3) by (auto simp: ReleaseAdmissions_def)
  have "held w2 r = held (rs_world st) r" for r
    unfolding w2 using release_all[of "rc_admissions (rs_rc st1)" "rs_world st1"] eq by simp
  with rc2 bal assms(2) show ?thesis by (auto simp: balanced_def)
qed

end

section \<open>Sample host\<close>

text \<open>A host with one healthy plugin that answers every filter call with the given answer, and
  counts reservations.\<close>

definition sampleOps :: "(string + FilterResponse) \<Rightarrow> (unit, unit, nat) TargetOps" where
  "sampleOps a =
     \<lparr>op_Target = (\<lambda>k w. (Some (), w)), op_Filter = (\<lambda>t d q w. (a, w)), op_Allow = (\<lambda>t w. (True, w)),
      op_RecordSuccess = (\<lambda>t w. w), op_RecordFailure = (\<lambda>t w. w), op_Begin = (\<lambda>t w. (Some (), w + 1)),
      op_Release = (\<lambda>r w. w - 1), op_Now = (\<lambda>w. 0)\<rparr>"

definition answerContinue :: FilterResponse where
  "answerContinue = \<lparr>fr_Action = ACTION_CONTINUE, fr_ShortCircuitResponse = None, fr_Mutation = None\<rparr>"

definition answerStop :: FilterResponse where
  "answerStop = \<lparr>fr_Action = ACTION_SHORT_CIRCUIT,
     fr_ShortCircuitResponse = Some \<lparr>hr_StatusCode = 401, hr_Headers = [], hr_Body = ''no key''\<rparr>,
     fr_Mutation = None\<rparr>"

definition guardFilter :: Filter where
  "guardFilter = mkFilter DefaultDefaults (hd samplePlugins) sampleCompiled"

definition guardChain :: Chain where
  "guardChain = EmptyChain\<lparr>ch_phases := (\<lambda>ph. if ph = PHASE_AUTHENTICATE then [guardFilter] else [])\<rparr>"

definition sampleState :: "(unit, nat) RunState" where
  "sampleState = \<lparr>rs_rc = NewRequestContext ''t'' ''GET'' ''/api/x'' [] [(''Accept'', [''*''])] ''1.2.3.4'' 0,
     rs_world = 0, rs_reports = []\<rparr>"

lemmas sample_defs = sampleOps_def answerContinue_def answerStop_def guardFilter_def guardChain_def sampleState_def
  NewRequestContext_def EmptyChain_def samplePlugins_def sampleCompiled_def sampleFilter_def mkFilter_def
  DefaultDefaults_def Run_runFilters Filters_def runOne_def Filter_Matches_def FilterMatches_def MatchesMethod_def
  SetMatch_def Admit_def buildFilterRequest_def wireHeaders_def applyDecision_def

lemma guard_pass: "Run (sampleOps (Inr answerContinue)) (Some guardChain) PHASE_AUTHENTICATE sampleState =
    (None, snd (Run (sampleOps (Inr answerContinue)) (Some guardChain) PHASE_AUTHENTICATE sampleState))"
  by (simp add: sample_defs)

theorem Run_frame_witness:
  "\<exists>st'. Run (sampleOps (Inr answerContinue)) (Some guardChain) PHASE_AUTHENTICATE sampleState = (None, st') \<and>
     samePart (rs_rc sampleState) (rs_rc st')"
  using Run_frame[OF guard_pass] guard_pass by blast

theorem wire_headers_current_witness:
  "fq_Headers (fst (buildFilterRequest PHASE_AUTHORIZE guardFilter 0
     (rs_rc (snd (runFilters (sampleOps (Inr answerContinue)) PHASE_AUTHENTICATE [guardFilter] sampleState))))) =
   [(''Accept'', [''*''])]"
proof -
  let ?r = "runFilters (sampleOps (Inr answerContinue)) PHASE_AUTHENTICATE [guardFilter] sampleState"
  have r: "?r = (None, snd ?r)" by (simp add: sample_defs)
  have "rc_protoHeaders (rs_rc sampleState) = []" by (simp add: sampleState_def NewRequestContext_def)
  moreover have "rc_Header (rs_rc (snd ?r)) = [(''Accept'', [''*''])]" by (simp add: sample_defs)
  ultimately show ?thesis using wire_headers_current[OF _ r] by simp
qed

theorem fail_closed_answered_witness:
  "\<exists>resp. called (sampleOps (Inr answerContinue)) PHASE_AUTHENTICATE guardFilter sampleState (Inr resp) \<and> letsPass resp"
proof -
  have "Filters guardChain PHASE_AUTHENTICATE = [] @ guardFilter # []" by (simp add: guardChain_def Filters_def)
  moreover have "fd_FailClosed (fl_Decl guardFilter)" by (simp add: sample_defs)
  moreover have "Filter_Matches guardFilter (rc_Method (rs_rc sampleState)) (rc_Path (rs_rc sampleState))"
    by (simp add: sample_defs)
  ultimately show ?thesis using fail_closed_answered[OF guard_pass, of "[]" guardFilter "[]"] by simp
qed

theorem stop_reason_witness:
  "\<exists>resp st'. runOne (sampleOps (Inr answerStop)) PHASE_AUTHENTICATE guardFilter sampleState = (Some resp, st') \<and>
     ((\<exists>answer. called (sampleOps (Inr answerStop)) PHASE_AUTHENTICATE guardFilter sampleState (Inr answer) \<and>
         fr_ShortCircuitResponse answer = Some resp) \<or>
      (hr_StatusCode resp = 413 \<or> hr_StatusCode resp = 503))"
proof -
  let ?r = "runOne (sampleOps (Inr answerStop)) PHASE_AUTHENTICATE guardFilter sampleState"
  have r: "?r = (Some \<lparr>hr_StatusCode = 401, hr_Headers = [], hr_Body = ''no key''\<rparr>, snd ?r)"
    by (simp add: sample_defs)
  from stop_reason[OF r] r show ?thesis by blast
qed

end
