(* ===== verification/Breaker.thy ===== *)
theory Breaker
  imports Prelude
begin

text \<open>
  The circuit breaker of a plugin instance (\<^verbatim>\<open>src/core/pluginhost/breaker.go\<close>): four atomic
  fields and the operations on them, each taken as one step, with the clock as an argument
  in nanoseconds. \<open>BreakerSpec\<close> is the state machine the documentation describes, closed or
  tripped; the fields are proved to implement it.
\<close>

section \<open>Model\<close>

definition second :: int where "second = 1000000000"

record BreakerConfig =
  bc_FailureThreshold :: int
  bc_OpenDuration :: int
  bc_HalfOpenSuccesses :: int

definition DefaultBreakerConfig :: BreakerConfig where
  "DefaultBreakerConfig = \<lparr>bc_FailureThreshold = 5, bc_OpenDuration = 5 * second, bc_HalfOpenSuccesses = 2\<rparr>"

record Breaker =
  br_cfg :: BreakerConfig
  br_consecutiveFailures :: int
  br_openUntilNanos :: int
  br_halfOpenSuccesses :: int
  br_probing :: bool

definition NewBreaker :: "BreakerConfig \<Rightarrow> Breaker" where
  "NewBreaker cfg =
     \<lparr>br_cfg = \<lparr>bc_FailureThreshold = (if bc_FailureThreshold cfg \<le> 0 then 5 else bc_FailureThreshold cfg),
                bc_OpenDuration = (if bc_OpenDuration cfg \<le> 0 then 5 * second else bc_OpenDuration cfg),
                bc_HalfOpenSuccesses = (if bc_HalfOpenSuccesses cfg \<le> 0 then 2 else bc_HalfOpenSuccesses cfg)\<rparr>,
      br_consecutiveFailures = 0, br_openUntilNanos = 0, br_halfOpenSuccesses = 0, br_probing = False\<rparr>"

definition Allow :: "int \<Rightarrow> Breaker \<Rightarrow> bool \<times> Breaker" where
  "Allow now b =
     (if br_openUntilNanos b = 0 then (True, b)
      else if now < br_openUntilNanos b then (False, b)
      else if br_probing b then (False, b)
      else (True, b\<lparr>br_probing := True\<rparr>))"

definition Open :: "int \<Rightarrow> Breaker \<Rightarrow> bool" where
  "Open now b = (br_openUntilNanos b \<noteq> 0 \<and> now < br_openUntilNanos b)"

definition RecordSuccess :: "Breaker \<Rightarrow> Breaker" where
  "RecordSuccess b0 =
     (let b = b0\<lparr>br_consecutiveFailures := 0\<rparr>
      in if br_openUntilNanos b = 0 then b
         else let n = wrap32 (br_halfOpenSuccesses b + 1);
                  b1 = (if n \<ge> bc_HalfOpenSuccesses (br_cfg b)
                        then b\<lparr>br_openUntilNanos := 0, br_halfOpenSuccesses := 0\<rparr>
                        else b\<lparr>br_halfOpenSuccesses := n\<rparr>)
              in b1\<lparr>br_probing := False\<rparr>)"

definition RecordFailure :: "int \<Rightarrow> Breaker \<Rightarrow> Breaker" where
  "RecordFailure now b0 =
     (let b = b0\<lparr>br_halfOpenSuccesses := 0\<rparr>
      in if br_openUntilNanos b \<noteq> 0
         then b\<lparr>br_openUntilNanos := now + bc_OpenDuration (br_cfg b), br_probing := False\<rparr>
         else let n = wrap32 (br_consecutiveFailures b + 1)
              in if n \<ge> bc_FailureThreshold (br_cfg b)
                 then b\<lparr>br_openUntilNanos := now + bc_OpenDuration (br_cfg b), br_consecutiveFailures := 0\<rparr>
                 else b\<lparr>br_consecutiveFailures := n\<rparr>)"

definition Reset :: "Breaker \<Rightarrow> Breaker" where
  "Reset b = b\<lparr>br_consecutiveFailures := 0, br_openUntilNanos := 0, br_halfOpenSuccesses := 0, br_probing := False\<rparr>"

datatype bevent = EvAllow int | EvSuccess | EvFailure int | EvReset

definition breakerStep :: "bevent \<Rightarrow> Breaker \<Rightarrow> bool \<times> Breaker" where
  "breakerStep ev b =
     (case ev of
        EvAllow now \<Rightarrow> Allow now b
      | EvSuccess \<Rightarrow> (True, RecordSuccess b)
      | EvFailure now \<Rightarrow> (True, RecordFailure now b)
      | EvReset \<Rightarrow> (True, Reset b))"

section \<open>The documented state machine\<close>

text \<open>\<open>Closed k\<close>: in service after \<open>k\<close> failures in a row. \<open>Tripped until good out\<close>: rejecting
  until the given time, then probing; \<open>good\<close> probes succeeded, \<open>out\<close> tells whether one is out.\<close>

datatype BreakerSpec = Closed nat | Tripped int nat bool

fun specStep :: "BreakerConfig \<Rightarrow> bevent \<Rightarrow> BreakerSpec \<Rightarrow> bool \<times> BreakerSpec" where
  "specStep cfg (EvAllow now) (Closed k) = (True, Closed k)"
| "specStep cfg (EvAllow now) (Tripped until good out) =
     (if now < until \<or> out then (False, Tripped until good out) else (True, Tripped until good True))"
| "specStep cfg EvSuccess (Closed k) = (True, Closed 0)"
| "specStep cfg EvSuccess (Tripped until good out) =
     (True, if int good + 1 = bc_HalfOpenSuccesses cfg then Closed 0 else Tripped until (good + 1) False)"
| "specStep cfg (EvFailure now) (Closed k) =
     (True, if int k + 1 = bc_FailureThreshold cfg then Tripped (now + bc_OpenDuration cfg) 0 False else Closed (k + 1))"
| "specStep cfg (EvFailure now) (Tripped until good out) = (True, Tripped (now + bc_OpenDuration cfg) 0 False)"
| "specStep cfg EvReset s = (True, Closed 0)"

definition absBreaker :: "Breaker \<Rightarrow> BreakerSpec" where
  "absBreaker b =
     (if br_openUntilNanos b = 0 then Closed (nat (br_consecutiveFailures b))
      else Tripped (br_openUntilNanos b) (nat (br_halfOpenSuccesses b)) (br_probing b))"

definition breakerInv :: "Breaker \<Rightarrow> bool" where
  "breakerInv b \<longleftrightarrow>
     0 < bc_FailureThreshold (br_cfg b) \<and> bc_FailureThreshold (br_cfg b) < 2 ^ 31 \<and>
     0 < bc_HalfOpenSuccesses (br_cfg b) \<and> bc_HalfOpenSuccesses (br_cfg b) < 2 ^ 31 \<and>
     0 < bc_OpenDuration (br_cfg b) \<and>
     0 \<le> br_consecutiveFailures b \<and> br_consecutiveFailures b < bc_FailureThreshold (br_cfg b) \<and>
     0 \<le> br_halfOpenSuccesses b \<and> br_halfOpenSuccesses b < bc_HalfOpenSuccesses (br_cfg b) \<and>
     (br_openUntilNanos b = 0 \<longrightarrow> br_halfOpenSuccesses b = 0 \<and> \<not> br_probing b) \<and>
     (br_openUntilNanos b \<noteq> 0 \<longrightarrow> br_consecutiveFailures b = 0)"

fun clockOk :: "bevent \<Rightarrow> bool" where
  "clockOk (EvFailure now) = (0 < now)"
| "clockOk ev = True"

lemma NewBreaker_inv:
  "bc_FailureThreshold cfg < 2 ^ 31 \<Longrightarrow> bc_HalfOpenSuccesses cfg < 2 ^ 31 \<Longrightarrow> breakerInv (NewBreaker cfg)"
  by (simp add: breakerInv_def NewBreaker_def second_def)

lemma wrap32_id: "- (2 ^ 31) \<le> x \<Longrightarrow> x < 2 ^ 31 \<Longrightarrow> wrap32 x = x"
  by (simp add: wrap32_def)

lemma breaker_refines:
  assumes "breakerInv b" "clockOk ev"
  shows "fst (breakerStep ev b) = fst (specStep (br_cfg b) ev (absBreaker b)) \<and>
    absBreaker (snd (breakerStep ev b)) = snd (specStep (br_cfg b) ev (absBreaker b)) \<and>
    breakerInv (snd (breakerStep ev b)) \<and> br_cfg (snd (breakerStep ev b)) = br_cfg b"
proof (cases ev)
  case (EvAllow now)
  with assms show ?thesis
    by (auto simp: breakerStep_def Allow_def absBreaker_def breakerInv_def)
next
  case EvSuccess
  have "wrap32 (br_halfOpenSuccesses b + 1) = br_halfOpenSuccesses b + 1"
    using assms by (intro wrap32_id) (auto simp: breakerInv_def)
  with EvSuccess assms show ?thesis
    by (auto simp: breakerStep_def RecordSuccess_def absBreaker_def breakerInv_def Let_def nat_add_distrib)
next
  case (EvFailure now)
  have "wrap32 (br_consecutiveFailures b + 1) = br_consecutiveFailures b + 1"
    using assms by (intro wrap32_id) (auto simp: breakerInv_def)
  with EvFailure assms show ?thesis
    by (auto simp: breakerStep_def RecordFailure_def absBreaker_def breakerInv_def Let_def nat_add_distrib)
next
  case EvReset
  with assms show ?thesis by (auto simp: breakerStep_def Reset_def absBreaker_def breakerInv_def)
qed



section \<open>Traces\<close>

fun runBreaker :: "bevent list \<Rightarrow> Breaker \<Rightarrow> bool list \<times> Breaker" where
  "runBreaker [] b = ([], b)"
| "runBreaker (ev # evs) b =
     (case breakerStep ev b of (r, b1) \<Rightarrow> (case runBreaker evs b1 of (rs, b2) \<Rightarrow> (r # rs, b2)))"

fun runSpec :: "BreakerConfig \<Rightarrow> bevent list \<Rightarrow> BreakerSpec \<Rightarrow> bool list \<times> BreakerSpec" where
  "runSpec cfg [] s = ([], s)"
| "runSpec cfg (ev # evs) s =
     (case specStep cfg ev s of (r, s1) \<Rightarrow> (case runSpec cfg evs s1 of (rs, s2) \<Rightarrow> (r # rs, s2)))"

lemma runBreaker_refines:
  assumes "breakerInv b" "list_all clockOk evs"
  shows "fst (runBreaker evs b) = fst (runSpec (br_cfg b) evs (absBreaker b)) \<and>
    absBreaker (snd (runBreaker evs b)) = snd (runSpec (br_cfg b) evs (absBreaker b)) \<and>
    breakerInv (snd (runBreaker evs b))"
  using assms
proof (induction evs arbitrary: b)
  case (Cons ev evs)
  let ?b1 = "snd (breakerStep ev b)"
  note step = breaker_refines[OF Cons.prems(1), of ev]
  have "breakerInv ?b1" "br_cfg ?b1 = br_cfg b" using step Cons.prems by auto
  with Cons.IH[of ?b1] Cons.prems step show ?case
    by (auto split: prod.splits)
qed simp

lemma runSpec_append:
  "runSpec cfg (xs @ ys) s =
     (case runSpec cfg xs s of (rs, s1) \<Rightarrow> (case runSpec cfg ys s1 of (qs, s2) \<Rightarrow> (rs @ qs, s2)))"
  by (induction xs arbitrary: s) (auto split: prod.splits)

lemma runSpec_failures:
  "int k + int n < bc_FailureThreshold cfg \<Longrightarrow> snd (runSpec cfg (replicate n (EvFailure now)) (Closed k)) = Closed (k + n)"
proof (induction n arbitrary: k)
  case (Suc n)
  have "snd (runSpec cfg (replicate n (EvFailure now)) (Closed (Suc k))) = Closed (Suc k + n)"
    using Suc.prems by (intro Suc.IH) simp
  with Suc.prems show ?case by (auto split: prod.splits)
qed simp

text \<open>Failures in a row trip a closed breaker exactly at the threshold: with one fewer every
  call is still allowed; with the threshold reached every call before the open duration has
  passed is rejected, and at that time a probe is let out.\<close>

theorem breaker_trips:
  assumes "breakerInv b" "absBreaker b = Closed 0" "0 < now" "0 < n" "int n \<le> bc_FailureThreshold (br_cfg b)"
  shows "fst (Allow t (snd (runBreaker (replicate n (EvFailure now)) b))) \<longleftrightarrow>
    int n < bc_FailureThreshold (br_cfg b) \<or> now + bc_OpenDuration (br_cfg b) \<le> t"
proof -
  let ?b = "snd (runBreaker (replicate n (EvFailure now)) b)"
  obtain m where m: "n = Suc m" using assms(4) by (cases n) auto
  have ok: "list_all clockOk (replicate n (EvFailure now))" using assms(3) by (simp add: list_all_iff)
  have R: "absBreaker ?b = snd (runSpec (br_cfg b) (replicate n (EvFailure now)) (Closed 0))"
    using runBreaker_refines[OF assms(1) ok] assms(2) by simp
  have inv: "breakerInv ?b" using runBreaker_refines[OF assms(1) ok] by simp
  have A: "fst (Allow t ?b) = fst (specStep (br_cfg ?b) (EvAllow t) (absBreaker ?b))"
    using breaker_refines[OF inv, of "EvAllow t"] by (simp add: breakerStep_def)
  show ?thesis
  proof (cases "int n < bc_FailureThreshold (br_cfg b)")
    case True
    with R runSpec_failures[of 0 n "br_cfg b" now] have "absBreaker ?b = Closed n" by simp
    with A True show ?thesis by simp
  next
    case False
    with assms(5) have n: "int n = bc_FailureThreshold (br_cfg b)" by simp
    have "replicate n (EvFailure now) = replicate m (EvFailure now) @ [EvFailure now]"
      by (simp add: m replicate_append_same)
    moreover have "snd (runSpec (br_cfg b) (replicate m (EvFailure now)) (Closed 0)) = Closed m"
      using runSpec_failures[of 0 m "br_cfg b" now] n m by simp
    ultimately have "absBreaker ?b = Tripped (now + bc_OpenDuration (br_cfg b)) 0 False"
      using R n m by (simp only: runSpec_append) (auto split: prod.splits)
    with A n show ?thesis by auto
  qed
qed

theorem breaker_trips_witness:
  "\<not> fst (Allow 100 (snd (runBreaker (replicate 5 (EvFailure 50)) (NewBreaker DefaultBreakerConfig))))"
  using breaker_trips[of "NewBreaker DefaultBreakerConfig" 50 5 100] NewBreaker_inv[of DefaultBreakerConfig]
  by (simp add: DefaultBreakerConfig_def NewBreaker_def absBreaker_def second_def)

lemma runSpec_probes:
  assumes "int g + int n < bc_HalfOpenSuccesses cfg" "until \<le> t"
  shows "runSpec cfg (concat (replicate n [EvAllow t, EvSuccess])) (Tripped until g False) =
    (replicate (2 * n) True, Tripped until (g + n) False)"
  using assms by (induction n arbitrary: g) auto

text \<open>A tripped breaker recovers: once the open period is over, as many successful probes as
  configured, each let out and then reported, close it. All of them may be let out at the
  same instant, so more than one probe passes in one open period.\<close>

theorem breaker_recovers:
  assumes "breakerInv b" "absBreaker b = Tripped until 0 False" "until \<le> t"
    "int n = bc_HalfOpenSuccesses (br_cfg b)"
  shows "fst (runBreaker (concat (replicate n [EvAllow t, EvSuccess])) b) = replicate (2 * n) True \<and>
    absBreaker (snd (runBreaker (concat (replicate n [EvAllow t, EvSuccess])) b)) = Closed 0"
proof -
  have "0 < bc_HalfOpenSuccesses (br_cfg b)" using assms(1) by (simp add: breakerInv_def)
  with assms(4) obtain m where m: "n = Suc m" by (cases n) auto
  have ok: "list_all clockOk (concat (replicate n [EvAllow t, EvSuccess]))" by (simp add: list_all_iff)
  have "concat (replicate n [EvAllow t, EvSuccess]) =
      concat (replicate m [EvAllow t, EvSuccess]) @ [EvAllow t, EvSuccess]"
    unfolding m by (induction m) auto
  moreover have "replicate (2 * m) True @ [True, True] = replicate (2 * n) True"
    by (simp add: m replicate_append_same) (metis append_Cons append_Nil replicate_app_Cons_same replicate_append_same)
  ultimately show ?thesis
    using runBreaker_refines[OF assms(1) ok] runSpec_probes[of 0 m "br_cfg b" until t] assms(2,3,4) m
    by (simp add: runSpec_append)
qed

theorem breaker_recovers_witness:
  "absBreaker (snd (runBreaker (concat (replicate 2 [EvAllow 9, EvSuccess]))
     ((NewBreaker DefaultBreakerConfig)\<lparr>br_openUntilNanos := 8\<rparr>))) = Closed 0"
  using breaker_recovers[of "(NewBreaker DefaultBreakerConfig)\<lparr>br_openUntilNanos := 8\<rparr>" 8 9 2]
  by (simp add: DefaultBreakerConfig_def NewBreaker_def absBreaker_def breakerInv_def second_def)

end
