(* ===== verification/Instance.thy ===== *)
theory Instance
  imports Breaker
begin

text \<open>
  One running plugin process (\<^verbatim>\<open>src/core/pluginhost/instance.go\<close>). The first part models the
  operations as functions on the instance record, which the registry, the supervisor and the
  manager use. The second part splits \<^verbatim>\<open>BeginRequest\<close>, the release it returns, and \<^verbatim>\<open>Drain\<close> into
  their atomic loads, adds and stores and interleaves any number of requests with one drain;
  rule induction then shows what a clean drain guarantees.
\<close>

section \<open>Operations\<close>

datatype State = StateStarting | StateReady | StateDraining | StateStopped | StateFailed | StateQuarantined

definition StateString :: "State \<Rightarrow> string" where
  "StateString s =
     (case s of StateStarting \<Rightarrow> ''starting'' | StateReady \<Rightarrow> ''ready'' | StateDraining \<Rightarrow> ''draining''
      | StateStopped \<Rightarrow> ''stopped'' | StateFailed \<Rightarrow> ''failed'' | StateQuarantined \<Rightarrow> ''quarantined'')"

text \<open>The process handle is nil (\<open>None\<close>) or a process that has exited or not.\<close>

record Instance =
  in_Key :: string
  in_InstanceID :: string
  in_Version :: string
  in_Weight :: int
  in_Breaker :: Breaker
  in_proc :: "bool option"
  in_state :: State
  in_inflight :: int
  in_startedAt :: int

definition NewInstance :: "string \<Rightarrow> string \<Rightarrow> string \<Rightarrow> int \<Rightarrow> bool option \<Rightarrow> int \<Rightarrow> Instance" where
  "NewInstance key instanceID version weight proc now =
     \<lparr>in_Key = key, in_InstanceID = instanceID, in_Version = version,
      in_Weight = (if weight \<le> 0 then 1 else weight),
      in_Breaker = NewBreaker DefaultBreakerConfig, in_proc = proc,
      in_state = StateStarting, in_inflight = 0, in_startedAt = now\<rparr>"

definition setState :: "State \<Rightarrow> Instance \<Rightarrow> Instance" where "setState s i = i\<lparr>in_state := s\<rparr>"
definition MarkReady :: "Instance \<Rightarrow> Instance" where "MarkReady i = setState StateReady i"
definition MarkFailed :: "Instance \<Rightarrow> Instance" where "MarkFailed i = setState StateFailed i"
definition MarkQuarantined :: "Instance \<Rightarrow> Instance" where "MarkQuarantined i = setState StateQuarantined i"

definition Servable :: "Instance \<Rightarrow> bool" where
  "Servable i = (case in_state i of StateReady \<Rightarrow> True | StateDraining \<Rightarrow> True | _ \<Rightarrow> False)"

definition InFlight :: "Instance \<Rightarrow> int" where "InFlight i = in_inflight i"

text \<open>Without interference the second check of \<^verbatim>\<open>BeginRequest\<close> sees the state of the first.\<close>

definition BeginRequest :: "Instance \<Rightarrow> bool \<times> Instance" where
  "BeginRequest i =
     (if in_state i \<noteq> StateReady then (False, i)
      else let i1 = i\<lparr>in_inflight := in_inflight i + 1\<rparr>
           in if in_state i1 \<noteq> StateReady then (False, i1\<lparr>in_inflight := in_inflight i1 - 1\<rparr>)
              else (True, i1))"

text \<open>The release: \<open>done\<close> is the closure's flag, returned updated.\<close>

definition endRequest :: "bool \<Rightarrow> Instance \<Rightarrow> bool \<times> Instance" where
  "endRequest released i = (if released then (True, i) else (True, i\<lparr>in_inflight := in_inflight i - 1\<rparr>))"

definition terminate :: "Instance \<Rightarrow> Instance" where
  "terminate i =
     (let i1 = (case in_proc i of None \<Rightarrow> i | Some _ \<Rightarrow> i\<lparr>in_proc := Some True\<rparr>)
      in if in_state i1 = StateQuarantined then i1 else i1\<lparr>in_state := StateStopped\<rparr>)"

definition Kill :: "Instance \<Rightarrow> Instance" where "Kill i = terminate i"

definition ProcessExited :: "Instance \<Rightarrow> bool" where
  "ProcessExited i = (case in_proc i of None \<Rightarrow> True | Some exited \<Rightarrow> exited)"

text \<open>The waiting loop of a drain. A script holds the iterations that ran, that is those whose
  loop condition saw requests in flight: the context was done, or the ticker fired and the deadline had
  passed or not; with the count read then. The loop ends after the script, the condition being false.\<close>

datatype drainPoll = PollDone int | PollTick bool int

datatype drainWait = WaitedOut | WaitCancelled int | WaitTimedOut int

fun drainLoop :: "drainPoll list \<Rightarrow> drainWait" where
  "drainLoop [] = WaitedOut"
| "drainLoop (PollDone remaining # ps) = WaitCancelled remaining"
| "drainLoop (PollTick late remaining # ps) = (if late then WaitTimedOut remaining else drainLoop ps)"

datatype drain_err = DrainCancelled string int | DrainTimedOut string int

definition Drain :: "drainPoll list \<Rightarrow> Instance \<Rightarrow> drain_err option \<times> Instance" where
  "Drain polls i =
     (let i1 = terminate (setState StateDraining i)
      in case drainLoop polls of
           WaitedOut \<Rightarrow> (None, i1)
         | WaitCancelled remaining \<Rightarrow> (Some (DrainCancelled (in_Key i) remaining), i1)
         | WaitTimedOut remaining \<Rightarrow> (Some (DrainTimedOut (in_Key i) remaining), i1))"

definition InstAllow :: "int \<Rightarrow> Instance \<Rightarrow> bool \<times> Instance" where
  "InstAllow now i = (case Allow now (in_Breaker i) of (ok, b) \<Rightarrow> (ok, i\<lparr>in_Breaker := b\<rparr>))"

definition InstRecordSuccess :: "Instance \<Rightarrow> Instance" where
  "InstRecordSuccess i = i\<lparr>in_Breaker := RecordSuccess (in_Breaker i)\<rparr>"

definition InstRecordFailure :: "int \<Rightarrow> Instance \<Rightarrow> Instance" where
  "InstRecordFailure now i = i\<lparr>in_Breaker := RecordFailure now (in_Breaker i)\<rparr>"

lemma BeginRequest_iff:
  "BeginRequest i = (ok, i') \<longleftrightarrow> (ok \<longleftrightarrow> in_state i = StateReady) \<and>
     i' = (if ok then i\<lparr>in_inflight := in_inflight i + 1\<rparr> else i)"
  by (auto simp: BeginRequest_def Let_def)

lemma terminate_state: "in_state (terminate i) = (if in_state i = StateQuarantined then StateQuarantined else StateStopped)"
  by (auto simp: terminate_def Let_def split: option.splits)

lemma Drain_facts:
  assumes "Drain polls i = (e, i')"
  shows "in_state i' = StateStopped" "in_inflight i' = in_inflight i" "in_Key i' = in_Key i" "in_Weight i' = in_Weight i"
  using assms by (auto simp: Drain_def setState_def terminate_def Let_def split: drainWait.splits option.splits)

section \<open>Interleaved requests and one drain\<close>

text \<open>Where a request stands in \<^verbatim>\<open>BeginRequest\<close> and its release.\<close>

datatype rpc =
    RIdle       \<comment> \<open>has not called yet\<close>
  | RChecked    \<comment> \<open>the first load saw Ready\<close>
  | RCounted    \<comment> \<open>the counter is incremented\<close>
  | RRefusing   \<comment> \<open>the second load saw another state\<close>
  | RRefused    \<comment> \<open>returned false\<close>
  | RAdmitted   \<comment> \<open>returned the release and true; the request runs\<close>
  | RReleased   \<comment> \<open>the release was called\<close>

text \<open>Where the drain stands; the flag tells whether the loop ended because the count was zero.\<close>

datatype dpc = DIdle | DSet | DWait | DKill bool | DLoad bool | DSwap bool State | DDone bool

record IWorld =
  iw_state :: State
  iw_inflight :: int
  iw_killed :: bool
  iw_drain :: dpc
  iw_req :: "nat \<Rightarrow> rpc"

definition setReq :: "nat \<Rightarrow> rpc \<Rightarrow> IWorld \<Rightarrow> IWorld" where
  "setReq t p w = w\<lparr>iw_req := (iw_req w)(t := p)\<rparr>"

inductive istep :: "IWorld \<Rightarrow> IWorld \<Rightarrow> bool" where
  check1_ready: "iw_req w t = RIdle \<Longrightarrow> iw_state w = StateReady \<Longrightarrow> istep w (setReq t RChecked w)"
| check1_refuse: "iw_req w t = RIdle \<Longrightarrow> iw_state w \<noteq> StateReady \<Longrightarrow> istep w (setReq t RRefused w)"
| count: "iw_req w t = RChecked \<Longrightarrow> istep w (setReq t RCounted (w\<lparr>iw_inflight := iw_inflight w + 1\<rparr>))"
| check2_ready: "iw_req w t = RCounted \<Longrightarrow> iw_state w = StateReady \<Longrightarrow> istep w (setReq t RAdmitted w)"
| check2_refuse: "iw_req w t = RCounted \<Longrightarrow> iw_state w \<noteq> StateReady \<Longrightarrow> istep w (setReq t RRefusing w)"
| uncount: "iw_req w t = RRefusing \<Longrightarrow> istep w (setReq t RRefused (w\<lparr>iw_inflight := iw_inflight w - 1\<rparr>))"
| release: "iw_req w t = RAdmitted \<Longrightarrow> istep w (setReq t RReleased (w\<lparr>iw_inflight := iw_inflight w - 1\<rparr>))"
| release_again: "iw_req w t = RReleased \<Longrightarrow> istep w w"
| mark_ready: "iw_state w = StateStarting \<Longrightarrow> istep w (w\<lparr>iw_state := StateReady\<rparr>)"
| mark_failed: "istep w (w\<lparr>iw_state := StateFailed\<rparr>)"
| mark_quarantined: "istep w (w\<lparr>iw_state := StateQuarantined\<rparr>)"
| drain_set: "iw_drain w = DIdle \<Longrightarrow> istep w (w\<lparr>iw_state := StateDraining, iw_drain := DSet\<rparr>)"
| drain_shutdown: "iw_drain w = DSet \<Longrightarrow> istep w (w\<lparr>iw_drain := DWait\<rparr>)"
| drain_again: "iw_drain w = DWait \<Longrightarrow> 0 < iw_inflight w \<Longrightarrow> istep w w"
| drain_zero: "iw_drain w = DWait \<Longrightarrow> \<not> 0 < iw_inflight w \<Longrightarrow> istep w (w\<lparr>iw_drain := DKill True\<rparr>)"
| drain_gives_up: "iw_drain w = DWait \<Longrightarrow> istep w (w\<lparr>iw_drain := DKill False\<rparr>)"
| drain_kill: "iw_drain w = DKill clean \<Longrightarrow> istep w (w\<lparr>iw_killed := True, iw_drain := DLoad clean\<rparr>)"
| drain_quarantined: "iw_drain w = DLoad clean \<Longrightarrow> iw_state w = StateQuarantined \<Longrightarrow> istep w (w\<lparr>iw_drain := DDone clean\<rparr>)"
| drain_load: "iw_drain w = DLoad clean \<Longrightarrow> iw_state w \<noteq> StateQuarantined \<Longrightarrow> istep w (w\<lparr>iw_drain := DSwap clean (iw_state w)\<rparr>)"
| drain_cas: "iw_drain w = DSwap clean cur \<Longrightarrow> iw_state w = cur \<Longrightarrow>
    istep w (w\<lparr>iw_state := StateStopped, iw_drain := DDone clean\<rparr>)"
| drain_retry: "iw_drain w = DSwap clean cur \<Longrightarrow> iw_state w \<noteq> cur \<Longrightarrow> istep w (w\<lparr>iw_drain := DLoad clean\<rparr>)"

definition initI :: IWorld where
  "initI = \<lparr>iw_state = StateStarting, iw_inflight = 0, iw_killed = False, iw_drain = DIdle, iw_req = (\<lambda>_. RIdle)\<rparr>"

inductive ireach :: "IWorld \<Rightarrow> bool" where
  ireach_init: "ireach initI"
| ireach_step: "ireach w \<Longrightarrow> istep w w' \<Longrightarrow> ireach w'"

inductive_cases istepE: "istep w w'"

text \<open>The requests that have added one to the counter and not yet taken it back.\<close>

definition counted :: "IWorld \<Rightarrow> nat set" where
  "counted w = {t. iw_req w t = RCounted \<or> iw_req w t = RRefusing \<or> iw_req w t = RAdmitted}"

fun cleanly :: "dpc \<Rightarrow> bool" where
  "cleanly (DKill c) = c" | "cleanly (DLoad c) = c" | "cleanly (DSwap c s) = c" | "cleanly (DDone c) = c"
| "cleanly DIdle = False" | "cleanly DSet = False" | "cleanly DWait = False"

definition iinv :: "IWorld \<Rightarrow> bool" where
  "iinv w \<longleftrightarrow> finite (counted w) \<and> iw_inflight w = int (card (counted w)) \<and>
     (iw_drain w \<noteq> DIdle \<longrightarrow> iw_state w \<noteq> StateReady \<and> iw_state w \<noteq> StateStarting) \<and>
     (cleanly (iw_drain w) \<longrightarrow> (\<forall>t. iw_req w t \<noteq> RAdmitted))"

lemma counted_set:
  "counted (setReq t p w) = (if p = RCounted \<or> p = RRefusing \<or> p = RAdmitted then insert t (counted w) else counted w - {t})"
  by (auto simp: counted_def setReq_def)

lemma setReq_fields [simp]:
  "iw_state (setReq t p w) = iw_state w" "iw_inflight (setReq t p w) = iw_inflight w"
  "iw_drain (setReq t p w) = iw_drain w" "iw_killed (setReq t p w) = iw_killed w"
  "iw_req (setReq t p w) = (iw_req w)(t := p)"
  by (simp_all add: setReq_def)

lemma counted_upd [simp]:
  "counted (w\<lparr>iw_inflight := n\<rparr>) = counted w" "counted (w\<lparr>iw_state := s\<rparr>) = counted w"
  "counted (w\<lparr>iw_drain := d\<rparr>) = counted w" "counted (w\<lparr>iw_killed := k\<rparr>) = counted w"
  by (simp_all add: counted_def)

lemma card_counted:
  assumes "finite (counted w)"
  shows "iw_req w t = RChecked \<Longrightarrow> card (insert t (counted w)) = card (counted w) + 1"
    and "t \<in> counted w \<Longrightarrow> card (counted w - {t}) = card (counted w) - 1 \<and> 0 < card (counted w)"
  using assms by (auto simp: counted_def card_Diff_singleton card_gt_0_iff)

lemma counted_iff:
  "iw_req w t = RCounted \<Longrightarrow> t \<in> counted w" "iw_req w t = RRefusing \<Longrightarrow> t \<in> counted w"
  "iw_req w t = RAdmitted \<Longrightarrow> t \<in> counted w" "iw_req w t = RIdle \<Longrightarrow> t \<notin> counted w"
  "iw_req w t = RChecked \<Longrightarrow> t \<notin> counted w"
  by (simp_all add: counted_def)

lemma iinv_init: "iinv initI"
  by (simp add: iinv_def initI_def counted_def)

lemma iinv_step: "istep w w' \<Longrightarrow> iinv w \<Longrightarrow> iinv w'"
proof (induction rule: istep.induct)
  case (count w t)
  then show ?case using card_counted(1)[of w t] by (auto simp: iinv_def counted_set)
next
  case (check2_ready w t)
  then have "iw_drain w = DIdle" by (auto simp: iinv_def)
  with check2_ready show ?case by (auto simp: iinv_def counted_set insert_absorb counted_iff)
next
  case (uncount w t)
  then have "t \<in> counted w" by (simp add: counted_iff)
  with uncount show ?case using card_counted(2)[of w t] by (auto simp: iinv_def counted_set)
next
  case (release w t)
  then have "t \<in> counted w" by (simp add: counted_iff)
  with release show ?case using card_counted(2)[of w t] by (auto simp: iinv_def counted_set)
next
  case (drain_zero w)
  then have "counted w = {}" by (auto simp: iinv_def)
  with drain_zero show ?case by (auto simp: iinv_def counted_def)
qed (auto simp: iinv_def counted_set insert_absorb counted_iff)

lemma ireach_iinv: "ireach w \<Longrightarrow> iinv w"
  by (induction rule: ireach.induct) (auto intro: iinv_init iinv_step)

text \<open>C1: A drain that ends cleanly never kills the process under a request. However the steps
  of any number of \<^verbatim>\<open>BeginRequest\<close> calls, releases, state changes and one drain interleave, once
  the drain's loop has seen a zero count no request is admitted, then or later, and the
  in-flight counter is always the number of requests between their increment and their
  decrement, so it returns to zero when they are done.\<close>

theorem clean_drain_safe:
  assumes "ireach w"
  shows "(cleanly (iw_drain w) \<longrightarrow> (\<forall>t. iw_req w t \<noteq> RAdmitted)) \<and>
    finite (counted w) \<and> iw_inflight w = int (card (counted w))"
  using ireach_iinv[OF assms] by (auto simp: iinv_def)

theorem clean_drain_safe_witness:
  "\<exists>w. ireach w \<and> iw_drain w = DKill True \<and> iw_req w 0 = RReleased \<and> (\<forall>t. iw_req w t \<noteq> RAdmitted)"
proof -
  let ?w1 = "initI\<lparr>iw_state := StateReady\<rparr>"
  let ?w2 = "setReq 0 RChecked ?w1"
  let ?w3 = "setReq 0 RCounted (?w2\<lparr>iw_inflight := iw_inflight ?w2 + 1\<rparr>)"
  let ?w4 = "setReq 0 RAdmitted ?w3"
  let ?w5 = "?w4\<lparr>iw_state := StateDraining, iw_drain := DSet\<rparr>"
  let ?w6 = "?w5\<lparr>iw_drain := DWait\<rparr>"
  let ?w7 = "setReq 0 RReleased (?w6\<lparr>iw_inflight := iw_inflight ?w6 - 1\<rparr>)"
  let ?w8 = "?w7\<lparr>iw_drain := DKill True\<rparr>"
  have "istep initI ?w1" by (rule mark_ready) (simp add: initI_def)
  then have "ireach ?w1" by (rule ireach_step[OF ireach_init])
  moreover have "istep ?w1 ?w2" by (rule check1_ready) (simp_all add: initI_def)
  ultimately have "ireach ?w2" by (rule ireach_step)
  moreover have "istep ?w2 ?w3" by (rule count) simp
  ultimately have "ireach ?w3" by (rule ireach_step)
  moreover have "istep ?w3 ?w4" by (rule check2_ready) simp_all
  ultimately have "ireach ?w4" by (rule ireach_step)
  moreover have "istep ?w4 ?w5" by (rule drain_set) (simp add: initI_def)
  ultimately have "ireach ?w5" by (rule ireach_step)
  moreover have "istep ?w5 ?w6" by (rule drain_shutdown) simp
  ultimately have "ireach ?w6" by (rule ireach_step)
  moreover have "istep ?w6 ?w7" by (rule release) simp
  ultimately have "ireach ?w7" by (rule ireach_step)
  moreover have "istep ?w7 ?w8" by (rule drain_zero) (simp_all add: initI_def)
  ultimately have r: "ireach ?w8" by (rule ireach_step)
  have d: "iw_drain ?w8 = DKill True" "iw_req ?w8 0 = RReleased" by simp_all
  with clean_drain_safe[OF r] have "\<forall>t. iw_req ?w8 t \<noteq> RAdmitted" by simp
  with r d show ?thesis by blast
qed

text \<open>The state machine of an instance: once a drain has begun it is never ready again.\<close>

lemma drain_never_ready: "ireach w \<Longrightarrow> iw_drain w \<noteq> DIdle \<Longrightarrow> iw_state w \<noteq> StateReady"
  by (auto dest!: ireach_iinv simp: iinv_def)

end
