(* ===== verification/Replicas.thy ===== *)
theory Replicas
  imports Instance
begin

text \<open>
  Replica selection (\<^verbatim>\<open>src/core/pluginhost/registry.go\<close>, \<^verbatim>\<open>replicaSet\<close>): smooth weighted
  round-robin over the instances of one plugin. Instances are addresses in a heap, so that
  two snapshots can share a replica set. The counters are unbounded integers: they stay
  within the sum of the weights, far from the 64-bit range.
\<close>

section \<open>Model\<close>

type_synonym iheap = "nat \<Rightarrow> Instance"

record replicaSet =
  rs_instances :: "nat list"
  rs_current :: "int list"

definition newReplicaSet :: "nat list \<Rightarrow> replicaSet" where
  "newReplicaSet instances = \<lparr>rs_instances = instances, rs_current = replicate (length instances) 0\<rparr>"

definition isReady :: "iheap \<Rightarrow> nat \<Rightarrow> bool" where
  "isReady heap a = (in_state (heap a) = StateReady)"

text \<open>One iteration of the selection loop; the accumulator is the counters, the total weight
  of the ready replicas so far and the index of the best one.\<close>

definition pickStep :: "iheap \<Rightarrow> nat list \<Rightarrow> int list \<times> int \<times> nat option \<Rightarrow> nat \<Rightarrow> int list \<times> int \<times> nat option" where
  "pickStep heap insts acc idx =
     (case acc of (current, tot, best) \<Rightarrow>
      if in_state (heap (insts ! idx)) \<noteq> StateReady then acc
      else let w = in_Weight (heap (insts ! idx));
               current1 = current[idx := current ! idx + w]
           in (current1, tot + w,
               case best of
                 None \<Rightarrow> Some idx
               | Some b \<Rightarrow> if current1 ! idx > current1 ! b then Some idx else Some b))"

definition pickLoop :: "iheap \<Rightarrow> nat list \<Rightarrow> int list \<Rightarrow> nat \<Rightarrow> int list \<times> int \<times> nat option" where
  "pickLoop heap insts current n = fold (\<lambda>idx acc. pickStep heap insts acc idx) [0..<n] (current, 0, None)"

definition pick :: "iheap \<Rightarrow> replicaSet \<Rightarrow> nat option \<times> replicaSet" where
  "pick heap rs =
     (case rs_instances rs of
        [] \<Rightarrow> (None, rs)
      | [a] \<Rightarrow> if \<not> Servable (heap a) then (None, rs) else (Some a, rs)
      | _ \<Rightarrow>
         (case pickLoop heap (rs_instances rs) (rs_current rs) (length (rs_instances rs)) of
            (current, tot, None) \<Rightarrow>
              (find (\<lambda>a. Servable (heap a)) (rs_instances rs), rs\<lparr>rs_current := current\<rparr>)
          | (current, tot, Some best) \<Rightarrow>
              (Some (rs_instances rs ! best), rs\<lparr>rs_current := current[best := current ! best - tot]\<rparr>)))"

fun pickMany :: "iheap \<Rightarrow> nat \<Rightarrow> replicaSet \<Rightarrow> nat option list \<times> replicaSet" where
  "pickMany heap 0 rs = ([], rs)"
| "pickMany heap (Suc k) rs =
     (case pickMany heap k rs of (ps, rs1) \<Rightarrow> (case pick heap rs1 of (p, rs2) \<Rightarrow> (ps @ [p], rs2)))"

section \<open>One selection\<close>

abbreviation readyIdx :: "iheap \<Rightarrow> nat list \<Rightarrow> nat set" where
  "readyIdx heap insts \<equiv> {i. i < length insts \<and> isReady heap (insts ! i)}"

abbreviation weightAt :: "iheap \<Rightarrow> nat list \<Rightarrow> nat \<Rightarrow> int" where
  "weightAt heap insts i \<equiv> in_Weight (heap (insts ! i))"

lemma pickLoop_spec:
  assumes "n \<le> length insts" "length current = length insts"
  shows "\<exists>cur tot best. pickLoop heap insts current n = (cur, tot, best) \<and> length cur = length insts \<and>
    (\<forall>i < length insts. cur ! i = current ! i + (if i < n \<and> isReady heap (insts ! i) then weightAt heap insts i else 0)) \<and>
    tot = (\<Sum>i \<in> {i. i < n \<and> isReady heap (insts ! i)}. weightAt heap insts i) \<and>
    (case best of
       None \<Rightarrow> {i. i < n \<and> isReady heap (insts ! i)} = {}
     | Some b \<Rightarrow> b < n \<and> isReady heap (insts ! b) \<and> (\<forall>i < n. isReady heap (insts ! i) \<longrightarrow> cur ! i \<le> cur ! b))"
  using assms(1)
proof (induction n)
  case 0
  then show ?case using assms(2) by (simp add: pickLoop_def)
next
  case (Suc n)
  then obtain cur tot best where IH: "pickLoop heap insts current n = (cur, tot, best)" "length cur = length insts"
    "\<forall>i < length insts. cur ! i = current ! i + (if i < n \<and> isReady heap (insts ! i) then weightAt heap insts i else 0)"
    "tot = (\<Sum>i \<in> {i. i < n \<and> isReady heap (insts ! i)}. weightAt heap insts i)"
    "case best of None \<Rightarrow> {i. i < n \<and> isReady heap (insts ! i)} = {}
     | Some b \<Rightarrow> b < n \<and> isReady heap (insts ! b) \<and> (\<forall>i < n. isReady heap (insts ! i) \<longrightarrow> cur ! i \<le> cur ! b)"
    by auto
  have L: "pickLoop heap insts current (Suc n) = pickStep heap insts (cur, tot, best) n"
    using IH(1) by (simp add: pickLoop_def)
  show ?case
  proof (cases "isReady heap (insts ! n)")
    case False
    then have S: "{i. i < Suc n \<and> isReady heap (insts ! i)} = {i. i < n \<and> isReady heap (insts ! i)}"
      using less_Suc_eq by auto
    have "pickStep heap insts (cur, tot, best) n = (cur, tot, best)"
      using False by (simp add: pickStep_def isReady_def)
    with L IH False S show ?thesis by (auto simp: less_Suc_eq split: option.splits)
  next
    case True
    let ?cur = "cur[n := cur ! n + weightAt heap insts n]"
    let ?best = "case best of None \<Rightarrow> Some n | Some b \<Rightarrow> if ?cur ! n > ?cur ! b then Some n else Some b"
    have S: "{i. i < Suc n \<and> isReady heap (insts ! i)} = insert n {i. i < n \<and> isReady heap (insts ! i)}"
      using True less_Suc_eq by auto
    have st: "pickStep heap insts (cur, tot, best) n = (?cur, tot + weightAt heap insts n, ?best)"
      using True by (simp add: pickStep_def isReady_def Let_def)
    have "\<forall>i < length insts. ?cur ! i = current ! i + (if i < Suc n \<and> isReady heap (insts ! i) then weightAt heap insts i else 0)"
      using IH(2,3) True Suc.prems by (auto simp: nth_list_update less_Suc_eq)
    moreover have "tot + weightAt heap insts n = (\<Sum>i \<in> {i. i < Suc n \<and> isReady heap (insts ! i)}. weightAt heap insts i)"
      unfolding S using IH(4) by simp
    moreover have "case ?best of None \<Rightarrow> {i. i < Suc n \<and> isReady heap (insts ! i)} = {}
       | Some b \<Rightarrow> b < Suc n \<and> isReady heap (insts ! b) \<and> (\<forall>i < Suc n. isReady heap (insts ! i) \<longrightarrow> ?cur ! i \<le> ?cur ! b)"
    proof (cases best)
      case None
      with IH(5) have "\<forall>i < n. \<not> isReady heap (insts ! i)" by auto
      with None True show ?thesis by (auto simp: less_Suc_eq)
    next
      case (Some b)
      with IH(5) have b: "b < n" "isReady heap (insts ! b)" "\<forall>i < n. isReady heap (insts ! i) \<longrightarrow> cur ! i \<le> cur ! b"
        by auto
      show ?thesis
      proof (cases "?cur ! n > ?cur ! b")
        case gt: True
        have "?cur ! i \<le> ?cur ! n" if "i < n" "isReady heap (insts ! i)" for i
          using b gt that by (auto dest: spec[of _ i])
        with Some gt True show ?thesis by (auto simp: less_Suc_eq)
      next
        case le: False
        with Some b show ?thesis by (auto simp: less_Suc_eq)
      qed
    qed
    ultimately show ?thesis using L st IH(2) by auto
  qed
qed

text \<open>Selection among at least two replicas of which one is ready: every ready counter gains its
  weight, the first largest one is chosen and pays the total.\<close>

lemma pick_ready:
  assumes "length (rs_current rs) = length (rs_instances rs)" "2 \<le> length (rs_instances rs)"
    "readyIdx heap (rs_instances rs) \<noteq> {}"
  obtains b cur where "b \<in> readyIdx heap (rs_instances rs)"
    "pick heap rs = (Some (rs_instances rs ! b), rs\<lparr>rs_current := cur\<rparr>)" "length cur = length (rs_instances rs)"
    "\<And>i. i < length (rs_instances rs) \<Longrightarrow> cur ! i = rs_current rs ! i
       + (if isReady heap (rs_instances rs ! i) then weightAt heap (rs_instances rs) i else 0)
       - (if i = b then \<Sum>j \<in> readyIdx heap (rs_instances rs). weightAt heap (rs_instances rs) j else 0)"
    "\<And>i. i \<in> readyIdx heap (rs_instances rs) \<Longrightarrow>
       rs_current rs ! i + weightAt heap (rs_instances rs) i \<le> rs_current rs ! b + weightAt heap (rs_instances rs) b"
proof -
  let ?I = "rs_instances rs"
  let ?W = "\<Sum>j \<in> readyIdx heap ?I. weightAt heap ?I j"
  from pickLoop_spec[OF order.refl assms(1), of heap] obtain cur tot best where
    P: "pickLoop heap ?I (rs_current rs) (length ?I) = (cur, tot, best)" "length cur = length ?I"
    "\<forall>i < length ?I. cur ! i = rs_current rs ! i + (if isReady heap (?I ! i) then weightAt heap ?I i else 0)"
    "tot = ?W"
    "case best of None \<Rightarrow> readyIdx heap ?I = {}
     | Some b \<Rightarrow> b < length ?I \<and> isReady heap (?I ! b) \<and> (\<forall>i < length ?I. isReady heap (?I ! i) \<longrightarrow> cur ! i \<le> cur ! b)"
    by auto
  with assms(3) obtain b where b: "best = Some b" "b < length ?I" "isReady heap (?I ! b)"
    "\<forall>i < length ?I. isReady heap (?I ! i) \<longrightarrow> cur ! i \<le> cur ! b"
    by (cases best) auto
  obtain x y zs where I: "?I = x # y # zs"
    using assms(2) by (cases ?I; cases "tl ?I") auto
  have "pick heap rs = (Some (?I ! b), rs\<lparr>rs_current := cur[b := cur ! b - tot]\<rparr>)"
    using P(1) b(1) by (simp add: pick_def I)
  moreover have "b \<in> readyIdx heap ?I" using b by simp
  moreover have "\<And>i. i \<in> readyIdx heap ?I \<Longrightarrow> rs_current rs ! i + weightAt heap ?I i \<le> rs_current rs ! b + weightAt heap ?I b"
    using P(3) b by auto
  ultimately show ?thesis
    using P b by (intro that[of b "cur[b := cur ! b - tot]"]) (auto simp: nth_list_update)
qed

section \<open>Fairness\<close>

text \<open>How often index \<open>i\<close> was selected; the invariant ties its counter to that number.\<close>

definition swrrInv :: "iheap \<Rightarrow> nat list \<Rightarrow> nat \<Rightarrow> (nat \<Rightarrow> nat) \<Rightarrow> replicaSet \<Rightarrow> bool" where
  "swrrInv heap insts k hits rs \<longleftrightarrow>
     rs_instances rs = insts \<and> length (rs_current rs) = length insts \<and>
     (\<forall>i \<in> readyIdx heap insts.
        rs_current rs ! i = int k * weightAt heap insts i - (\<Sum>j \<in> readyIdx heap insts. weightAt heap insts j) * int (hits i) \<and>
        - (\<Sum>j \<in> readyIdx heap insts. weightAt heap insts j) < rs_current rs ! i) \<and>
     (\<Sum>i \<in> readyIdx heap insts. hits i) = k"

lemma swrrInv_pick:
  assumes "swrrInv heap insts k hits rs" "2 \<le> length insts" "readyIdx heap insts \<noteq> {}"
    "\<forall>a \<in> set insts. 0 < in_Weight (heap a)"
  obtains b rs' where "b \<in> readyIdx heap insts" "pick heap rs = (Some (insts ! b), rs')"
    "swrrInv heap insts (Suc k) (hits(b := Suc (hits b))) rs'"
proof -
  let ?R = "readyIdx heap insts" and ?w = "weightAt heap insts"
  let ?W = "\<Sum>j \<in> ?R. ?w j"
  have I: "rs_instances rs = insts" "length (rs_current rs) = length insts"
    and C: "\<And>i. i \<in> ?R \<Longrightarrow> rs_current rs ! i = int k * ?w i - ?W * int (hits i)"
    and B: "\<And>i. i \<in> ?R \<Longrightarrow> - ?W < rs_current rs ! i"
    and H: "(\<Sum>i \<in> ?R. hits i) = k"
    using assms(1) by (auto simp: swrrInv_def)
  have wpos: "\<And>i. i \<in> ?R \<Longrightarrow> 0 < ?w i" using assms(4) by auto
  have fin: "finite ?R" by simp
  have Wpos: "0 < ?W" using fin assms(3) wpos by (intro sum_pos) auto
  obtain b cur where b: "b \<in> ?R" "pick heap rs = (Some (insts ! b), rs\<lparr>rs_current := cur\<rparr>)" "length cur = length insts"
    and cur: "\<And>i. i < length insts \<Longrightarrow> cur ! i = rs_current rs ! i
       + (if isReady heap (insts ! i) then ?w i else 0) - (if i = b then ?W else 0)"
    and mx: "\<And>i. i \<in> ?R \<Longrightarrow> rs_current rs ! i + ?w i \<le> rs_current rs ! b + ?w b"
    using pick_ready[of rs heap] I assms(2,3) by auto
  text \<open>The counters sum to zero, so after the gain they sum to \<open>W\<close> and the largest is positive.\<close>
  have "(\<Sum>i \<in> ?R. rs_current rs ! i) = (\<Sum>i \<in> ?R. int k * ?w i - ?W * int (hits i))"
    using C by (intro sum.cong) auto
  also have "\<dots> = int k * ?W - ?W * int (\<Sum>i \<in> ?R. hits i)"
    by (simp add: sum_subtractf sum_distrib_left [symmetric] sum_distrib_right [symmetric])
  finally have S0: "(\<Sum>i \<in> ?R. rs_current rs ! i) = 0" using H by simp
  have bpos: "0 < rs_current rs ! b + ?w b"
  proof (rule ccontr)
    assume "\<not> ?thesis"
    with mx have "\<And>i. i \<in> ?R \<Longrightarrow> rs_current rs ! i + ?w i \<le> 0" by (meson not_le order_trans)
    then have "(\<Sum>i \<in> ?R. rs_current rs ! i + ?w i) \<le> 0" by (rule sum_nonpos)
    with S0 Wpos show False by (simp add: sum.distrib)
  qed
  have "swrrInv heap insts (Suc k) (hits(b := Suc (hits b))) (rs\<lparr>rs_current := cur\<rparr>)"
    unfolding swrrInv_def
  proof (intro conjI ballI)
    show "rs_instances (rs\<lparr>rs_current := cur\<rparr>) = insts" "length (rs_current (rs\<lparr>rs_current := cur\<rparr>)) = length insts"
      using I b(3) by auto
    show "(\<Sum>i \<in> ?R. (hits(b := Suc (hits b))) i) = Suc k"
    proof -
      have "(\<Sum>i \<in> ?R. (hits(b := Suc (hits b))) i) = (\<Sum>i \<in> ?R. hits i + (if i = b then 1 else 0))"
        by (intro sum.cong) auto
      also have "\<dots> = k + 1" using H b(1) fin by (simp add: sum.distrib sum.delta)
      finally show ?thesis by simp
    qed
    fix i assume i: "i \<in> ?R"
    show "rs_current (rs\<lparr>rs_current := cur\<rparr>) ! i = int (Suc k) * ?w i - ?W * int ((hits(b := Suc (hits b))) i)"
      using cur[of i] C[OF i] i by (auto simp: algebra_simps)
    show "- ?W < rs_current (rs\<lparr>rs_current := cur\<rparr>) ! i"
      using cur[of i] B[OF i] i bpos wpos[OF i] by auto
  qed
  with b that show ?thesis by blast
qed

lemma swrrInv_many:
  assumes "2 \<le> length insts" "readyIdx heap insts \<noteq> {}" "\<forall>a \<in> set insts. 0 < in_Weight (heap a)" "distinct insts"
  shows "\<exists>hits ps rs'. pickMany heap k (newReplicaSet insts) = (ps, rs') \<and> swrrInv heap insts k hits rs' \<and>
    (\<forall>i < length insts. count (mset ps) (Some (insts ! i)) = (if isReady heap (insts ! i) then hits i else 0))"
proof (induction k)
  case 0
  have "0 < (\<Sum>j \<in> readyIdx heap insts. weightAt heap insts j)"
    using assms(2,3) by (intro sum_pos) auto
  then have "swrrInv heap insts 0 (\<lambda>_. 0) (newReplicaSet insts)"
    by (auto simp: swrrInv_def newReplicaSet_def)
  then show ?case by auto
next
  case (Suc k)
  then obtain hits ps rs1 where IH: "pickMany heap k (newReplicaSet insts) = (ps, rs1)" "swrrInv heap insts k hits rs1"
    "\<forall>i < length insts. count (mset ps) (Some (insts ! i)) = (if isReady heap (insts ! i) then hits i else 0)" by auto
  from swrrInv_pick[OF IH(2) assms(1-3)] obtain b rs2 where b: "b \<in> readyIdx heap insts" "pick heap rs1 = (Some (insts ! b), rs2)"
    "swrrInv heap insts (Suc k) (hits(b := Suc (hits b))) rs2" by auto
  have "\<forall>i < length insts. count (mset (ps @ [Some (insts ! b)])) (Some (insts ! i)) =
      (if isReady heap (insts ! i) then (hits(b := Suc (hits b))) i else 0)"
    using IH(3) b(1) assms(4) by (auto simp: nth_eq_iff_index_eq)
  with IH(1) b(2,3) show ?case by (auto intro!: exI)
qed

text \<open>C36: Round-robin is exactly proportional. Starting from a fresh replica set of at least two
  replicas with positive weights, while their states do not change, one cycle of as many
  selections as the ready replicas' weights add up to selects every ready replica exactly
  as often as its weight says and no other replica at all.\<close>

theorem pick_proportional:
  assumes "2 \<le> length insts" "distinct insts" "\<forall>a \<in> set insts. 0 < in_Weight (heap a)"
    "\<exists>a \<in> set insts. isReady heap a" "a \<in> set insts"
  shows "int (count (mset (fst (pickMany heap (nat (\<Sum>x \<leftarrow> filter (isReady heap) insts. in_Weight (heap x))) (newReplicaSet insts)))) (Some a))
    = (if isReady heap a then in_Weight (heap a) else 0)"
proof -
  let ?R = "readyIdx heap insts" and ?w = "weightAt heap insts"
  let ?W = "\<Sum>j \<in> ?R. ?w j"
  have ne: "?R \<noteq> {}" using assms(4) by (auto simp: in_set_conv_nth)
  have fin: "finite ?R" by simp
  have wpos: "\<And>i. i \<in> ?R \<Longrightarrow> 0 < ?w i" using assms(3) by auto
  have Wpos: "0 < ?W" using fin ne wpos by (intro sum_pos) auto
  have "(\<Sum>x \<leftarrow> filter (isReady heap) insts. in_Weight (heap x)) = ?W"
  proof -
    have "(\<Sum>x \<leftarrow> filter (isReady heap) insts. in_Weight (heap x)) = (\<Sum>x \<in> set (filter (isReady heap) insts). in_Weight (heap x))"
      using assms(2) by (intro sum_list_distinct_conv_sum_set) simp
    also have "set (filter (isReady heap) insts) = (!) insts ` ?R" by (auto simp: in_set_conv_nth image_def)
    also have "(\<Sum>x \<in> (!) insts ` ?R. in_Weight (heap x)) = ?W"
      using assms(2) by (intro sum.reindex_cong[of "(!) insts"]) (auto simp: inj_on_def nth_eq_iff_index_eq)
    finally show ?thesis .
  qed
  moreover obtain hits ps rs' where P: "pickMany heap (nat ?W) (newReplicaSet insts) = (ps, rs')"
    "swrrInv heap insts (nat ?W) hits rs'"
    "\<forall>i < length insts. count (mset ps) (Some (insts ! i)) = (if isReady heap (insts ! i) then hits i else 0)"
    using swrrInv_many[OF assms(1) ne assms(3,2)] by blast
  text \<open>No replica is ahead of its share, and the shares add up, so none is behind.\<close>
  have le: "int (hits i) \<le> ?w i" if "i \<in> ?R" for i
  proof -
    have "- ?W < ?W * ?w i - ?W * int (hits i)" using P(2) that Wpos by (auto simp: swrrInv_def)
    then have "?W * int (hits i) < ?W * (?w i + 1)" by (simp add: algebra_simps)
    then show ?thesis using Wpos by (simp add: mult_less_cancel_left_pos)
  qed
  have "(\<Sum>i \<in> ?R. int (hits i)) = ?W"
    using P(2) Wpos by (simp add: swrrInv_def flip: of_nat_sum)
  then have "(\<Sum>i \<in> ?R. ?w i - int (hits i)) = 0" by (simp add: sum_subtractf)
  then have eq: "\<forall>i \<in> ?R. ?w i - int (hits i) = 0"
    using le by (subst (asm) sum_nonneg_eq_0_iff) auto
  obtain i where i: "i < length insts" "a = insts ! i" using assms(5) by (auto simp: in_set_conv_nth)
  ultimately show ?thesis using P(1,3) eq i by auto
qed

definition sampleHeap :: iheap where
  "sampleHeap a = (let i = MarkReady (NewInstance ''p'' ''x'' ''1'' (if a = 0 then 2 else 1) (Some False) 0)
     in if a = 2 then MarkFailed i else i)"

theorem pick_proportional_witness:
  "count (mset (fst (pickMany sampleHeap 3 (newReplicaSet [0, 1, 2])))) (Some 0) = 2"
proof -
  have "int (count (mset (fst (pickMany sampleHeap (nat (\<Sum>x \<leftarrow> filter (isReady sampleHeap) [0, 1, 2]. in_Weight (sampleHeap x)))
      (newReplicaSet [0, 1, 2])))) (Some 0)) = (if isReady sampleHeap 0 then in_Weight (sampleHeap 0) else 0)"
    by (rule pick_proportional)
      (auto simp: sampleHeap_def NewInstance_def MarkReady_def MarkFailed_def setState_def isReady_def)
  then show ?thesis
    by (simp add: sampleHeap_def NewInstance_def MarkReady_def MarkFailed_def setState_def isReady_def numeral_3_eq_3)
qed

end
