(* ===== verification/Registry.thy ===== *)
theory Registry
  imports Replicas Pipeline
begin

text \<open>
  The plugin registry (\<^verbatim>\<open>src/core/pluginhost/registry.go\<close>): registrations, the immutable
  snapshot requests read, and the rebuild that publishes a new one. Instances and replica
  sets live in heaps, because two snapshots share a replica set that did not change. The
  iteration order of the registration map is the order of its list; the chain does not
  depend on it. The registry is also the pipeline's resolver: \<open>hostOps\<close> gives the pipeline's
  interface on this model.
\<close>

section \<open>Model\<close>

record Snapshot =
  sn_plugins :: "(string, nat) gomap"
  sn_chain :: Chain
  sn_version :: nat

record Registration =
  reg_Key :: string
  reg_Instances :: "nat list"
  reg_Filters :: "CompiledFilter list"
  reg_AllowIdentityMutation :: bool

text \<open>The registry with the heaps it points into, the versions handed to \<^verbatim>\<open>onChange\<close>, and the
  clock.\<close>

record Host =
  h_inst :: iheap
  h_sets :: "nat \<Rightarrow> replicaSet"
  h_nextSet :: nat
  h_snap :: Snapshot
  h_version :: nat
  h_regs :: "(string, Registration) gomap"
  h_filterDefaults :: Defaults
  h_notified :: "nat list"
  h_now :: int

definition emptySnapshot :: Snapshot where
  "emptySnapshot = \<lparr>sn_plugins = [], sn_chain = EmptyChain, sn_version = 0\<rparr>"

definition NewRegistry :: "iheap \<Rightarrow> int \<Rightarrow> Host" where
  "NewRegistry heap now =
     \<lparr>h_inst = heap, h_sets = (\<lambda>_. newReplicaSet []), h_nextSet = 0, h_snap = emptySnapshot, h_version = 0,
      h_regs = [], h_filterDefaults = DefaultDefaults, h_notified = [], h_now = now\<rparr>"

definition Pick :: "Snapshot \<Rightarrow> string \<Rightarrow> Host \<Rightarrow> nat option \<times> Host" where
  "Pick s key h =
     (case map_of (sn_plugins s) key of
        None \<Rightarrow> (None, h)
      | Some r \<Rightarrow> (case pick (h_inst h) (h_sets h r) of (p, rs) \<Rightarrow> (p, h\<lparr>h_sets := (h_sets h)(r := rs)\<rparr>)))"

definition RegistryTarget :: "string \<Rightarrow> Host \<Rightarrow> nat option \<times> Host" where
  "RegistryTarget key h = Pick (h_snap h) key h"

definition Has :: "Snapshot \<Rightarrow> string \<Rightarrow> bool" where
  "Has s key = (map_of (sn_plugins s) key \<noteq> None)"

definition Keys :: "Snapshot \<Rightarrow> string list" where
  "Keys s = sort (map fst (sn_plugins s))"

definition Replicas :: "Snapshot \<Rightarrow> string \<Rightarrow> Host \<Rightarrow> nat list" where
  "Replicas s key h = (case map_of (sn_plugins s) key of None \<Rightarrow> [] | Some r \<Rightarrow> rs_instances (h_sets h r))"

definition All :: "Snapshot \<Rightarrow> Host \<Rightarrow> nat list" where
  "All s h = concat (map (\<lambda>k. Replicas s k h) (Keys s))"

fun sameInstances :: "nat list \<Rightarrow> nat list \<Rightarrow> bool" where
  "sameInstances [] [] = True"
| "sameInstances (a # as) (b # bs) = (a = b \<and> sameInstances as bs)"
| "sameInstances _ _ = False"

text \<open>The replica set for one registration: the one it had, or a fresh one.\<close>

definition placeSet :: "(string, nat) gomap \<Rightarrow> string \<Rightarrow> Registration \<Rightarrow> Host \<Rightarrow> Host \<times> nat" where
  "placeSet old key reg h =
     (let fresh = (h\<lparr>h_sets := (h_sets h)(h_nextSet h := newReplicaSet (reg_Instances reg)),
                     h_nextSet := h_nextSet h + 1\<rparr>, h_nextSet h)
      in case map_of old key of
           None \<Rightarrow> fresh
         | Some r \<Rightarrow> if sameInstances (rs_instances (h_sets h r)) (reg_Instances reg) then (h, r) else fresh)"

fun rebuildPlugins :: "(string, nat) gomap \<Rightarrow> (string, Registration) gomap \<Rightarrow> Host \<Rightarrow> Host \<times> (string, nat) gomap" where
  "rebuildPlugins old [] h = (h, [])"
| "rebuildPlugins old ((key, reg) # regs) h =
     (case placeSet old key reg h of (h1, r) \<Rightarrow>
      (case rebuildPlugins old regs h1 of (h2, ps) \<Rightarrow> (h2, (key, r) # ps)))"

definition pluginFilters :: "(string, Registration) gomap \<Rightarrow> PluginFilters list" where
  "pluginFilters regs =
     map (\<lambda>(key, reg). \<lparr>pf_Key = key, pf_Filters = reg_Filters reg, pf_AllowIdentityMutation = reg_AllowIdentityMutation reg\<rparr>)
       (filter (\<lambda>(key, reg). reg_Filters reg \<noteq> []) regs)"

definition publishLocked :: "Snapshot \<Rightarrow> Host \<Rightarrow> Host" where
  "publishLocked next h =
     (let v = h_version h + 1
      in h\<lparr>h_version := v, h_snap := next\<lparr>sn_version := v\<rparr>, h_notified := h_notified h @ [v]\<rparr>)"

definition rebuildLocked :: "Host \<Rightarrow> Host" where
  "rebuildLocked h =
     (case rebuildPlugins (sn_plugins (h_snap h)) (h_regs h) h of (h1, ps) \<Rightarrow>
        let chain = (case BuildChain (pluginFilters (h_regs h)) (h_filterDefaults h) of
                       Inl _ \<Rightarrow> EmptyChain | Inr c \<Rightarrow> c)
        in publishLocked \<lparr>sn_plugins = ps, sn_chain = chain, sn_version = 0\<rparr> h1)"

definition InstallPlugin :: "Registration \<Rightarrow> Host \<Rightarrow> nat list \<times> Host" where
  "InstallPlugin reg h =
     (let displaced = Replicas (h_snap h) (reg_Key reg) h;
          regs = (if reg_Instances reg = [] then AList.delete (reg_Key reg) (h_regs h)
                  else AList.update (reg_Key reg) reg (h_regs h))
      in (displaced, rebuildLocked (h\<lparr>h_regs := regs\<rparr>)))"

definition Install :: "string \<Rightarrow> nat list \<Rightarrow> Host \<Rightarrow> nat list \<times> Host" where
  "Install key instances h =
     InstallPlugin \<lparr>reg_Key = key, reg_Instances = instances, reg_Filters = [], reg_AllowIdentityMutation = False\<rparr> h"

definition Remove :: "string \<Rightarrow> Host \<Rightarrow> nat list \<times> Host" where
  "Remove key h =
     InstallPlugin \<lparr>reg_Key = key, reg_Instances = [], reg_Filters = [], reg_AllowIdentityMutation = False\<rparr> h"

text \<open>Takes effect at the next rebuild.\<close>

definition SetFilterDefaults :: "Defaults \<Rightarrow> Host \<Rightarrow> Host" where
  "SetFilterDefaults d h = h\<lparr>h_filterDefaults := d\<rparr>"

text \<open>Draining in the background, each with the script of its waiting loop.\<close>

definition drainInst :: "(nat \<Rightarrow> drainPoll list) \<Rightarrow> nat \<Rightarrow> Host \<Rightarrow> Host" where
  "drainInst polls a h = h\<lparr>h_inst := (h_inst h)(a := snd (Drain (polls a) (h_inst h a)))\<rparr>"

definition Swap :: "(nat \<Rightarrow> drainPoll list) \<Rightarrow> Registration \<Rightarrow> Host \<Rightarrow> Host" where
  "Swap polls reg h =
     (case InstallPlugin reg h of (displaced, h1) \<Rightarrow>
        if displaced = [] then h1 else fold (drainInst polls) displaced h1)"

definition DrainAll :: "(nat \<Rightarrow> drainPoll list) \<Rightarrow> Host \<Rightarrow> Host" where
  "DrainAll polls h =
     (let old = h_snap h; insts = All old h; h1 = rebuildLocked (h\<lparr>h_regs := []\<rparr>)
      in fold (drainInst polls) insts h1)"

section \<open>Rebuilding\<close>

lemma sameInstances_eq: "sameInstances as bs \<longleftrightarrow> as = bs"
  by (induction as bs rule: sameInstances.induct) auto

definition setOk :: "replicaSet \<Rightarrow> bool" where
  "setOk rs \<longleftrightarrow> length (rs_current rs) = length (rs_instances rs)"

definition sameRest :: "Host \<Rightarrow> Host \<Rightarrow> bool" where
  "sameRest h h' \<longleftrightarrow> h_inst h' = h_inst h \<and> h_snap h' = h_snap h \<and> h_version h' = h_version h \<and> h_regs h' = h_regs h \<and>
     h_filterDefaults h' = h_filterDefaults h \<and> h_notified h' = h_notified h \<and> h_now h' = h_now h"

lemma placeSet_facts:
  assumes "placeSet old key reg h = (h', r)" "\<forall>k q. map_of old k = Some q \<longrightarrow> q < h_nextSet h \<and> setOk (h_sets h q)"
  shows "sameRest h h'" "h_nextSet h \<le> h_nextSet h'" "\<forall>q < h_nextSet h. h_sets h' q = h_sets h q"
    "r < h_nextSet h'" "rs_instances (h_sets h' r) = reg_Instances reg" "setOk (h_sets h' r)"
    "map_of old key = Some q \<Longrightarrow> rs_instances (h_sets h q) = reg_Instances reg \<Longrightarrow> r = q"
  using assms
  by (auto simp: placeSet_def sameRest_def sameInstances_eq setOk_def newReplicaSet_def Let_def
      split: option.splits if_splits)

lemma rebuildPlugins_facts:
  assumes "rebuildPlugins old regs h = (h', ps)" "distinct (map fst regs)"
    "\<forall>k q. map_of old k = Some q \<longrightarrow> q < h_nextSet h \<and> setOk (h_sets h q)"
  shows "sameRest h h' \<and> h_nextSet h \<le> h_nextSet h' \<and> (\<forall>q < h_nextSet h. h_sets h' q = h_sets h q) \<and>
    map fst ps = map fst regs \<and>
    (\<forall>key reg. map_of regs key = Some reg \<longrightarrow>
       (\<exists>r. map_of ps key = Some r \<and> r < h_nextSet h' \<and> rs_instances (h_sets h' r) = reg_Instances reg \<and>
          setOk (h_sets h' r) \<and>
          (\<forall>q. map_of old key = Some q \<and> rs_instances (h_sets h q) = reg_Instances reg \<longrightarrow> r = q)))"
  using assms
proof (induction regs arbitrary: h ps)
  case Nil
  then show ?case by (simp add: sameRest_def)
next
  case (Cons kr regs)
  obtain key reg where kr: "kr = (key, reg)" by (cases kr)
  obtain h1 r where p: "placeSet old key reg h = (h1, r)" by (cases "placeSet old key reg h")
  obtain ps1 where rec: "rebuildPlugins old regs h1 = (h', ps1)" and ps: "ps = (key, r) # ps1"
    using Cons.prems(1) by (auto simp: kr p split: prod.splits)
  note P = placeSet_facts[OF p Cons.prems(3)]
  have old1: "\<forall>k q. map_of old k = Some q \<longrightarrow> q < h_nextSet h1 \<and> setOk (h_sets h1 q)"
    using Cons.prems(3) P(2,3) by fastforce
  from Cons.IH[OF rec _ old1] Cons.prems(2) kr
  have IH: "sameRest h1 h'" "h_nextSet h1 \<le> h_nextSet h'" "\<forall>q < h_nextSet h1. h_sets h' q = h_sets h1 q"
    "map fst ps1 = map fst regs"
    "\<And>k rg. map_of regs k = Some rg \<Longrightarrow> \<exists>r. map_of ps1 k = Some r \<and> r < h_nextSet h' \<and>
        rs_instances (h_sets h' r) = reg_Instances rg \<and> setOk (h_sets h' r) \<and>
        (\<forall>q. map_of old k = Some q \<and> rs_instances (h_sets h1 q) = reg_Instances rg \<longrightarrow> r = q)"
    by auto
  have sets: "\<forall>q < h_nextSet h. h_sets h' q = h_sets h q" using IH(3) P(2,3) by auto
  have rest: "sameRest h h'" using P(1) IH(1) by (auto simp: sameRest_def)
  have "\<exists>r'. map_of ps k = Some r' \<and> r' < h_nextSet h' \<and> rs_instances (h_sets h' r') = reg_Instances rg \<and>
      setOk (h_sets h' r') \<and> (\<forall>q. map_of old k = Some q \<and> rs_instances (h_sets h q) = reg_Instances rg \<longrightarrow> r' = q)"
    if m: "map_of (kr # regs) k = Some rg" for k rg
  proof (cases "k = key")
    case True
    with m kr have "rg = reg" by simp
    with True P(4-7) IH(2,3) show ?thesis by (auto simp: ps)
  next
    case False
    with m kr have "map_of regs k = Some rg" by simp
    from IH(5)[OF this] False Cons.prems(3) P(3) show ?thesis by (auto simp: ps)
  qed
  with sets rest P(2) IH(2,4) show ?case by (auto simp: kr ps)
qed

section \<open>The registry invariant\<close>

definition chainFor :: "(string, Registration) gomap \<Rightarrow> Defaults \<Rightarrow> Chain" where
  "chainFor regs d = (case BuildChain (pluginFilters regs) d of Inl _ \<Rightarrow> EmptyChain | Inr c \<Rightarrow> c)"

text \<open>The published snapshot is what the registrations say: the same keys, each with its
  instances, and the chain of their filters.\<close>

definition regInv :: "Host \<Rightarrow> bool" where
  "regInv h \<longleftrightarrow>
     distinct (map fst (h_regs h)) \<and> (\<forall>k reg. map_of (h_regs h) k = Some reg \<longrightarrow> reg_Instances reg \<noteq> []) \<and>
     map fst (sn_plugins (h_snap h)) = map fst (h_regs h) \<and>
     (\<forall>k reg. map_of (h_regs h) k = Some reg \<longrightarrow>
        (\<exists>r. map_of (sn_plugins (h_snap h)) k = Some r \<and> r < h_nextSet h \<and>
           rs_instances (h_sets h r) = reg_Instances reg \<and> setOk (h_sets h r))) \<and>
     sn_chain (h_snap h) = chainFor (h_regs h) (h_filterDefaults h) \<and>
     sn_version (h_snap h) = h_version h"

lemma regInv_reg:
  assumes "regInv h" "map_of (h_regs h) k = Some reg"
  obtains r where "map_of (sn_plugins (h_snap h)) k = Some r" "r < h_nextSet h"
    "rs_instances (h_sets h r) = reg_Instances reg" "setOk (h_sets h r)" "reg_Instances reg \<noteq> []"
  using assms unfolding regInv_def by blast

lemma map_of_keys: "map fst xs = map fst ys \<Longrightarrow> map_of xs k = None \<longleftrightarrow> map_of ys k = None"
  by (metis list.set_map map_of_eq_None_iff)

lemma NewRegistry_inv: "regInv (NewRegistry heap now)"
  by (simp add: regInv_def NewRegistry_def emptySnapshot_def chainFor_def pluginFilters_def BuildChain_def
      sortPhases_def EmptyChain_def)

lemma regInv_old:
  assumes "regInv h" "map_of (sn_plugins (h_snap h)) k = Some q"
  shows "q < h_nextSet h \<and> setOk (h_sets h q)"
proof -
  from assms have "map_of (h_regs h) k \<noteq> None" using map_of_keys[of "sn_plugins (h_snap h)" "h_regs h" k]
    by (auto simp: regInv_def)
  then obtain reg where "map_of (h_regs h) k = Some reg" by auto
  with assms show ?thesis by (metis regInv_reg option.inject)
qed

lemma rebuildLocked_facts:
  assumes "regInv h" "distinct (map fst regs)" "\<forall>k reg. map_of regs k = Some reg \<longrightarrow> reg_Instances reg \<noteq> []"
    "h' = rebuildLocked (h\<lparr>h_regs := regs\<rparr>)"
  shows "regInv h'" "h_regs h' = regs" "h_version h' = h_version h + 1" "h_inst h' = h_inst h"
    "h_notified h' = h_notified h @ [h_version h + 1]" "h_filterDefaults h' = h_filterDefaults h"
    "\<forall>q < h_nextSet h. h_sets h' q = h_sets h q"
    "\<forall>k q reg. map_of regs k = Some reg \<and> map_of (sn_plugins (h_snap h)) k = Some q \<and>
       rs_instances (h_sets h q) = reg_Instances reg \<longrightarrow> map_of (sn_plugins (h_snap h')) k = Some q"
proof -
  obtain h1 ps where rb: "rebuildPlugins (sn_plugins (h_snap h)) regs (h\<lparr>h_regs := regs\<rparr>) = (h1, ps)"
    by (cases "rebuildPlugins (sn_plugins (h_snap h)) regs (h\<lparr>h_regs := regs\<rparr>)")
  have old: "\<forall>k q. map_of (sn_plugins (h_snap h)) k = Some q \<longrightarrow>
      q < h_nextSet (h\<lparr>h_regs := regs\<rparr>) \<and> setOk (h_sets (h\<lparr>h_regs := regs\<rparr>) q)"
    using regInv_old[OF assms(1)] by simp
  note F = rebuildPlugins_facts[OF rb assms(2) old]
  have h': "h' = publishLocked \<lparr>sn_plugins = ps, sn_chain = chainFor regs (h_filterDefaults h), sn_version = 0\<rparr> h1"
    using assms(4) rb by (simp add: rebuildLocked_def chainFor_def Let_def)
  show "h_regs h' = regs" "h_version h' = h_version h + 1" "h_inst h' = h_inst h"
    "h_notified h' = h_notified h @ [h_version h + 1]" "h_filterDefaults h' = h_filterDefaults h"
    using F by (simp_all add: h' publishLocked_def sameRest_def Let_def)
  show "\<forall>q < h_nextSet h. h_sets h' q = h_sets h q"
    using F by (simp add: h' publishLocked_def Let_def)
  show "\<forall>k q reg. map_of regs k = Some reg \<and> map_of (sn_plugins (h_snap h)) k = Some q \<and>
       rs_instances (h_sets h q) = reg_Instances reg \<longrightarrow> map_of (sn_plugins (h_snap h')) k = Some q"
    using F by (simp add: h' publishLocked_def Let_def) blast
  show "regInv h'"
  proof -
    have "\<exists>r. map_of ps k = Some r \<and> r < h_nextSet h1 \<and> rs_instances (h_sets h1 r) = reg_Instances reg \<and> setOk (h_sets h1 r)"
      if "map_of regs k = Some reg" for k reg
      using F that by blast
    moreover have "map fst ps = map fst regs" "sameRest (h\<lparr>h_regs := regs\<rparr>) h1" using F by blast+
    ultimately show ?thesis
      using assms(2,3) unfolding regInv_def h' publishLocked_def sameRest_def Let_def by simp
  qed
qed

lemma regInv_unrouted:
  assumes "regInv h" "map_of (h_regs h) k = None"
  shows "map_of (sn_plugins (h_snap h)) k = None"
  using assms map_of_keys unfolding regInv_def by metis

lemma regs_after:
  assumes "distinct (map fst regs)"
  shows "distinct (map fst (AList.update k x regs))" "distinct (map fst (AList.delete k regs))"
  using assms by (simp_all add: distinct_update distinct_delete)

lemma InstallPlugin_facts:
  assumes "regInv h" "InstallPlugin reg h = (displaced, h')"
  shows "regInv h'" "displaced = Replicas (h_snap h) (reg_Key reg) h"
    "map_of (h_regs h') = (map_of (h_regs h))(reg_Key reg := (if reg_Instances reg = [] then None else Some reg))"
    "h_version h' = h_version h + 1" "h_inst h' = h_inst h" "h_filterDefaults h' = h_filterDefaults h"
    "h_notified h' = h_notified h @ [h_version h + 1]"
    "k \<noteq> reg_Key reg \<Longrightarrow> map_of (sn_plugins (h_snap h')) k = map_of (sn_plugins (h_snap h)) k"
    "map_of (sn_plugins (h_snap h)) k = Some q \<Longrightarrow> h_sets h' q = h_sets h q"
proof -
  let ?regs = "if reg_Instances reg = [] then AList.delete (reg_Key reg) (h_regs h) else AList.update (reg_Key reg) reg (h_regs h)"
  have d: "distinct (map fst (h_regs h))" and ne: "\<forall>k reg. map_of (h_regs h) k = Some reg \<longrightarrow> reg_Instances reg \<noteq> []"
    using assms(1) by (auto simp: regInv_def)
  have M: "map_of ?regs = (map_of (h_regs h))(reg_Key reg := (if reg_Instances reg = [] then None else Some reg))"
    by (auto simp: update_conv' delete_conv')
  have d': "distinct (map fst ?regs)" using regs_after[OF d] by simp
  have ne': "\<forall>k rg. map_of ?regs k = Some rg \<longrightarrow> reg_Instances rg \<noteq> []"
    unfolding M using ne by auto
  have h': "h' = rebuildLocked (h\<lparr>h_regs := ?regs\<rparr>)" and dis: "displaced = Replicas (h_snap h) (reg_Key reg) h"
    using assms(2) by (auto simp: InstallPlugin_def Let_def)
  note F = rebuildLocked_facts[OF assms(1) d' ne' h']
  show "regInv h'" "displaced = Replicas (h_snap h) (reg_Key reg) h" "h_version h' = h_version h + 1" "h_inst h' = h_inst h"
    "h_filterDefaults h' = h_filterDefaults h" "h_notified h' = h_notified h @ [h_version h + 1]"
    using F dis by auto
  show mr: "map_of (h_regs h') = (map_of (h_regs h))(reg_Key reg := (if reg_Instances reg = [] then None else Some reg))"
    using F(2) M by simp
  show "map_of (sn_plugins (h_snap h)) k = Some q \<Longrightarrow> h_sets h' q = h_sets h q"
    using F(7) regInv_old[OF assms(1)] by blast
  show "map_of (sn_plugins (h_snap h')) k = map_of (sn_plugins (h_snap h)) k" if "k \<noteq> reg_Key reg"
  proof (cases "map_of (h_regs h) k")
    case None
    then have "map_of (h_regs h') k = None" using mr that by simp
    with None show ?thesis using regInv_unrouted[OF assms(1)] regInv_unrouted[OF F(1)] by simp
  next
    case (Some rg)
    then have "map_of ?regs k = Some rg" using M that by simp
    moreover obtain r where "map_of (sn_plugins (h_snap h)) k = Some r" "rs_instances (h_sets h r) = reg_Instances rg"
      using Some assms(1) regInv_reg by metis
    ultimately show ?thesis using F(8) by metis
  qed
qed

lemma regInv_Replicas:
  assumes "regInv h"
  shows "Replicas (h_snap h) k h = (case map_of (h_regs h) k of None \<Rightarrow> [] | Some reg \<Rightarrow> reg_Instances reg)"
proof (cases "map_of (h_regs h) k")
  case None
  then have "map_of (sn_plugins (h_snap h)) k = None" by (rule regInv_unrouted[OF assms])
  with None show ?thesis by (simp add: Replicas_def)
next
  case (Some reg)
  with assms obtain r where "map_of (sn_plugins (h_snap h)) k = Some r" "rs_instances (h_sets h r) = reg_Instances reg"
    by (metis regInv_reg)
  with Some show ?thesis by (simp add: Replicas_def)
qed

text \<open>C19: Installing a plugin publishes exactly the intended change. The displaced instances are
  the ones that served the key; afterwards the key is served by the new ones; every other
  plugin keeps its very replica set, so its round-robin position is not reset; the version
  grows by one and the change is announced once; no instance is touched; and the registry
  invariant, which ties snapshot, registrations and chain together, is preserved.\<close>

theorem InstallPlugin_correct:
  assumes "regInv h" "InstallPlugin reg h = (displaced, h')"
  shows "regInv h' \<and> displaced = Replicas (h_snap h) (reg_Key reg) h \<and>
    Replicas (h_snap h') (reg_Key reg) h' = reg_Instances reg \<and>
    (\<forall>k. k \<noteq> reg_Key reg \<longrightarrow> map_of (sn_plugins (h_snap h')) k = map_of (sn_plugins (h_snap h)) k \<and>
       (\<forall>r. map_of (sn_plugins (h_snap h)) k = Some r \<longrightarrow> h_sets h' r = h_sets h r)) \<and>
    h_version h' = h_version h + 1 \<and> h_notified h' = h_notified h @ [h_version h'] \<and> h_inst h' = h_inst h"
proof -
  note F = InstallPlugin_facts[OF assms]
  have "Replicas (h_snap h') (reg_Key reg) h' = reg_Instances reg"
    using regInv_Replicas[OF F(1), of "reg_Key reg"] F(3) by simp
  with F show ?thesis by simp
qed

definition sampleReg :: Registration where
  "sampleReg = \<lparr>reg_Key = ''b'', reg_Instances = [0, 1], reg_Filters = [sampleCompiled], reg_AllowIdentityMutation = True\<rparr>"

definition sampleHost :: Host where
  "sampleHost = snd (InstallPlugin sampleReg (NewRegistry sampleHeap 5))"

lemma sampleHost_inv: "regInv sampleHost"
  unfolding sampleHost_def by (rule InstallPlugin_facts(1)[OF NewRegistry_inv prod.collapse[symmetric]])

theorem InstallPlugin_correct_witness:
  "Replicas (h_snap sampleHost) ''b'' sampleHost = [0, 1]"
  using InstallPlugin_correct[OF NewRegistry_inv[of sampleHeap 5] prod.collapse[symmetric], of sampleReg]
  by (simp add: sampleHost_def sampleReg_def)

section \<open>The published chain\<close>

lemma chainFor_owner:
  assumes "f \<in> set (Filters (chainFor regs d) ph)" "distinct (map fst regs)"
  shows "\<exists>reg. map_of regs (fl_PluginKey f) = Some reg \<and> fl_match f \<in> set (reg_Filters reg) \<and>
    fl_AllowIdentityMutation f = reg_AllowIdentityMutation reg"
proof (cases "BuildChain (pluginFilters regs) d")
  case (Inl e)
  with assms(1) show ?thesis by (simp add: chainFor_def Filters_def EmptyChain_def)
next
  case (Inr c)
  then have "c = sortPhases (chainOf (allFilters (fillDefaults d) (pluginFilters regs)))" by (simp add: BuildChain_iff)
  with assms(1) Inr have "f \<in> set (allFilters (fillDefaults d) (pluginFilters regs))"
    by (simp add: chainFor_def Filters_def sortPhases_def chainOf_def)
  then obtain k reg cf where "(k, reg) \<in> set regs" "cf \<in> set (reg_Filters reg)" "fl_PluginKey f = k"
    "fl_match f = cf" "fl_AllowIdentityMutation f = reg_AllowIdentityMutation reg"
    by (auto simp: allFilters_def pluginFilters_def mkFilter_def)
  with assms(2) show ?thesis by (auto simp: map_of_eq_Some_iff)
qed

text \<open>Every filter a request can meet belongs to a plugin that is registered in the snapshot
  it read, is one of the filters that plugin was registered with, and may change identities
  only if that registration allows it.\<close>

theorem chain_owned:
  assumes "regInv h" "f \<in> set (Filters (sn_chain (h_snap h)) ph)"
  shows "Has (h_snap h) (fl_PluginKey f) \<and>
    (\<exists>reg. map_of (h_regs h) (fl_PluginKey f) = Some reg \<and> fl_match f \<in> set (reg_Filters reg) \<and>
       fl_AllowIdentityMutation f = reg_AllowIdentityMutation reg)"
proof -
  from assms have "f \<in> set (Filters (chainFor (h_regs h) (h_filterDefaults h)) ph)" "distinct (map fst (h_regs h))"
    by (simp_all add: regInv_def)
  from chainFor_owner[OF this] obtain reg where reg: "map_of (h_regs h) (fl_PluginKey f) = Some reg"
    "fl_match f \<in> set (reg_Filters reg)" "fl_AllowIdentityMutation f = reg_AllowIdentityMutation reg" by blast
  from regInv_reg[OF assms(1) reg(1)] have "Has (h_snap h) (fl_PluginKey f)" by (metis Has_def option.simps(3))
  with reg show ?thesis by blast
qed

lemma sampleHost_chain:
  "sn_chain (h_snap sampleHost) = sortPhases (chainOf (allFilters (fillDefaults DefaultDefaults)
     [\<lparr>pf_Key = ''b'', pf_Filters = [sampleCompiled], pf_AllowIdentityMutation = True\<rparr>]))"
proof -
  have R: "regInv sampleHost" by (rule sampleHost_inv)
  have "h_regs sampleHost = [(''b'', sampleReg)]" "h_filterDefaults sampleHost = DefaultDefaults"
    by (simp_all add: sampleHost_def InstallPlugin_def rebuildLocked_def publishLocked_def placeSet_def NewRegistry_def
        emptySnapshot_def sampleReg_def Let_def)
  with R have "sn_chain (h_snap sampleHost) = chainFor [(''b'', sampleReg)] DefaultDefaults" by (simp add: regInv_def)
  moreover have "BuildChain (pluginFilters [(''b'', sampleReg)]) DefaultDefaults =
      Inr (sortPhases (chainOf (allFilters (fillDefaults DefaultDefaults) (pluginFilters [(''b'', sampleReg)]))))"
    by (simp add: BuildChain_iff phaseKnown_def pluginFilters_def sampleReg_def sampleCompiled_def sampleFilter_def allFilters_def
      mkFilter_def phaseFromName_known knownPhases_def PhaseAuthenticate_def)
  ultimately show ?thesis by (simp add: chainFor_def pluginFilters_def sampleReg_def)
qed

theorem chain_owned_witness:
  "\<exists>f ph. f \<in> set (Filters (sn_chain (h_snap sampleHost)) ph) \<and> Has (h_snap sampleHost) (fl_PluginKey f)"
proof -
  let ?f = "mkFilter (fillDefaults DefaultDefaults) \<lparr>pf_Key = ''b'', pf_Filters = [sampleCompiled], pf_AllowIdentityMutation = True\<rparr> sampleCompiled"
  have "?f \<in> set (Filters (sn_chain (h_snap sampleHost)) PHASE_AUTHENTICATE)"
    by (simp add: sampleHost_chain Filters_def sortPhases_def chainOf_def allFilters_def inPhase_def mkFilter_def
        sampleCompiled_def sampleFilter_def phaseFromName_def PhaseAuthenticate_def PhasePreRoute_def)
  with chain_owned[OF sampleHost_inv this] show ?thesis by blast
qed

text \<open>A removed plugin is gone from the next snapshot altogether: it is not routable, nothing
  can be picked for it, no phase holds a filter of it, and its instances are handed to the
  caller for draining.\<close>

theorem Remove_gone:
  assumes "regInv h" "Remove key h = (displaced, h')"
  shows "\<not> Has (h_snap h') key \<and> fst (RegistryTarget key h') = None \<and>
    (\<forall>ph. \<forall>f \<in> set (Filters (sn_chain (h_snap h')) ph). fl_PluginKey f \<noteq> key) \<and>
    displaced = Replicas (h_snap h) key h"
proof -
  let ?r = "\<lparr>reg_Key = key, reg_Instances = [], reg_Filters = [], reg_AllowIdentityMutation = False\<rparr>"
  note F = InstallPlugin_facts[OF assms(1) assms(2)[unfolded Remove_def]]
  have none: "map_of (h_regs h') key = None" using F(3) by simp
  have "map_of (sn_plugins (h_snap h')) key = None" by (rule regInv_unrouted[OF F(1) none])
  moreover have "fl_PluginKey f \<noteq> key" if "f \<in> set (Filters (sn_chain (h_snap h')) ph)" for f ph
  proof
    assume "fl_PluginKey f = key"
    have "f \<in> set (Filters (chainFor (h_regs h') (h_filterDefaults h')) ph)" "distinct (map fst (h_regs h'))"
      using F(1) that by (simp_all add: regInv_def)
    from chainFor_owner[OF this] \<open>fl_PluginKey f = key\<close> none show False by simp
  qed
  ultimately show ?thesis using F(2) by (simp add: Has_def RegistryTarget_def Pick_def)
qed

theorem Remove_gone_witness:
  "\<not> Has (h_snap (snd (Remove ''b'' sampleHost))) ''b'' \<and> fst (Remove ''b'' sampleHost) = [0, 1]"
proof -
  have "Replicas (h_snap sampleHost) ''b'' sampleHost = [0, 1]"
    using regInv_Replicas[OF sampleHost_inv, of "''b''"]
      InstallPlugin_facts(3)[OF NewRegistry_inv[of sampleHeap 5] prod.collapse[symmetric], of sampleReg]
    by (simp add: sampleHost_def sampleReg_def)
  with Remove_gone[OF sampleHost_inv prod.collapse[symmetric], of "''b''"] show ?thesis by simp
qed

section \<open>The pipeline on this host\<close>

text \<open>\<open>reply\<close> is what a plugin process answers to a filter call.\<close>

definition updInst :: "nat \<Rightarrow> Instance \<Rightarrow> Host \<Rightarrow> Host" where
  "updInst a i h = h\<lparr>h_inst := (h_inst h)(a := i)\<rparr>"

definition hostOps :: "(nat \<Rightarrow> int \<Rightarrow> FilterRequest \<Rightarrow> Host \<Rightarrow> string + FilterResponse) \<Rightarrow> (nat, nat, Host) TargetOps" where
  "hostOps reply =
     \<lparr>op_Target = RegistryTarget,
      op_Filter = (\<lambda>a d q h. (reply a d q h, h)),
      op_Allow = (\<lambda>a h. case InstAllow (h_now h) (h_inst h a) of (ok, i) \<Rightarrow> (ok, updInst a i h)),
      op_RecordSuccess = (\<lambda>a h. updInst a (InstRecordSuccess (h_inst h a)) h),
      op_RecordFailure = (\<lambda>a h. updInst a (InstRecordFailure (h_now h) (h_inst h a)) h),
      op_Begin = (\<lambda>a h. case BeginRequest (h_inst h a) of (ok, i) \<Rightarrow> (if ok then Some a else None, updInst a i h)),
      op_Release = (\<lambda>a h. updInst a (snd (endRequest False (h_inst h a))) h),
      op_Now = h_now\<rparr>"

definition inFlightOf :: "Host \<Rightarrow> nat \<Rightarrow> int" where
  "inFlightOf h a = in_inflight (h_inst h a)"

lemma Pick_inst: "Pick s k h = (p, h') \<Longrightarrow> h_inst h' = h_inst h"
  by (auto simp: Pick_def split: option.splits prod.splits)

interpretation ho: target_ops "hostOps reply" inFlightOf for reply
proof (unfold_locales, goal_cases)
  case (1 t w r w')
  then show ?case by (auto simp: hostOps_def inFlightOf_def updInst_def BeginRequest_iff split: prod.splits if_splits)
next
  case (2 t w w')
  then show ?case by (auto simp: hostOps_def inFlightOf_def updInst_def BeginRequest_iff split: prod.splits if_splits)
next
  case (3 w r)
  then show ?case by (auto simp: hostOps_def inFlightOf_def updInst_def endRequest_def)
next
  case (4 k w x w')
  then have "h_inst w' = h_inst w" by (auto simp: hostOps_def RegistryTarget_def dest: Pick_inst)
  then show ?case by (auto simp: inFlightOf_def)
next
  case (5 t w ok w')
  then show ?case by (auto simp: hostOps_def inFlightOf_def updInst_def InstAllow_def split: prod.splits)
qed (auto simp: hostOps_def inFlightOf_def updInst_def InstRecordSuccess_def InstRecordFailure_def)

text \<open>A request never leaks capacity. Whatever the plugins answer and whichever filters ran,
  once a phase has run and the request has released its admissions, the in-flight count of
  every instance is what it was before; and a request holds at most one admission per
  plugin, however many of its filters it met.\<close>

theorem admissions_balanced:
  assumes "Run (hostOps reply) (Some c) ph st = (res, st1)" "rc_admissions (rs_rc st) = []"
    "ReleaseAdmissions (op_Release (hostOps reply)) (rs_rc st1) (rs_world st1) = (rc2, h2)"
  shows "(\<forall>a. in_inflight (h_inst h2 a) = in_inflight (h_inst (rs_world st) a)) \<and> rc_admissions rc2 = [] \<and>
    distinct (map fst (rc_admissions (rs_rc st1)))"
  using ho.run_and_release[OF assms] by (auto simp: inFlightOf_def fun_eq_iff)

definition sampleHostState :: "(nat, Host) RunState" where
  "sampleHostState = \<lparr>rs_rc = NewRequestContext ''t'' ''GET'' ''/api/x'' [] [] ''1.2.3.4'' 0,
     rs_world = sampleHost, rs_reports = []\<rparr>"

theorem admissions_balanced_witness:
  "\<exists>st1 rc2 h2. Run (hostOps (\<lambda>_ _ _ _. Inr answerContinue)) (Some (sn_chain (h_snap sampleHost))) PHASE_AUTHENTICATE sampleHostState = (None, st1) \<and>
     map fst (rc_admissions (rs_rc st1)) = [''b''] \<and>
     ReleaseAdmissions (op_Release (hostOps (\<lambda>_ _ _ _. Inr answerContinue))) (rs_rc st1) (rs_world st1) = (rc2, h2) \<and>
     in_inflight (h_inst h2 0) = 0"
proof -
  let ?ops = "hostOps (\<lambda>_ _ _ _. Inr answerContinue)"
  let ?run = "Run ?ops (Some (sn_chain (h_snap sampleHost))) PHASE_AUTHENTICATE sampleHostState"
  let ?rel = "ReleaseAdmissions (op_Release ?ops) (rs_rc (snd ?run)) (rs_world (snd ?run))"
  have "fst ?run = None" by code_simp
  then have run: "?run = (None, snd ?run)" by (metis prod.collapse)
  have adm: "map fst (rc_admissions (rs_rc (snd ?run))) = [''b'']" by code_simp
  have "rc_admissions (rs_rc sampleHostState) = []" by (simp add: sampleHostState_def NewRequestContext_def)
  from admissions_balanced[OF run this prod.collapse[symmetric]]
  have "in_inflight (h_inst (snd ?rel) 0) = in_inflight (h_inst (rs_world sampleHostState) 0)" by blast
  moreover have "in_inflight (h_inst (rs_world sampleHostState) 0) = 0" by code_simp
  ultimately show ?thesis using run adm by (metis prod.collapse)
qed

end
