(* ===== verification/Supervisor.thy ===== *)
theory Supervisor
  imports Registry
begin

text \<open>
  Crash recovery (\<^verbatim>\<open>src/core/pluginhost/supervisor.go\<close>): the crash counter, the backoff, and the
  restart policy. \<open>recover\<close> calls itself after a failed relaunch, and whether it ends depends on
  the clock and on the plugin, so it runs over a script of attempts, one per call, each with
  what the environment did: the clock, whether the wait was interrupted, what other actors
  did to the registry meanwhile, and what the relaunch returned. The outcome \<open>StillTrying\<close>
  means the script ended first; that it is not needed for a plugin that keeps failing is
  a theorem.
\<close>

section \<open>Model\<close>

definition minute :: int where "minute = 60 * second"

record SupervisorConfig =
  sc_PollInterval :: int
  sc_InitialBackoff :: int
  sc_MaxBackoff :: int
  sc_CrashThreshold :: int
  sc_CrashWindow :: int

definition DefaultSupervisorConfig :: SupervisorConfig where
  "DefaultSupervisorConfig = \<lparr>sc_PollInterval = second, sc_InitialBackoff = second, sc_MaxBackoff = minute,
     sc_CrashThreshold = 5, sc_CrashWindow = 5 * minute\<rparr>"

record crashRecord =
  cr_count :: int
  cr_firstAt :: int

record Supervisor =
  su_cfg :: SupervisorConfig
  su_crashes :: "(string, crashRecord) gomap"
  su_quarantined :: "(string, int) gomap"
  su_watched :: "nat list"
  su_host :: Host

definition NewSupervisor :: "Host \<Rightarrow> SupervisorConfig \<Rightarrow> Supervisor" where
  "NewSupervisor reg cfg =
     \<lparr>su_cfg = \<lparr>sc_PollInterval = (if sc_PollInterval cfg \<le> 0 then second else sc_PollInterval cfg),
        sc_InitialBackoff = (if sc_InitialBackoff cfg \<le> 0 then second else sc_InitialBackoff cfg),
        sc_MaxBackoff = (if sc_MaxBackoff cfg \<le> 0 then minute else sc_MaxBackoff cfg),
        sc_CrashThreshold = (if sc_CrashThreshold cfg \<le> 0 then 5 else sc_CrashThreshold cfg),
        sc_CrashWindow = (if sc_CrashWindow cfg \<le> 0 then 5 * minute else sc_CrashWindow cfg)\<rparr>,
      su_crashes = [], su_quarantined = [], su_watched = [], su_host = reg\<rparr>"

definition Watch :: "nat \<Rightarrow> Supervisor \<Rightarrow> Supervisor" where
  "Watch a s = s\<lparr>su_watched := su_watched s @ [a]\<rparr>"

definition isUnexpected :: "nat \<Rightarrow> Supervisor \<Rightarrow> bool" where
  "isUnexpected a s =
     (let h = su_host s
      in case in_state (h_inst h a) of
           StateDraining \<Rightarrow> False | StateStopped \<Rightarrow> False | StateQuarantined \<Rightarrow> False
         | _ \<Rightarrow> a \<in> set (Replicas (h_snap h) (in_Key (h_inst h a)) h))"

definition tooManyCrashes :: "string \<Rightarrow> int \<Rightarrow> Supervisor \<Rightarrow> bool \<times> Supervisor" where
  "tooManyCrashes key now s =
     (let fresh = (False, s\<lparr>su_crashes := AList.update key \<lparr>cr_count = 1, cr_firstAt = now\<rparr> (su_crashes s)\<rparr>)
      in case map_of (su_crashes s) key of
           None \<Rightarrow> fresh
         | Some rec \<Rightarrow>
             if now - cr_firstAt rec > sc_CrashWindow (su_cfg s) then fresh
             else let n = cr_count rec + 1
                  in (n \<ge> sc_CrashThreshold (su_cfg s),
                      s\<lparr>su_crashes := AList.update key (rec\<lparr>cr_count := n\<rparr>) (su_crashes s)\<rparr>))"

fun backoffLoop :: "nat \<Rightarrow> int \<Rightarrow> int \<Rightarrow> int" where
  "backoffLoop 0 backoff mx = backoff"
| "backoffLoop (Suc n) backoff mx =
     (let b = wrap64 (backoff * 2) in if b \<ge> mx then mx else backoffLoop n b mx)"

definition backoffFor :: "string \<Rightarrow> Supervisor \<Rightarrow> int" where
  "backoffFor key s =
     (let n = (case map_of (su_crashes s) key of None \<Rightarrow> 1 | Some rec \<Rightarrow> cr_count rec)
      in backoffLoop (nat (n - 1)) (sc_InitialBackoff (su_cfg s)) (sc_MaxBackoff (su_cfg s)))"

definition ClearCrashes :: "string \<Rightarrow> Supervisor \<Rightarrow> Supervisor" where
  "ClearCrashes key s = s\<lparr>su_crashes := AList.delete key (su_crashes s), su_quarantined := AList.delete key (su_quarantined s)\<rparr>"

definition QuarantinedSince :: "string \<Rightarrow> Supervisor \<Rightarrow> int option" where
  "QuarantinedSince key s = map_of (su_quarantined s) key"

datatype relaunchRes = RelaunchDisabled | RelaunchErr | RelaunchOk nat

record attempt =
  at_now :: int
  at_interrupted :: bool
  at_env :: "Host \<Rightarrow> Host"
  at_relaunch :: "Host \<Rightarrow> relaunchRes \<times> Host"

datatype outcome = Quarantined | Interrupted | Unregistered | Disabled | Restarted nat | StillTrying

definition quarantineInst :: "nat \<Rightarrow> Host \<Rightarrow> Host" where
  "quarantineInst a h = updInst a (Kill (MarkQuarantined (h_inst h a))) h"

fun recover :: "string \<Rightarrow> attempt list \<Rightarrow> Supervisor \<Rightarrow> outcome \<times> Supervisor" where
  "recover key [] s = (StillTrying, s)"
| "recover key (a # as) s =
     (case tooManyCrashes key (at_now a) s of
        (True, s1) \<Rightarrow>
          (let s2 = s1\<lparr>su_quarantined := AList.update key (at_now a) (su_quarantined s1)\<rparr>
           in case Remove key (su_host s2) of (displaced, h1) \<Rightarrow>
                (Quarantined, s2\<lparr>su_host := fold quarantineInst displaced h1\<rparr>))
      | (False, s1) \<Rightarrow>
          if at_interrupted a then (Interrupted, s1)
          else let s2 = s1\<lparr>su_host := at_env a (su_host s1)\<rparr>
               in if \<not> Has (h_snap (su_host s2)) key then (Unregistered, s2)
                  else (case at_relaunch a (su_host s2) of
                          (RelaunchDisabled, h1) \<Rightarrow> (Disabled, s2\<lparr>su_host := h1\<rparr>)
                        | (RelaunchErr, h1) \<Rightarrow> recover key as (s2\<lparr>su_host := h1\<rparr>)
                        | (RelaunchOk i, h1) \<Rightarrow>
                            (case Install key [i] h1 of (_, h2) \<Rightarrow>
                               (Restarted i, Watch i (s2\<lparr>su_host := h2\<rparr>)))))"

datatype tick = KeepWatching | StopWatching | Recovered outcome

definition watchTick :: "nat \<Rightarrow> attempt list \<Rightarrow> Supervisor \<Rightarrow> tick \<times> Supervisor" where
  "watchTick a as s =
     (let h = su_host s
      in if \<not> ProcessExited (h_inst h a) then (KeepWatching, s)
         else if \<not> isUnexpected a s then (StopWatching, s)
         else let s1 = s\<lparr>su_host := updInst a (MarkFailed (h_inst h a)) h\<rparr>
              in case recover (in_Key (h_inst h a)) as s1 of (r, s2) \<Rightarrow> (Recovered r, s2))"

section \<open>Counting crashes\<close>

fun crashMany :: "string \<Rightarrow> int list \<Rightarrow> Supervisor \<Rightarrow> bool list \<times> Supervisor" where
  "crashMany key [] s = ([], s)"
| "crashMany key (t # ts) s =
     (case tooManyCrashes key t s of (b, s1) \<Rightarrow> (case crashMany key ts s1 of (bs, s2) \<Rightarrow> (b # bs, s2)))"

lemma tooManyCrashes_cfg: "tooManyCrashes key t s = (b, s') \<Longrightarrow> su_cfg s' = su_cfg s \<and> su_host s' = su_host s"
  by (auto simp: tooManyCrashes_def Let_def split: option.splits if_splits)

lemma tooManyCrashes_next:
  assumes "map_of (su_crashes s) key = Some \<lparr>cr_count = n, cr_firstAt = t0\<rparr>" "t - t0 \<le> sc_CrashWindow (su_cfg s)"
    "tooManyCrashes key t s = (b, s')"
  shows "b = (n + 1 \<ge> sc_CrashThreshold (su_cfg s))" "map_of (su_crashes s') key = Some \<lparr>cr_count = n + 1, cr_firstAt = t0\<rparr>"
  using assms by (auto simp: tooManyCrashes_def Let_def update_conv')

lemma crashMany_window:
  assumes "map_of (su_crashes s) key = Some \<lparr>cr_count = int n, cr_firstAt = t0\<rparr>"
    "\<forall>t \<in> set ts. t - t0 \<le> sc_CrashWindow (su_cfg s)" "j < length ts"
  shows "fst (crashMany key ts s) ! j = (int (n + j) + 1 \<ge> sc_CrashThreshold (su_cfg s))"
  using assms
proof (induction ts arbitrary: s n j)
  case (Cons t ts)
  obtain b s1 where c: "tooManyCrashes key t s = (b, s1)" by (cases "tooManyCrashes key t s")
  have cfg: "su_cfg s1 = su_cfg s" using tooManyCrashes_cfg[OF c] by simp
  have b: "b = (int n + 1 \<ge> sc_CrashThreshold (su_cfg s))"
    and m: "map_of (su_crashes s1) key = Some \<lparr>cr_count = int (Suc n), cr_firstAt = t0\<rparr>"
    using tooManyCrashes_next[OF Cons.prems(1) _ c] Cons.prems(2) by (auto simp: add.commute)
  show ?case
  proof (cases j)
    case 0
    with c b show ?thesis by (simp split: prod.splits)
  next
    case (Suc i)
    with Cons.IH[OF m, of i] Cons.prems(2,3) c cfg show ?thesis by (auto split: prod.splits)
  qed
qed simp

text \<open>Crashes are counted per plugin in a window that opens at its first crash. From a clean
  history, the crash with index \<open>j\<close> of a run that stays inside the window is reported as
  too many exactly when it is not the first and \<open>j + 1\<close> reaches the threshold; with a
  threshold of one, quarantine therefore takes two crashes.\<close>

theorem crash_threshold:
  assumes "map_of (su_crashes s) key = None" "\<forall>t \<in> set ts. t - t0 \<le> sc_CrashWindow (su_cfg s)" "j < length (t0 # ts)"
  shows "fst (crashMany key (t0 # ts) s) ! j \<longleftrightarrow> 0 < j \<and> int j + 1 \<ge> sc_CrashThreshold (su_cfg s)"
proof -
  obtain s1 where s1: "tooManyCrashes key t0 s = (False, s1)"
    and m: "map_of (su_crashes s1) key = Some \<lparr>cr_count = int 1, cr_firstAt = t0\<rparr>"
    using assms(1) by (auto simp: tooManyCrashes_def Let_def update_conv')
  have cfg: "su_cfg s1 = su_cfg s" using tooManyCrashes_cfg[OF s1] by simp
  show ?thesis
  proof (cases j)
    case 0
    with s1 show ?thesis by (simp split: prod.splits)
  next
    case (Suc i)
    with assms(2,3) s1 cfg crashMany_window[OF m, of ts i] show ?thesis by (auto simp: add.commute split: prod.splits)
  qed
qed

theorem crash_threshold_witness:
  "fst (crashMany ''p'' [0, 1, 2, 3, 4] (NewSupervisor (NewRegistry sampleHeap 0) DefaultSupervisorConfig)) ! 4"
  using crash_threshold[of "NewSupervisor (NewRegistry sampleHeap 0) DefaultSupervisorConfig" "''p''" "[1, 2, 3, 4]" 0 4]
  by (simp add: NewSupervisor_def DefaultSupervisorConfig_def minute_def second_def)

section \<open>Backoff\<close>

lemma backoffLoop_value:
  assumes "0 < b" "b \<le> mx" "2 * mx \<le> maxInt"
  shows "backoffLoop n b mx = min (b * 2 ^ n) mx"
  using assms
proof (induction n arbitrary: b)
  case (Suc n)
  have w: "wrap64 (b * 2) = b * 2" using Suc.prems by (intro wrap64_id) (auto simp: minInt_def)
  show ?case
  proof (cases "b * 2 \<ge> mx")
    case True
    have "b * 2 * 1 \<le> b * 2 * 2 ^ n" using Suc.prems(1) by (intro mult_left_mono) auto
    with True have "mx \<le> b * 2 * 2 ^ n" by linarith
    with True w show ?thesis by (simp add: mult.assoc)
  next
    case False
    with Suc w show ?thesis by (simp add: mult.assoc)
  qed
qed simp

text \<open>The restart delay after \<open>n\<close> crashes doubles from the initial one and never exceeds
  the maximum.\<close>

theorem backoff_doubles:
  assumes "map_of (su_crashes s) key = Some rec" "cr_count rec = int n + 1"
    "0 < sc_InitialBackoff (su_cfg s)" "sc_InitialBackoff (su_cfg s) \<le> sc_MaxBackoff (su_cfg s)" "2 * sc_MaxBackoff (su_cfg s) \<le> maxInt"
  shows "backoffFor key s = min (sc_InitialBackoff (su_cfg s) * 2 ^ n) (sc_MaxBackoff (su_cfg s))"
  using assms backoffLoop_value[OF assms(3-5)] by (simp add: backoffFor_def)

theorem backoff_doubles_witness:
  "backoffFor ''p'' ((NewSupervisor (NewRegistry sampleHeap 0) DefaultSupervisorConfig)
     \<lparr>su_crashes := [(''p'', \<lparr>cr_count = 3, cr_firstAt = 0\<rparr>)]\<rparr>) = 4 * second"
  using backoff_doubles[of "(NewSupervisor (NewRegistry sampleHeap 0) DefaultSupervisorConfig)
     \<lparr>su_crashes := [(''p'', \<lparr>cr_count = 3, cr_firstAt = 0\<rparr>)]\<rparr>" "''p''" "\<lparr>cr_count = 3, cr_firstAt = 0\<rparr>" 2]
  by (simp add: NewSupervisor_def DefaultSupervisorConfig_def minute_def second_def maxInt_def)

section \<open>Quarantine\<close>

text \<open>An attempt at which the plugin fails again: nobody interferes and the relaunch errs.\<close>

definition failsAgain :: "attempt \<Rightarrow> bool" where
  "failsAgain a \<longleftrightarrow> \<not> at_interrupted a \<and> (\<forall>h. at_env a h = h) \<and> (\<forall>h. at_relaunch a h = (RelaunchErr, h))"

lemma fold_quarantine_snap: "h_snap (fold quarantineInst ds h) = h_snap h"
  by (induction ds arbitrary: h) (auto simp: quarantineInst_def updInst_def)

lemma fold_quarantine_state:
  "in_state (h_inst (fold quarantineInst ds h) a) = (if a \<in> set ds then StateQuarantined else in_state (h_inst h a))"
  by (induction ds arbitrary: h)
    (auto simp: quarantineInst_def updInst_def Kill_def MarkQuarantined_def setState_def terminate_state)

lemma recover_fails_again:
  assumes "map_of (su_crashes s) key = Some \<lparr>cr_count = int n, cr_firstAt = t0\<rparr>"
    "list_all failsAgain as" "\<forall>a \<in> set as. at_now a - t0 \<le> sc_CrashWindow (su_cfg s)"
    "sc_CrashThreshold (su_cfg s) \<le> int n + int (length as)" "as \<noteq> []" "regInv (su_host s)" "Has (h_snap (su_host s)) key"
  shows "\<exists>s'. recover key as s = (Quarantined, s') \<and> map_of (su_quarantined s') key \<noteq> None \<and>
    \<not> Has (h_snap (su_host s')) key \<and>
    (\<forall>a \<in> set (Replicas (h_snap (su_host s)) key (su_host s)). in_state (h_inst (su_host s') a) = StateQuarantined)"
  using assms
proof (induction as arbitrary: s n)
  case (Cons a as)
  obtain b s1 where c: "tooManyCrashes key (at_now a) s = (b, s1)" by (cases "tooManyCrashes key (at_now a) s")
  have same: "su_cfg s1 = su_cfg s" "su_host s1 = su_host s" using tooManyCrashes_cfg[OF c] by auto
  have b: "b = (int n + 1 \<ge> sc_CrashThreshold (su_cfg s))"
    and m: "map_of (su_crashes s1) key = Some \<lparr>cr_count = int (Suc n), cr_firstAt = t0\<rparr>"
    using tooManyCrashes_next[OF Cons.prems(1) _ c] Cons.prems(3) by (auto simp: add.commute)
  show ?case
  proof (cases b)
    case True
    obtain ds h1 where rm: "Remove key (su_host s) = (ds, h1)" by (cases "Remove key (su_host s)")
    have inst: "InstallPlugin \<lparr>reg_Key = key, reg_Instances = [], reg_Filters = [], reg_AllowIdentityMutation = False\<rparr> (su_host s) = (ds, h1)"
      using rm by (simp add: Remove_def)
    note F = InstallPlugin_facts[OF Cons.prems(6) inst]
    have "map_of (h_regs h1) key = None" using F(3) by simp
    then have "map_of (sn_plugins (h_snap h1)) key = None" by (rule regInv_unrouted[OF F(1)])
    then have "\<not> Has (h_snap h1) key" by (simp add: Has_def)
    with True c same rm F(2) show ?thesis
      by (auto simp: fold_quarantine_snap fold_quarantine_state update_conv' Let_def)
  next
    case False
    have a: "failsAgain a" and as: "list_all failsAgain as" using Cons.prems(2) by auto
    have ne: "as \<noteq> []" using False b Cons.prems(4) by auto
    have "recover key (a # as) s = recover key as s1"
      using False c a Cons.prems(7) by (simp add: failsAgain_def Let_def same(2) [symmetric])
    moreover have "\<exists>s'. recover key as s1 = (Quarantined, s') \<and> map_of (su_quarantined s') key \<noteq> None \<and>
        \<not> Has (h_snap (su_host s')) key \<and>
        (\<forall>a \<in> set (Replicas (h_snap (su_host s1)) key (su_host s1)). in_state (h_inst (su_host s') a) = StateQuarantined)"
      using Cons.prems same ne by (intro Cons.IH[OF m as]) auto
    ultimately show ?thesis using same by simp
  qed
qed simp

text \<open>C38: A plugin that cannot start is not restarted forever. If it has crashed once and every
  relaunch fails within the crash window, then after at most as many attempts as the
  threshold recovery ends in quarantine: the reason is recorded, the plugin is out of the
  routing table, and all its replicas are in the quarantined state.\<close>

theorem crash_loop_quarantined:
  assumes "map_of (su_crashes s) key = Some \<lparr>cr_count = 1, cr_firstAt = t0\<rparr>"
    "list_all failsAgain as" "\<forall>a \<in> set as. at_now a - t0 \<le> sc_CrashWindow (su_cfg s)"
    "sc_CrashThreshold (su_cfg s) \<le> 1 + int (length as)" "as \<noteq> []" "regInv (su_host s)" "Has (h_snap (su_host s)) key"
  shows "\<exists>s'. recover key as s = (Quarantined, s') \<and> QuarantinedSince key s' \<noteq> None \<and>
    \<not> Has (h_snap (su_host s')) key \<and>
    (\<forall>a \<in> set (Replicas (h_snap (su_host s)) key (su_host s)). in_state (h_inst (su_host s') a) = StateQuarantined)"
  using recover_fails_again[of s key 1 t0 as] assms by (simp add: QuarantinedSince_def)

definition sampleAttempt :: attempt where
  "sampleAttempt = \<lparr>at_now = 7, at_interrupted = False, at_env = (\<lambda>h. h), at_relaunch = (\<lambda>h. (RelaunchErr, h))\<rparr>"

definition sampleSup :: Supervisor where
  "sampleSup = (NewSupervisor sampleHost DefaultSupervisorConfig)
     \<lparr>su_crashes := [(''b'', \<lparr>cr_count = 1, cr_firstAt = 5\<rparr>)]\<rparr>"

lemma sampleHost_has: "Has (h_snap sampleHost) ''b''"
  by code_simp

theorem crash_loop_quarantined_witness:
  "\<exists>s'. recover ''b'' (replicate 4 sampleAttempt) sampleSup = (Quarantined, s') \<and> \<not> Has (h_snap (su_host s')) ''b''"
  using crash_loop_quarantined[of sampleSup "''b''" 5 "replicate 4 sampleAttempt"] sampleHost_inv sampleHost_has
  by (auto simp: sampleSup_def sampleAttempt_def NewSupervisor_def DefaultSupervisorConfig_def failsAgain_def
      minute_def second_def list_all_iff)

section \<open>What a restart registers\<close>

text \<open>A crash restart loses the plugin's filters. When recovery installs the relaunched
  instance, the registration it replaces takes the declared filters with it: the plugin is
  routable again, but no phase of the published chain holds a filter of it, fail-closed
  ones included. The other replicas are displaced at the same time, and none of them is
  drained or stopped.\<close>

theorem restart_drops_filters:
  assumes "regInv (su_host s)" "\<not> fst (tooManyCrashes key (at_now a) s)" "\<not> at_interrupted a" "\<forall>h. at_env a h = h"
    "at_relaunch a (su_host s) = (RelaunchOk i, su_host s)" "Has (h_snap (su_host s)) key"
  shows "\<exists>s'. recover key (a # as) s = (Restarted i, s') \<and>
    Replicas (h_snap (su_host s')) key (su_host s') = [i] \<and>
    (\<forall>ph. \<forall>f \<in> set (Filters (sn_chain (h_snap (su_host s'))) ph). fl_PluginKey f \<noteq> key) \<and>
    h_inst (su_host s') = h_inst (su_host s)"
proof -
  let ?r = "\<lparr>reg_Key = key, reg_Instances = [i], reg_Filters = [], reg_AllowIdentityMutation = False\<rparr>"
  obtain s1 where c: "tooManyCrashes key (at_now a) s = (False, s1)"
    using assms(2) by (cases "tooManyCrashes key (at_now a) s") auto
  have same: "su_host s1 = su_host s" using tooManyCrashes_cfg[OF c] by auto
  obtain ds h2 where inst: "InstallPlugin ?r (su_host s) = (ds, h2)" by (cases "InstallPlugin ?r (su_host s)")
  note F = InstallPlugin_facts[OF assms(1) inst]
  have rec: "recover key (a # as) s = (Restarted i, Watch i (s1\<lparr>su_host := h2\<rparr>))"
    using c same assms(3-6) inst by (simp add: Install_def Let_def)
  have reg: "map_of (h_regs h2) key = Some ?r" using F(3) by simp
  have "fl_PluginKey f \<noteq> key" if "f \<in> set (Filters (sn_chain (h_snap h2)) ph)" for f ph
  proof
    assume "fl_PluginKey f = key"
    have "f \<in> set (Filters (chainFor (h_regs h2) (h_filterDefaults h2)) ph)" "distinct (map fst (h_regs h2))"
      using F(1) that by (simp_all add: regInv_def)
    from chainFor_owner[OF this] \<open>fl_PluginKey f = key\<close> reg show False by simp
  qed
  moreover have "Replicas (h_snap h2) key h2 = [i]" using regInv_Replicas[OF F(1), of key] reg by simp
  ultimately show ?thesis using rec F(5) by (auto simp: Watch_def)
qed

theorem restart_drops_filters_witness:
  "(\<exists>f \<in> set (Filters (sn_chain (h_snap sampleHost)) PHASE_AUTHENTICATE). fl_PluginKey f = ''b'' \<and> fd_FailClosed (fl_Decl f)) \<and>
   (\<exists>s'. recover ''b'' [sampleAttempt\<lparr>at_relaunch := (\<lambda>h. (RelaunchOk 7, h))\<rparr>] (NewSupervisor sampleHost DefaultSupervisorConfig) =
        (Restarted 7, s') \<and>
      (\<forall>f \<in> set (Filters (sn_chain (h_snap (su_host s'))) PHASE_AUTHENTICATE). fl_PluginKey f \<noteq> ''b''))"
proof
  show "\<exists>f \<in> set (Filters (sn_chain (h_snap sampleHost)) PHASE_AUTHENTICATE). fl_PluginKey f = ''b'' \<and> fd_FailClosed (fl_Decl f)"
    by code_simp
  let ?s = "NewSupervisor sampleHost DefaultSupervisorConfig"
  let ?a = "sampleAttempt\<lparr>at_relaunch := (\<lambda>h. (RelaunchOk 7, h))\<rparr>"
  have h: "su_host ?s = sampleHost" by (simp add: NewSupervisor_def)
  have "\<not> fst (tooManyCrashes ''b'' (at_now ?a) ?s)" by (simp add: tooManyCrashes_def NewSupervisor_def Let_def)
  with restart_drops_filters[of ?s "''b''" ?a 7 "[]"] h sampleHost_inv sampleHost_has
  show "\<exists>s'. recover ''b'' [?a] ?s = (Restarted 7, s') \<and>
      (\<forall>f \<in> set (Filters (sn_chain (h_snap (su_host s'))) PHASE_AUTHENTICATE). fl_PluginKey f \<noteq> ''b'')"
    by (auto simp: sampleAttempt_def)
qed

end
