(* ===== verification/Memory.thy ===== *)
theory Memory
  imports Breaker
begin

text \<open>
  The in-process backends of the host services (\<^verbatim>\<open>src/core/hostsvc/memory.go\<close>): the TTL cache with
  its entry cap, the lease-based locks, and the static configuration. Times are nanoseconds,
  with 0 for Go's zero time. The iteration order of the cache's map, which decides what an
  eviction drops, and the random lease ids are arguments.
\<close>

section \<open>Cache\<close>

record cacheEntry =
  ce_value :: bytes
  ce_expiresAt :: int

record MemoryCache =
  mc_entries :: "(string, cacheEntry) gomap"
  mc_maxEntries :: nat

definition DefaultCacheEntries :: nat where "DefaultCacheEntries = 10000"

definition NewMemoryCache :: "int \<Rightarrow> MemoryCache" where
  "NewMemoryCache maxEntries =
     \<lparr>mc_entries = [], mc_maxEntries = (if maxEntries \<le> 0 then DefaultCacheEntries else nat maxEntries)\<rparr>"

definition cacheKey :: "string \<Rightarrow> string \<Rightarrow> string" where
  "cacheKey pluginKey key = pluginKey @ CHR 0x00 # key"

definition expired :: "int \<Rightarrow> int \<Rightarrow> bool" where
  "expired now deadline = (deadline \<noteq> 0 \<and> \<not> now < deadline)"

definition CacheGet :: "int \<Rightarrow> string \<Rightarrow> string \<Rightarrow> MemoryCache \<Rightarrow> bytes option \<times> MemoryCache" where
  "CacheGet now pluginKey key c =
     (case map_of (mc_entries c) (cacheKey pluginKey key) of
        None \<Rightarrow> (None, c)
      | Some e \<Rightarrow>
          if expired now (ce_expiresAt e)
          then (None, c\<lparr>mc_entries := AList.delete (cacheKey pluginKey key) (mc_entries c)\<rparr>)
          else (Some (ce_value e), c))"

text \<open>\<open>order\<close> is the order in which the second loop of an eviction visits the keys.\<close>

definition evictLocked :: "int \<Rightarrow> string list \<Rightarrow> (string, cacheEntry) gomap \<Rightarrow> (string, cacheEntry) gomap" where
  "evictLocked now order entries =
     (let kept = filter (\<lambda>(k, e). \<not> expired now (ce_expiresAt e)) entries;
          freed = length entries - length kept
      in if freed > 0 then kept
         else let target = (if length entries div 10 = 0 then 1 else length entries div 10)
              in fold AList.delete (take target order) entries)"

definition CacheSet :: "int \<Rightarrow> string list \<Rightarrow> string \<Rightarrow> string \<Rightarrow> bytes \<Rightarrow> int \<Rightarrow> MemoryCache \<Rightarrow> MemoryCache" where
  "CacheSet now order pluginKey key value ttl c =
     (let entries = (if length (mc_entries c) \<ge> mc_maxEntries c then evictLocked now order (mc_entries c) else mc_entries c);
          expires = (if ttl > 0 then now + ttl else 0)
      in c\<lparr>mc_entries := AList.update (cacheKey pluginKey key) \<lparr>ce_value = value, ce_expiresAt = expires\<rparr> entries\<rparr>)"

definition CacheDelete :: "string \<Rightarrow> string \<Rightarrow> MemoryCache \<Rightarrow> MemoryCache" where
  "CacheDelete pluginKey key c = c\<lparr>mc_entries := AList.delete (cacheKey pluginKey key) (mc_entries c)\<rparr>"

definition CacheLen :: "MemoryCache \<Rightarrow> nat" where "CacheLen c = length (mc_entries c)"

definition cacheInv :: "MemoryCache \<Rightarrow> bool" where
  "cacheInv c \<longleftrightarrow> distinct (map fst (mc_entries c)) \<and> length (mc_entries c) \<le> mc_maxEntries c \<and> 0 < mc_maxEntries c"

lemma length_update_le: "length (AList.update k v xs) \<le> length xs + 1"
  by (induction xs) auto

lemma length_delete_mem: "k \<in> fst ` set xs \<Longrightarrow> length (AList.delete k xs) < length xs"
  unfolding AList.delete_eq by (auto intro: length_filter_less)

lemma length_delete_le: "length (AList.delete k xs) \<le> length xs"
  by (simp add: AList.delete_eq)

lemma fold_delete_facts:
  "length (fold AList.delete ks xs) \<le> length xs"
  "distinct (map fst xs) \<Longrightarrow> distinct (map fst (fold AList.delete ks xs))"
  "map_of (fold AList.delete ks xs) k = (if k \<in> set ks then None else map_of xs k)"
proof -
  show "length (fold AList.delete ks xs) \<le> length xs"
  proof (induction ks arbitrary: xs)
    case (Cons k ks)
    from Cons.IH[of "AList.delete k xs"] length_delete_le[of k xs] show ?case by simp
  qed simp
  show "distinct (map fst xs) \<Longrightarrow> distinct (map fst (fold AList.delete ks xs))"
    by (induction ks arbitrary: xs) (auto simp: distinct_delete)
  show "map_of (fold AList.delete ks xs) k = (if k \<in> set ks then None else map_of xs k)"
    by (induction ks arbitrary: xs) (auto simp: delete_conv')
qed

text \<open>An eviction frees at least one entry of a non-empty cache and changes no entry it keeps.\<close>

lemma evictLocked_facts:
  assumes "distinct (map fst es)" "set order = fst ` set es"
  shows "distinct (map fst (evictLocked now order es))"
    and "es \<noteq> [] \<Longrightarrow> length (evictLocked now order es) < length es"
    and "map_of (evictLocked now order es) k = None \<or> map_of (evictLocked now order es) k = map_of es k"
proof -
  let ?kept = "filter (\<lambda>(k, e). \<not> expired now (ce_expiresAt e)) es"
  let ?t = "if length es div 10 = 0 then 1 else length es div 10"
  have dk: "distinct (map fst ?kept)" using assms(1) by (metis distinct_map_filter)
  show "distinct (map fst (evictLocked now order es))"
    using dk assms(1) by (auto simp: evictLocked_def Let_def fold_delete_facts(2))
  have "map_of ?kept k = None \<or> map_of ?kept k = map_of es k"
  proof (cases "map_of ?kept k")
    case (Some e)
    then have "(k, e) \<in> set es" by (auto dest!: map_of_SomeD)
    with assms(1) Some show ?thesis by (simp add: map_of_eq_Some_iff)
  qed simp
  then show "map_of (evictLocked now order es) k = None \<or> map_of (evictLocked now order es) k = map_of es k"
    by (auto simp: evictLocked_def Let_def fold_delete_facts(3))
  show "length (evictLocked now order es) < length es" if ne: "es \<noteq> []"
  proof (cases "length ?kept < length es")
    case True
    then show ?thesis by (simp add: evictLocked_def Let_def)
  next
    case False
    have "order \<noteq> []" using ne assms(2) by auto
    then obtain k0 rest where o: "order = k0 # rest" by (cases order) auto
    obtain m where m: "?t = Suc m" by (cases ?t) (auto split: if_splits)
    have "k0 \<in> fst ` set es" using assms(2) o by auto
    then have "length (AList.delete k0 es) < length es" by (rule length_delete_mem)
    then have "length (fold AList.delete (take ?t order) es) < length es"
      unfolding m o using fold_delete_facts(1)[of "take m rest" "AList.delete k0 es"] by simp
    with False show ?thesis by (simp add: evictLocked_def Let_def)
  qed
qed

lemma cacheKey_inj:
  assumes "CHR 0x00 \<notin> set p" "CHR 0x00 \<notin> set q"
  shows "cacheKey p k = cacheKey q l \<longleftrightarrow> p = q \<and> k = l"
  using sep_injective[OF assms] by (auto simp: cacheKey_def)

lemma CacheGet_lookup:
  "fst (CacheGet t q l c) = (case map_of (mc_entries c) (cacheKey q l) of None \<Rightarrow> None
     | Some e \<Rightarrow> if expired t (ce_expiresAt e) then None else Some (ce_value e))"
  by (simp add: CacheGet_def split: option.splits)

text \<open>The cache stays within its cap and plugins cannot touch each other through it. A write
  keeps the number of entries at or below the cap, whatever the eviction drops; what was
  written is read back until it expires; and for any other plugin or key, a read afterwards
  gives what it gave before or a miss, never another value. Plugin keys contain no NUL byte.\<close>

theorem CacheSet_bounded_isolated:
  assumes "cacheInv c" "set order = fst ` set (mc_entries c)" "CHR 0x00 \<notin> set p" "CHR 0x00 \<notin> set q" "0 < now" "now \<le> t"
  shows "cacheInv (CacheSet now order p k v ttl c) \<and>
    fst (CacheGet t p k (CacheSet now order p k v ttl c)) = (if 0 < ttl \<and> now + ttl \<le> t then None else Some v) \<and>
    ((q, l) \<noteq> (p, k) \<longrightarrow>
       fst (CacheGet t q l (CacheSet now order p k v ttl c)) = None \<or>
       fst (CacheGet t q l (CacheSet now order p k v ttl c)) = fst (CacheGet t q l c))"
proof -
  let ?es = "if length (mc_entries c) \<ge> mc_maxEntries c then evictLocked now order (mc_entries c) else mc_entries c"
  let ?e = "\<lparr>ce_value = v, ce_expiresAt = (if ttl > 0 then now + ttl else 0)\<rparr>"
  have d: "distinct (map fst (mc_entries c))" and m: "length (mc_entries c) \<le> mc_maxEntries c" "0 < mc_maxEntries c"
    using assms(1) by (auto simp: cacheInv_def)
  note E = evictLocked_facts[OF d assms(2), of now]
  have S: "mc_entries (CacheSet now order p k v ttl c) = AList.update (cacheKey p k) ?e ?es"
    "mc_maxEntries (CacheSet now order p k v ttl c) = mc_maxEntries c"
    by (simp_all add: CacheSet_def Let_def)
  have "length ?es < mc_maxEntries c"
    using E(2) m by (auto simp: not_le)
  then have "length (AList.update (cacheKey p k) ?e ?es) \<le> mc_maxEntries c"
    using length_update_le[of "cacheKey p k" ?e ?es] by linarith
  moreover have "distinct (map fst (AList.update (cacheKey p k) ?e ?es))"
    using d E(1) by (simp add: distinct_update)
  ultimately have 1: "cacheInv (CacheSet now order p k v ttl c)"
    using S m by (simp add: cacheInv_def)
  have 2: "fst (CacheGet t p k (CacheSet now order p k v ttl c)) = (if 0 < ttl \<and> now + ttl \<le> t then None else Some v)"
    using assms(5,6) by (auto simp: CacheGet_def S update_conv' expired_def)
  have 3: "fst (CacheGet t q l (CacheSet now order p k v ttl c)) = None \<or>
      fst (CacheGet t q l (CacheSet now order p k v ttl c)) = fst (CacheGet t q l c)" if ne: "(q, l) \<noteq> (p, k)"
  proof -
    have "map_of (mc_entries (CacheSet now order p k v ttl c)) (cacheKey q l) = map_of ?es (cacheKey q l)"
      using ne cacheKey_inj[OF assms(4,3), of l k] by (auto simp: S(1) update_conv')
    moreover have "map_of ?es (cacheKey q l) = None \<or> map_of ?es (cacheKey q l) = map_of (mc_entries c) (cacheKey q l)"
      using E(3) by simp
    ultimately show ?thesis unfolding CacheGet_lookup by auto
  qed
  from 1 2 3 show ?thesis by blast
qed

theorem CacheSet_bounded_isolated_witness:
  "fst (CacheGet 5 ''p'' ''k'' (CacheSet 4 [cacheKey ''q'' ''x''] ''p'' ''k'' ''v'' 0
     \<lparr>mc_entries = [(cacheKey ''q'' ''x'', \<lparr>ce_value = ''w'', ce_expiresAt = 0\<rparr>)], mc_maxEntries = 1\<rparr>)) = Some ''v''"
  using CacheSet_bounded_isolated[of "\<lparr>mc_entries = [(cacheKey ''q'' ''x'', \<lparr>ce_value = ''w'', ce_expiresAt = 0\<rparr>)], mc_maxEntries = 1\<rparr>"
      "[cacheKey ''q'' ''x'']" "''p''" "''q''" 4 5 "''k''" "''v''" 0 "''x''"]
  by (simp add: cacheInv_def)

section \<open>Locks\<close>

record lockState =
  lk_leaseID :: string
  lk_expiresAt :: int

record Lease =
  le_ID :: string
  le_ExpiresAt :: int

record MemoryLocks =
  ml_held :: "(string, lockState) gomap"
  ml_MaxHeld :: int
  ml_lastSweep :: int

definition DefaultMaxLocks :: int where "DefaultMaxLocks = 10000"
definition lockSweepInterval :: int where "lockSweepInterval = 30 * second"
definition DefaultLockTTL :: int where "DefaultLockTTL = 30 * second"

definition NewMemoryLocks :: "int \<Rightarrow> MemoryLocks" where
  "NewMemoryLocks now = \<lparr>ml_held = [], ml_MaxHeld = DefaultMaxLocks, ml_lastSweep = now\<rparr>"

definition maxHeld :: "MemoryLocks \<Rightarrow> int" where
  "maxHeld l = (if ml_MaxHeld l > 0 then ml_MaxHeld l else DefaultMaxLocks)"

definition lockKey :: "string \<Rightarrow> string \<Rightarrow> string" where
  "lockKey pluginKey name = pluginKey @ CHR 0x00 # name"

definition Held :: "MemoryLocks \<Rightarrow> nat" where "Held l = length (ml_held l)"

definition sweepExpiredLocked :: "int \<Rightarrow> MemoryLocks \<Rightarrow> MemoryLocks" where
  "sweepExpiredLocked now l =
     (if now - ml_lastSweep l < lockSweepInterval then l
      else l\<lparr>ml_lastSweep := now, ml_held := filter (\<lambda>(k, st). \<not> expired now (lk_expiresAt st)) (ml_held l)\<rparr>)"

definition tryAcquire :: "int \<Rightarrow> string \<Rightarrow> string \<Rightarrow> string \<Rightarrow> int \<Rightarrow> MemoryLocks \<Rightarrow> Lease option \<times> MemoryLocks" where
  "tryAcquire now newID pluginKey name ttl l0 =
     (let k = lockKey pluginKey name;
          l = sweepExpiredLocked now l0;
          cur = map_of (ml_held l) k
      in if (case cur of None \<Rightarrow> False | Some st \<Rightarrow> \<not> expired now (lk_expiresAt st)) then (None, l)
         else if cur = None \<and> maxHeld l > 0 \<and> int (length (ml_held l)) \<ge> maxHeld l then (None, l)
         else (Some \<lparr>le_ID = newID, le_ExpiresAt = now + ttl\<rparr>,
               l\<lparr>ml_held := AList.update k \<lparr>lk_leaseID = newID, lk_expiresAt = now + ttl\<rparr> (ml_held l)\<rparr>))"

text \<open>The polling loop of \<open>Acquire\<close> runs over a script of rounds: the clock and the lease id of the
  attempt, the clock at the deadline check, whether the caller gave up, and what others did
  to the locks while it slept.\<close>

record round =
  ro_now :: int
  ro_newID :: string
  ro_check :: int
  ro_cancelled :: bool
  ro_env :: "MemoryLocks \<Rightarrow> MemoryLocks"

datatype acquired = Acquired Lease | NotAcquired | AcquireCancelled | Polling

fun acquireLoop :: "string \<Rightarrow> string \<Rightarrow> int \<Rightarrow> int \<Rightarrow> int \<Rightarrow> round list \<Rightarrow> MemoryLocks \<Rightarrow> acquired \<times> MemoryLocks" where
  "acquireLoop pluginKey name ttl wait deadline [] l = (Polling, l)"
| "acquireLoop pluginKey name ttl wait deadline (r # rs) l =
     (case tryAcquire (ro_now r) (ro_newID r) pluginKey name ttl l of
        (Some lease, l1) \<Rightarrow> (Acquired lease, l1)
      | (None, l1) \<Rightarrow>
          if wait \<le> 0 \<or> \<not> ro_check r < deadline then (NotAcquired, l1)
          else if ro_cancelled r then (AcquireCancelled, l1)
          else acquireLoop pluginKey name ttl wait deadline rs (ro_env r l1))"

definition Acquire :: "int \<Rightarrow> string \<Rightarrow> string \<Rightarrow> int \<Rightarrow> int \<Rightarrow> round list \<Rightarrow> MemoryLocks \<Rightarrow> acquired \<times> MemoryLocks" where
  "Acquire start pluginKey name ttl wait rs l =
     acquireLoop pluginKey name (if ttl \<le> 0 then DefaultLockTTL else ttl) wait (start + wait) rs l"

definition Renew :: "int \<Rightarrow> string \<Rightarrow> string \<Rightarrow> string \<Rightarrow> int \<Rightarrow> MemoryLocks \<Rightarrow> Lease option \<times> MemoryLocks" where
  "Renew now pluginKey name leaseID ttl0 l =
     (let ttl = (if ttl0 \<le> 0 then DefaultLockTTL else ttl0); k = lockKey pluginKey name
      in case map_of (ml_held l) k of
           None \<Rightarrow> (None, l)
         | Some cur \<Rightarrow>
             if lk_leaseID cur \<noteq> leaseID \<or> expired now (lk_expiresAt cur) then (None, l)
             else (Some \<lparr>le_ID = leaseID, le_ExpiresAt = now + ttl\<rparr>,
                   l\<lparr>ml_held := AList.update k (cur\<lparr>lk_expiresAt := now + ttl\<rparr>) (ml_held l)\<rparr>))"

definition Release :: "string \<Rightarrow> string \<Rightarrow> string \<Rightarrow> MemoryLocks \<Rightarrow> MemoryLocks" where
  "Release pluginKey name leaseID l =
     (case map_of (ml_held l) (lockKey pluginKey name) of
        None \<Rightarrow> l
      | Some cur \<Rightarrow>
          if lk_leaseID cur = leaseID then l\<lparr>ml_held := AList.delete (lockKey pluginKey name) (ml_held l)\<rparr> else l)"

datatype lockOp =
    OpAcquire int string string string int
  | OpRenew int string string string int
  | OpRelease string string string

definition lockStep :: "lockOp \<Rightarrow> MemoryLocks \<Rightarrow> MemoryLocks" where
  "lockStep op l =
     (case op of
        OpAcquire now newID p n ttl \<Rightarrow> snd (tryAcquire now newID p n ttl l)
      | OpRenew now p n lid ttl \<Rightarrow> snd (Renew now p n lid ttl l)
      | OpRelease p n lid \<Rightarrow> Release p n lid l)"

section \<open>What a lease guarantees\<close>

definition locksInv :: "MemoryLocks \<Rightarrow> bool" where
  "locksInv l \<longleftrightarrow> distinct (map fst (ml_held l)) \<and> int (length (ml_held l)) \<le> maxHeld l"

text \<open>The operation leaves the lease alone: it happens before its expiry and nobody presents
  the lease's id for the lock.\<close>

definition leavesAlone :: "string \<Rightarrow> string \<Rightarrow> int \<Rightarrow> lockOp \<Rightarrow> bool" where
  "leavesAlone k leaseID until op =
     (case op of
        OpAcquire now newID p n ttl \<Rightarrow> now < until
      | OpRenew now p n lid ttl \<Rightarrow> \<not> (lockKey p n = k \<and> lid = leaseID)
      | OpRelease p n lid \<Rightarrow> \<not> (lockKey p n = k \<and> lid = leaseID))"

definition holds :: "string \<Rightarrow> string \<Rightarrow> int \<Rightarrow> MemoryLocks \<Rightarrow> bool" where
  "holds k leaseID until l \<longleftrightarrow>
     distinct (map fst (ml_held l)) \<and> map_of (ml_held l) k = Some \<lparr>lk_leaseID = leaseID, lk_expiresAt = until\<rparr> \<and> until \<noteq> 0"

lemma maxHeld_simps [simp]:
  "maxHeld (l\<lparr>ml_held := x\<rparr>) = maxHeld l" "maxHeld (l\<lparr>ml_lastSweep := t\<rparr>) = maxHeld l" "0 < maxHeld l"
  by (simp_all add: maxHeld_def DefaultMaxLocks_def)

lemma map_of_filter_keep:
  "distinct (map fst xs) \<Longrightarrow> map_of xs k = Some v \<Longrightarrow> P (k, v) \<Longrightarrow> map_of (filter P xs) k = Some v"
  by (induction xs) (auto simp: image_iff)

lemma sweep_facts:
  "distinct (map fst (ml_held l)) \<Longrightarrow> distinct (map fst (ml_held (sweepExpiredLocked now l)))"
  "length (ml_held (sweepExpiredLocked now l)) \<le> length (ml_held l)" "maxHeld (sweepExpiredLocked now l) = maxHeld l"
  by (auto simp: sweepExpiredLocked_def distinct_map_filter)

lemma sweep_holds: "holds k lid until l \<Longrightarrow> now < until \<Longrightarrow> holds k lid until (sweepExpiredLocked now l)"
  by (auto simp: holds_def sweepExpiredLocked_def expired_def distinct_map_filter intro!: map_of_filter_keep)

lemma tryAcquire_held:
  assumes "holds (lockKey p n) lid until l" "now < until"
  shows "fst (tryAcquire now newID p n ttl l) = None"
  using sweep_holds[OF assms] assms(2) by (simp add: tryAcquire_def holds_def expired_def Let_def)

lemma lockStep_holds:
  assumes "holds k lid until l" "leavesAlone k lid until op"
  shows "holds k lid until (lockStep op l)"
proof (cases op)
  case (OpAcquire now newID p n ttl)
  have h: "holds k lid until (sweepExpiredLocked now l)" and t: "now < until"
    using assms OpAcquire sweep_holds by (auto simp: leavesAlone_def)
  show ?thesis
  proof (cases "lockKey p n = k")
    case True
    with h t show ?thesis
      by (simp add: OpAcquire lockStep_def tryAcquire_def holds_def expired_def Let_def)
  next
    case False
    with h show ?thesis
      by (auto simp: OpAcquire lockStep_def tryAcquire_def holds_def Let_def update_conv' distinct_update split: option.splits)
  qed
next
  case (OpRenew now p n i ttl)
  with assms show ?thesis
    by (auto simp: lockStep_def Renew_def holds_def leavesAlone_def Let_def update_conv' distinct_update split: option.splits)
next
  case (OpRelease p n i)
  with assms show ?thesis
    by (auto simp: lockStep_def Release_def holds_def leavesAlone_def delete_conv' distinct_delete split: option.splits)
qed

lemma lockSteps_hold:
  "holds k lid until l \<Longrightarrow> list_all (leavesAlone k lid until) ops \<Longrightarrow> holds k lid until (fold lockStep ops l)"
  by (induction ops arbitrary: l) (auto intro: lockStep_holds)

lemma tryAcquire_gives:
  assumes "tryAcquire now newID p n ttl l = (Some lease, l1)" "distinct (map fst (ml_held l))" "0 < now" "0 < ttl"
  shows "holds (lockKey p n) (le_ID lease) (le_ExpiresAt lease) l1"
  using assms sweep_facts(1)[OF assms(2), of now]
  by (auto simp: tryAcquire_def holds_def Let_def update_conv' distinct_update split: if_splits)

text \<open>C37: A lease excludes everyone else until it expires. Once a plugin has acquired a lock,
  then through any further acquisitions, renewals and releases, by any plugin, on any lock,
  as long as nobody presents the lease's own id and the lease has not expired, every attempt
  to acquire that lock is refused. In particular a release or renewal with an older lease id
  cannot take the lock from its new owner.\<close>

theorem lock_exclusive:
  assumes "tryAcquire now newID p n ttl l = (Some lease, l1)" "locksInv l" "0 < now" "0 < ttl"
    "list_all (leavesAlone (lockKey p n) (le_ID lease) (le_ExpiresAt lease)) ops" "t < le_ExpiresAt lease"
  shows "fst (tryAcquire t otherID p n ttl' (fold lockStep ops l1)) = None"
proof -
  have "holds (lockKey p n) (le_ID lease) (le_ExpiresAt lease) l1"
    using tryAcquire_gives[OF assms(1)] assms(2-4) by (simp add: locksInv_def)
  from lockSteps_hold[OF this assms(5)] tryAcquire_held assms(6) show ?thesis by blast
qed

theorem lock_exclusive_witness:
  "fst (tryAcquire 8 ''L2'' ''p'' ''job'' 5
     (fold lockStep [OpRelease ''p'' ''job'' ''old'', OpAcquire 7 ''L3'' ''q'' ''job'' 5]
       (snd (tryAcquire 4 ''L1'' ''p'' ''job'' 6 (NewMemoryLocks 1))))) = None"
proof -
  have a: "tryAcquire 4 ''L1'' ''p'' ''job'' 6 (NewMemoryLocks 1) =
      (Some \<lparr>le_ID = ''L1'', le_ExpiresAt = 10\<rparr>, snd (tryAcquire 4 ''L1'' ''p'' ''job'' 6 (NewMemoryLocks 1)))"
    by (simp add: tryAcquire_def NewMemoryLocks_def sweepExpiredLocked_def lockSweepInterval_def second_def
        maxHeld_def DefaultMaxLocks_def)
  have "locksInv (NewMemoryLocks 1)" by (simp add: locksInv_def NewMemoryLocks_def maxHeld_def DefaultMaxLocks_def)
  with lock_exclusive[OF a, of "[OpRelease ''p'' ''job'' ''old'', OpAcquire 7 ''L3'' ''q'' ''job'' 5]" 8 "''L2''" 5]
  show ?thesis by (simp add: leavesAlone_def)
qed

lemma length_update_mem: "map_of xs k \<noteq> None \<Longrightarrow> length (AList.update k x xs) = length xs"
  by (induction xs) (auto split: if_splits)

lemma sweep_inv: "locksInv l \<Longrightarrow> locksInv (sweepExpiredLocked now l)"
  using sweep_facts(1)[of l now] sweep_facts(2,3)[of now l] by (simp add: locksInv_def)

lemma locksInv_update:
  assumes "locksInv l" "map_of (ml_held l) k \<noteq> None \<or> int (length (ml_held l)) < maxHeld l"
  shows "locksInv (l\<lparr>ml_held := AList.update k x (ml_held l)\<rparr>)"
proof -
  have "int (length (AList.update k x (ml_held l))) \<le> maxHeld l"
    using assms length_update_le[of k x "ml_held l"] length_update_mem[of "ml_held l" k x]
    by (auto simp: locksInv_def)
  with assms(1) show ?thesis by (simp add: locksInv_def distinct_update)
qed

lemma lockStep_inv:
  assumes "locksInv l"
  shows "locksInv (lockStep op l)"
proof (cases op)
  case (OpAcquire now newID p n ttl)
  let ?l = "sweepExpiredLocked now l"
  have "snd (tryAcquire now newID p n ttl l) = ?l \<or> locksInv (snd (tryAcquire now newID p n ttl l))"
    using locksInv_update[OF sweep_inv[OF assms, of now], of "lockKey p n"]
    by (auto simp: tryAcquire_def Let_def not_le)
  then show ?thesis using sweep_inv[OF assms, of now] by (auto simp: OpAcquire lockStep_def)
next
  case (OpRenew now p n i ttl)
  with assms locksInv_update[OF assms, of "lockKey p n"] show ?thesis
    by (auto simp: lockStep_def Renew_def Let_def split: option.splits)
next
  case (OpRelease p n i)
  have "int (length (AList.delete k (ml_held l))) \<le> maxHeld l" for k
    using assms length_delete_le[of k "ml_held l"] by (simp add: locksInv_def)
  with assms OpRelease show ?thesis
    by (auto simp: locksInv_def lockStep_def Release_def distinct_delete split: option.splits)
qed

lemma expired_lock_free:
  assumes "locksInv l" "map_of (ml_held l) (lockKey p n) = Some st" "expired t (lk_expiresAt st)"
  shows "fst (tryAcquire t newID p n ttl l) = Some \<lparr>le_ID = newID, le_ExpiresAt = t + ttl\<rparr>"
proof (cases "t - ml_lastSweep l < lockSweepInterval")
  case True
  with assms show ?thesis by (simp add: tryAcquire_def sweepExpiredLocked_def Let_def)
next
  case False
  let ?live = "filter (\<lambda>(k, st). \<not> expired t (lk_expiresAt st)) (ml_held l)"
  have d: "distinct (map fst (ml_held l))" using assms(1) by (simp add: locksInv_def)
  have mem: "(lockKey p n, st) \<in> set (ml_held l)" using assms(2) by (rule map_of_SomeD)
  have "map_of ?live (lockKey p n) = None"
  proof (rule ccontr)
    assume "\<not> ?thesis"
    then obtain st' where "(lockKey p n, st') \<in> set ?live" by (auto dest!: map_of_SomeD)
    with d mem assms(3) show False by (auto dest: eq_key_imp_eq_value)
  qed
  moreover have "length ?live < length (ml_held l)"
    using mem assms(3) by (intro length_filter_less) auto
  then have "int (length ?live) < maxHeld l" using assms(1) by (simp add: locksInv_def)
  ultimately show ?thesis using False
    by (simp add: tryAcquire_def sweepExpiredLocked_def Let_def)
qed

text \<open>The lock table stays bounded and never deadlocks. Every operation keeps the number of
  tracked locks at or below the cap; and a lock whose lease has expired can be taken again
  by anyone at any later time, whether or not its owner is still there.\<close>

theorem locks_bounded_and_free:
  assumes "locksInv l"
  shows "locksInv (lockStep op l) \<and>
    (\<forall>p n st. map_of (ml_held l) (lockKey p n) = Some st \<and> expired t (lk_expiresAt st) \<longrightarrow>
       fst (tryAcquire t newID p n ttl l) = Some \<lparr>le_ID = newID, le_ExpiresAt = t + ttl\<rparr>)"
  using lockStep_inv[OF assms] expired_lock_free[OF assms] by blast

theorem locks_bounded_and_free_witness:
  "fst (tryAcquire 9 ''L2'' ''p'' ''job'' 5 \<lparr>ml_held = [(lockKey ''p'' ''job'', \<lparr>lk_leaseID = ''L1'', lk_expiresAt = 7\<rparr>)],
     ml_MaxHeld = 1, ml_lastSweep = 1\<rparr>) = Some \<lparr>le_ID = ''L2'', le_ExpiresAt = 14\<rparr>"
  using locks_bounded_and_free[of "\<lparr>ml_held = [(lockKey ''p'' ''job'', \<lparr>lk_leaseID = ''L1'', lk_expiresAt = 7\<rparr>)],
     ml_MaxHeld = 1, ml_lastSweep = 1\<rparr>" undefined 9 "''L2''" 5]
  by (simp add: locksInv_def maxHeld_def expired_def)

text \<open>The cap counts leases that lapsed since the last sweep: a table full of expired leases
  refuses a new name until the sweep interval has passed, although no lock is held.\<close>

lemma full_of_expired_refuses:
  "fst (tryAcquire 9 ''L2'' ''p'' ''new'' 5 \<lparr>ml_held = [(lockKey ''p'' ''job'', \<lparr>lk_leaseID = ''L1'', lk_expiresAt = 7\<rparr>)],
     ml_MaxHeld = 1, ml_lastSweep = 1\<rparr>) = None \<and> expired 9 7"
  by (simp add: tryAcquire_def sweepExpiredLocked_def lockSweepInterval_def second_def lockKey_def maxHeld_def expired_def)

section \<open>Static configuration\<close>

record StaticConfig =
  st_byPlugin :: "(string, (string, string) gomap) gomap"

definition StaticGet :: "string \<Rightarrow> StaticConfig \<Rightarrow> (string, string) gomap" where
  "StaticGet pluginKey c = (case map_of (st_byPlugin c) pluginKey of None \<Rightarrow> [] | Some src \<Rightarrow> copyInto [] src)"

definition StaticSet :: "string \<Rightarrow> (string, string) gomap \<Rightarrow> StaticConfig \<Rightarrow> StaticConfig" where
  "StaticSet pluginKey cfg c = c\<lparr>st_byPlugin := AList.update pluginKey (copyInto [] cfg) (st_byPlugin c)\<rparr>"

lemma copyInto_fresh: "distinct (map fst xs) \<Longrightarrow> map_of (copyInto [] xs) = map_of xs"
  by (simp add: map_of_copyInto map_of_rev_distinct)

lemma StaticGet_Set:
  assumes "distinct (map fst cfg)"
  shows "map_of (StaticGet p (StaticSet q cfg c)) = (if p = q then map_of cfg else map_of (StaticGet p c))"
proof -
  have "distinct (map fst (copyInto [] cfg))" by (rule copyInto_distinct) simp
  with assms show ?thesis
    by (auto simp: StaticGet_def StaticSet_def update_conv' copyInto_fresh)
qed

section \<open>Entries of different plugins\<close>

datatype cacheOp =
    OpCacheGet int string string
  | OpCacheSet int "string list" string string bytes int
  | OpCacheDelete string string

fun cacheStep :: "cacheOp \<Rightarrow> MemoryCache \<Rightarrow> MemoryCache" where
  "cacheStep (OpCacheGet now p key) c = snd (CacheGet now p key c)"
| "cacheStep (OpCacheSet now order p key v ttl) c = CacheSet now order p key v ttl c"
| "cacheStep (OpCacheDelete p key) c = CacheDelete p key c"

definition otherTenant :: "string \<Rightarrow> string \<Rightarrow> bool" where
  "otherTenant k p \<longleftrightarrow> p \<noteq> k \<and> CHR 0x00 \<notin> set p \<and> CHR 0x00 \<notin> set k"

fun cacheForeign :: "string \<Rightarrow> cacheOp \<Rightarrow> bool" where
  "cacheForeign k (OpCacheGet now p key) = otherTenant k p"
| "cacheForeign k (OpCacheSet now order p key v ttl) = otherTenant k p"
| "cacheForeign k (OpCacheDelete p key) = otherTenant k p"

text \<open>Another plugin's operation can push an entry out of a full cache, and never changes or makes one.\<close>

definition cacheKept :: "string \<Rightarrow> MemoryCache \<Rightarrow> MemoryCache \<Rightarrow> bool" where
  "cacheKept k c c' \<longleftrightarrow> (\<forall>key e. map_of (mc_entries c') (cacheKey k key) = Some e \<longrightarrow> map_of (mc_entries c) (cacheKey k key) = Some e)"

lemma evictLocked_sub:
  assumes "distinct (map fst es)" "map_of (evictLocked now order es) x = Some e"
  shows "map_of es x = Some e"
proof (cases "length (filter (\<lambda>(k, e). \<not> expired now (ce_expiresAt e)) es) < length es")
  case True
  then have "map_of (filter (\<lambda>(k, e). \<not> expired now (ce_expiresAt e)) es) x = Some e"
    using assms(2) by (simp add: evictLocked_def Let_def)
  then have "(x, e) \<in> set es" by (auto dest!: map_of_SomeD)
  then show ?thesis using assms(1) by simp
next
  case False
  then show ?thesis using assms(2) by (auto simp: evictLocked_def Let_def fold_delete_facts(3) split: if_splits)
qed

lemma evictLocked_distinct: "distinct (map fst es) \<Longrightarrow> distinct (map fst (evictLocked now order es))"
  by (auto simp: evictLocked_def Let_def fold_delete_facts(2) distinct_map_filter)

lemma cacheKey_other: "otherTenant k p \<Longrightarrow> cacheKey k x \<noteq> cacheKey p y"
  using cacheKey_inj by (auto simp: otherTenant_def)

lemma cache_isolated:
  assumes "distinct (map fst (mc_entries c))" "cacheForeign k op"
  shows "cacheKept k c (cacheStep op c)"
proof (cases op)
  case (OpCacheGet now p key)
  then have "cacheKey k x \<noteq> cacheKey p key" for x using assms(2) by (simp add: cacheKey_other)
  then show ?thesis using OpCacheGet by (simp add: cacheKept_def CacheGet_def delete_conv' split: option.split)
next
  case (OpCacheSet now order p key v ttl)
  then have "cacheKey k x \<noteq> cacheKey p key" for x using assms(2) by (simp add: cacheKey_other)
  then show ?thesis using OpCacheSet evictLocked_sub[OF assms(1)] by (simp add: cacheKept_def CacheSet_def Let_def update_conv')
next
  case (OpCacheDelete p key)
  then have "cacheKey k x \<noteq> cacheKey p key" for x using assms(2) by (simp add: cacheKey_other)
  then show ?thesis using OpCacheDelete by (simp add: cacheKept_def CacheDelete_def delete_conv')
qed

lemma cacheStep_distinct: "distinct (map fst (mc_entries c)) \<Longrightarrow> distinct (map fst (mc_entries (cacheStep op c)))"
  by (cases op) (auto simp: CacheGet_def CacheSet_def CacheDelete_def Let_def distinct_delete distinct_update evictLocked_distinct
      split: option.splits)

interpretation cacheTenants: tenant_backend "\<lambda>c. distinct (map fst (mc_entries c))" cacheForeign cacheKept cacheStep
  by unfold_locales (simp add: cacheKept_def, simp add: cacheKept_def, rule cacheStep_distinct, assumption, rule cache_isolated, assumption+)

end
