(* ===== verification/TxRegistry.thy ===== *)
theory TxRegistry
  imports Breaker
begin

text \<open>
  Transactions plugins hold open (\<^verbatim>\<open>src/core/db/tx.go\<close>, \<^verbatim>\<open>TxRegistry\<close>): the per-plugin ceiling, the
  ownership check and the deadline. \<^verbatim>\<open>Begin\<close> has two critical sections with the database call
  between them; \<open>tstep\<close> interleaves the sections of any number of calls with every other
  operation. The database's transactions are names, and what is done to them is a log.
\<close>

section \<open>Model\<close>

definition DefaultTxTimeout :: int where "DefaultTxTimeout = 30 * second"
definition MaxTxTimeout :: int where "MaxTxTimeout = 5 * 60 * second"
definition MaxOpenTxPerPlugin :: int where "MaxOpenTxPerPlugin = 8"

record openTx =
  ot_tx :: nat
  ot_pluginKey :: string
  ot_expiresAt :: int

datatype txAction = DoCommit nat | DoRollback nat

record TxRegistry =
  tr_txs :: "(string, openTx) gomap"
  tr_maxOpen :: int
  tr_open :: "(string, int) gomap"
  tr_log :: "txAction list"

datatype tx_err = ErrUnknownTx | ErrTooManyTx string int int | BeginFailed | CommitFailed | RollbackFailed

definition NewTxRegistry :: TxRegistry where
  "NewTxRegistry = \<lparr>tr_txs = [], tr_maxOpen = 0, tr_open = [], tr_log = []\<rparr>"

definition SetMaxOpen :: "int \<Rightarrow> TxRegistry \<Rightarrow> TxRegistry" where
  "SetMaxOpen n r = r\<lparr>tr_maxOpen := n\<rparr>"

definition limit :: "TxRegistry \<Rightarrow> int" where
  "limit r = (if tr_maxOpen r > 0 then tr_maxOpen r else MaxOpenTxPerPlugin)"

definition openOf :: "TxRegistry \<Rightarrow> string \<Rightarrow> int" where
  "openOf r p = (case map_of (tr_open r) p of None \<Rightarrow> 0 | Some n \<Rightarrow> n)"

definition clampTimeout :: "int \<Rightarrow> int" where
  "clampTimeout timeout =
     (let t = (if timeout \<le> 0 then DefaultTxTimeout else timeout) in if t > MaxTxTimeout then MaxTxTimeout else t)"

text \<open>First section of \<^verbatim>\<open>Begin\<close>: check and reserve.\<close>

definition beginReserve :: "string \<Rightarrow> TxRegistry \<Rightarrow> tx_err + TxRegistry" where
  "beginReserve pluginKey r =
     (if openOf r pluginKey \<ge> limit r then Inl (ErrTooManyTx pluginKey (openOf r pluginKey) (limit r))
      else Inr (r\<lparr>tr_open := AList.update pluginKey (openOf r pluginKey + 1) (tr_open r)\<rparr>))"

definition releaseSlot :: "string \<Rightarrow> TxRegistry \<Rightarrow> TxRegistry" where
  "releaseSlot pluginKey r =
     (if openOf r pluginKey > 0 then
        (if openOf r pluginKey - 1 = 0 then r\<lparr>tr_open := AList.delete pluginKey (tr_open r)\<rparr>
         else r\<lparr>tr_open := AList.update pluginKey (openOf r pluginKey - 1) (tr_open r)\<rparr>)
      else r)"

text \<open>Second section of \<^verbatim>\<open>Begin\<close>, after the database opened the transaction.\<close>

definition beginInsert :: "string \<Rightarrow> nat \<Rightarrow> string \<Rightarrow> int \<Rightarrow> int \<Rightarrow> TxRegistry \<Rightarrow> TxRegistry" where
  "beginInsert txid tx pluginKey timeout now r =
     r\<lparr>tr_txs := AList.update txid \<lparr>ot_tx = tx, ot_pluginKey = pluginKey, ot_expiresAt = now + clampTimeout timeout\<rparr> (tr_txs r)\<rparr>"

text \<open>The whole of \<^verbatim>\<open>Begin\<close> run without interruption; \<open>dbtx\<close> is the transaction the database
  opened, if it did.\<close>

definition BeginTx :: "nat option \<Rightarrow> string \<Rightarrow> int \<Rightarrow> string \<Rightarrow> int \<Rightarrow> TxRegistry \<Rightarrow> (tx_err + string) \<times> TxRegistry" where
  "BeginTx dbtx txid now pluginKey timeout r =
     (case beginReserve pluginKey r of
        Inl e \<Rightarrow> (Inl e, r)
      | Inr r1 \<Rightarrow>
          (case dbtx of
             None \<Rightarrow> (Inl BeginFailed, releaseSlot pluginKey r1)
           | Some tx \<Rightarrow> (Inr txid, beginInsert txid tx pluginKey timeout now r1)))"

definition dropLocked :: "string \<Rightarrow> openTx \<Rightarrow> TxRegistry \<Rightarrow> TxRegistry" where
  "dropLocked txid t r = releaseSlot (ot_pluginKey t) (r\<lparr>tr_txs := AList.delete txid (tr_txs r)\<rparr>)"

definition logTx :: "txAction \<Rightarrow> TxRegistry \<Rightarrow> TxRegistry" where
  "logTx a r = r\<lparr>tr_log := tr_log r @ [a]\<rparr>"

definition Lookup :: "int \<Rightarrow> string \<Rightarrow> string \<Rightarrow> TxRegistry \<Rightarrow> (tx_err + nat) \<times> TxRegistry" where
  "Lookup now pluginKey txid r =
     (case map_of (tr_txs r) txid of
        None \<Rightarrow> (Inl ErrUnknownTx, r)
      | Some t \<Rightarrow>
          if ot_pluginKey t \<noteq> pluginKey then (Inl ErrUnknownTx, r)
          else if now > ot_expiresAt t then (Inl ErrUnknownTx, dropLocked txid t (logTx (DoRollback (ot_tx t)) r))
          else (Inr (ot_tx t), r))"

definition takeTx :: "string \<Rightarrow> string \<Rightarrow> TxRegistry \<Rightarrow> (tx_err + openTx) \<times> TxRegistry" where
  "takeTx pluginKey txid r =
     (case map_of (tr_txs r) txid of
        None \<Rightarrow> (Inl ErrUnknownTx, r)
      | Some t \<Rightarrow> if ot_pluginKey t \<noteq> pluginKey then (Inl ErrUnknownTx, r) else (Inr t, dropLocked txid t r))"

text \<open>\<open>ok\<close> tells whether the database accepted the commit or rollback.\<close>

definition Commit :: "bool \<Rightarrow> string \<Rightarrow> string \<Rightarrow> TxRegistry \<Rightarrow> (tx_err + unit) \<times> TxRegistry" where
  "Commit ok pluginKey txid r =
     (case takeTx pluginKey txid r of
        (Inl e, r1) \<Rightarrow> (Inl e, r1)
      | (Inr t, r1) \<Rightarrow> (if ok then Inr () else Inl CommitFailed, logTx (DoCommit (ot_tx t)) r1))"

definition Rollback :: "bool \<Rightarrow> string \<Rightarrow> string \<Rightarrow> TxRegistry \<Rightarrow> (tx_err + unit) \<times> TxRegistry" where
  "Rollback ok pluginKey txid r =
     (case takeTx pluginKey txid r of
        (Inl e, r1) \<Rightarrow> (Inl e, r1)
      | (Inr t, r1) \<Rightarrow> (if ok then Inr () else Inl RollbackFailed, logTx (DoRollback (ot_tx t)) r1))"

definition dropAll :: "(string \<times> openTx) list \<Rightarrow> TxRegistry \<Rightarrow> TxRegistry" where
  "dropAll ts r = fold (\<lambda>(txid, t) r. dropLocked txid t (logTx (DoRollback (ot_tx t)) r)) ts r"

definition ReapExpired :: "int \<Rightarrow> TxRegistry \<Rightarrow> nat \<times> TxRegistry" where
  "ReapExpired now r =
     (let due = filter (\<lambda>(txid, t). now > ot_expiresAt t) (tr_txs r) in (length due, dropAll due r))"

definition CloseTx :: "TxRegistry \<Rightarrow> TxRegistry" where
  "CloseTx r = dropAll (tr_txs r) r"

definition OpenTxCount :: "TxRegistry \<Rightarrow> nat" where "OpenTxCount r = length (tr_txs r)"

section \<open>Interleaved steps\<close>

text \<open>The registry and the plugins whose \<^verbatim>\<open>Begin\<close> is between its two sections. A fresh
  transaction id is one no open transaction has.\<close>

record TxWorld =
  tw_reg :: TxRegistry
  tw_pending :: "string multiset"

inductive tstep :: "TxWorld \<Rightarrow> TxWorld \<Rightarrow> bool" where
  t_reserve: "beginReserve p (tw_reg w) = Inr r \<Longrightarrow>
    tstep w (w\<lparr>tw_reg := r, tw_pending := add_mset p (tw_pending w)\<rparr>)"
| t_refuse: "beginReserve p (tw_reg w) = Inl e \<Longrightarrow> tstep w w"
| t_begin_failed: "p \<in># tw_pending w \<Longrightarrow>
    tstep w (w\<lparr>tw_reg := releaseSlot p (tw_reg w), tw_pending := tw_pending w - {#p#}\<rparr>)"
| t_begin: "p \<in># tw_pending w \<Longrightarrow> map_of (tr_txs (tw_reg w)) txid = None \<Longrightarrow>
    tstep w (w\<lparr>tw_reg := beginInsert txid tx p timeout now (tw_reg w), tw_pending := tw_pending w - {#p#}\<rparr>)"
| t_lookup: "tstep w (w\<lparr>tw_reg := snd (Lookup now p txid (tw_reg w))\<rparr>)"
| t_commit: "tstep w (w\<lparr>tw_reg := snd (Commit ok p txid (tw_reg w))\<rparr>)"
| t_rollback: "tstep w (w\<lparr>tw_reg := snd (Rollback ok p txid (tw_reg w))\<rparr>)"
| t_reap: "tstep w (w\<lparr>tw_reg := snd (ReapExpired now (tw_reg w))\<rparr>)"
| t_close: "tstep w (w\<lparr>tw_reg := CloseTx (tw_reg w)\<rparr>)"

text \<open>The worlds reached from a registry whose ceiling was set to \<open>n\<close> at start.\<close>

inductive treach :: "int \<Rightarrow> TxWorld \<Rightarrow> bool" for n where
  treach_init: "treach n \<lparr>tw_reg = SetMaxOpen n NewTxRegistry, tw_pending = {#}\<rparr>"
| treach_step: "treach n w \<Longrightarrow> tstep w w' \<Longrightarrow> treach n w'"

section \<open>Slots\<close>

text \<open>The connections a plugin has: its registered transactions and those being opened.\<close>

definition ownedBy :: "string \<Rightarrow> (string, openTx) gomap \<Rightarrow> nat" where
  "ownedBy p txs = length (filter (\<lambda>(txid, t). ot_pluginKey t = p) txs)"

definition slotInv :: "TxWorld \<Rightarrow> bool" where
  "slotInv w \<longleftrightarrow> distinct (map fst (tr_txs (tw_reg w))) \<and> distinct (map fst (tr_open (tw_reg w))) \<and>
     (\<forall>p. openOf (tw_reg w) p = int (count (tw_pending w) p + ownedBy p (tr_txs (tw_reg w)))) \<and>
     (\<forall>p. int (count (tw_pending w) p + ownedBy p (tr_txs (tw_reg w))) \<le> limit (tw_reg w))"

lemma openOf_update [simp]:
  "openOf (r\<lparr>tr_open := AList.update p n (tr_open r)\<rparr>) q = (if q = p then n else openOf r q)"
  "openOf (r\<lparr>tr_open := AList.delete p (tr_open r)\<rparr>) q = (if q = p then 0 else openOf r q)"
  "openOf (r\<lparr>tr_txs := txs\<rparr>) q = openOf r q" "openOf (r\<lparr>tr_log := lg\<rparr>) q = openOf r q"
  by (auto simp: openOf_def update_conv' delete_conv')

lemma limit_simps [simp]:
  "limit (r\<lparr>tr_open := x\<rparr>) = limit r" "limit (r\<lparr>tr_txs := txs\<rparr>) = limit r" "limit (r\<lparr>tr_log := lg\<rparr>) = limit r"
  "0 < limit r"
  by (simp_all add: limit_def MaxOpenTxPerPlugin_def)

lemma releaseSlot_facts:
  "openOf (releaseSlot p r) q = (if q = p \<and> 0 < openOf r p then openOf r p - 1 else openOf r q)"
  "tr_txs (releaseSlot p r) = tr_txs r" "limit (releaseSlot p r) = limit r"
  "distinct (map fst (tr_open r)) \<Longrightarrow> distinct (map fst (tr_open (releaseSlot p r)))"
  by (auto simp: releaseSlot_def distinct_update distinct_delete)

lemma ownedBy_delete:
  assumes "distinct (map fst txs)" "map_of txs txid = Some t"
  shows "ownedBy p txs = ownedBy p (AList.delete txid txs) + (if ot_pluginKey t = p then 1 else 0)"
  using assms
proof (induction txs)
  case (Cons a txs)
  obtain k u where a: "a = (k, u)" by (cases a)
  show ?case
  proof (cases "k = txid")
    case True
    with Cons.prems a have "txid \<notin> fst ` set txs" "u = t" by auto
    then have "AList.delete txid txs = txs" by (simp add: delete_id)
    with True a \<open>u = t\<close> show ?thesis by (simp add: ownedBy_def AList.delete_eq)
  next
    case False
    with Cons a show ?thesis by (auto simp: ownedBy_def AList.delete_eq)
  qed
qed simp

lemma ownedBy_insert:
  "map_of txs txid = None \<Longrightarrow> ownedBy p (AList.update txid t txs) = ownedBy p txs + (if ot_pluginKey t = p then 1 else 0)"
  by (induction txs) (auto simp: ownedBy_def split: if_splits)

lemma slotInv_log: "slotInv (w\<lparr>tw_reg := logTx a r\<rparr>) \<longleftrightarrow> slotInv (w\<lparr>tw_reg := r\<rparr>)"
  by (simp add: slotInv_def logTx_def)

lemma dropLocked_log: "dropLocked txid t (logTx a r) = logTx a (dropLocked txid t r)"
  by (auto simp: dropLocked_def logTx_def releaseSlot_def openOf_def)

lemma slotInv_drop:
  assumes "slotInv w" "map_of (tr_txs (tw_reg w)) txid = Some t"
  shows "slotInv (w\<lparr>tw_reg := dropLocked txid t (tw_reg w)\<rparr>)"
proof -
  let ?r = "tw_reg w"
  let ?r' = "dropLocked txid t ?r"
  have O: "openOf ?r p = int (count (tw_pending w) p + ownedBy p (tr_txs ?r))"
    and L: "int (count (tw_pending w) p + ownedBy p (tr_txs ?r)) \<le> limit ?r" for p
    using assms(1) unfolding slotInv_def by blast+
  have D: "distinct (map fst (tr_txs ?r))" "distinct (map fst (tr_open ?r))"
    using assms(1) by (auto simp: slotInv_def)
  note B = ownedBy_delete[OF D(1) assms(2)]
  have pos: "0 < openOf ?r (ot_pluginKey t)" using O[of "ot_pluginKey t"] B[of "ot_pluginKey t"] by simp
  have "openOf ?r' p = int (count (tw_pending w) p + ownedBy p (tr_txs ?r')) \<and>
      int (count (tw_pending w) p + ownedBy p (tr_txs ?r')) \<le> limit ?r'" for p
    using O[of p] L[of p] B[of p] pos by (auto simp: dropLocked_def releaseSlot_facts)
  moreover have "distinct (map fst (tr_open ?r'))" "distinct (map fst (tr_txs ?r'))"
    using D releaseSlot_facts(4)[of "?r\<lparr>tr_txs := AList.delete txid (tr_txs ?r)\<rparr>"]
    by (auto simp: dropLocked_def releaseSlot_facts distinct_delete)
  ultimately show ?thesis by (simp add: slotInv_def)
qed

lemma slotInv_drop_log:
  assumes "slotInv w" "map_of (tr_txs (tw_reg w)) txid = Some t"
  shows "slotInv (w\<lparr>tw_reg := dropLocked txid t (logTx a (tw_reg w))\<rparr>)"
  using slotInv_drop[OF assms] by (simp add: dropLocked_log slotInv_log)

lemma slotInv_dropAll:
  assumes "slotInv w" "distinct (map fst ts)" "\<forall>(txid, t) \<in> set ts. map_of (tr_txs (tw_reg w)) txid = Some t"
  shows "slotInv (w\<lparr>tw_reg := dropAll ts (tw_reg w)\<rparr>)"
  using assms
proof (induction ts arbitrary: w)
  case Nil
  then show ?case by (simp add: dropAll_def)
next
  case (Cons a ts)
  obtain txid t where a: "a = (txid, t)" by (cases a)
  let ?w = "w\<lparr>tw_reg := dropLocked txid t (logTx (DoRollback (ot_tx t)) (tw_reg w))\<rparr>"
  have w: "slotInv ?w" using Cons.prems a by (intro slotInv_drop_log) auto
  have "\<forall>(i, u) \<in> set ts. map_of (tr_txs (tw_reg ?w)) i = Some u"
  proof (clarify)
    fix i u assume "(i, u) \<in> set ts"
    with Cons.prems a have "i \<noteq> txid" "map_of (tr_txs (tw_reg w)) i = Some u" by force+
    then show "map_of (tr_txs (tw_reg ?w)) i = Some u"
      by (simp add: dropLocked_def releaseSlot_facts logTx_def delete_conv')
  qed
  from Cons.IH[OF w _ this] Cons.prems(2) show ?case by (simp add: a dropAll_def)
qed

lemma slotInv_take:
  assumes "slotInv w"
  shows "slotInv (w\<lparr>tw_reg := snd (takeTx p txid (tw_reg w))\<rparr>)"
  using assms slotInv_drop[OF assms] by (auto simp: takeTx_def split: option.splits)

lemma tstep_slotInv: "tstep w w' \<Longrightarrow> slotInv w \<Longrightarrow> slotInv w'"
proof (induction rule: tstep.induct)
  case (t_reserve p w r)
  then show ?case by (auto simp: slotInv_def beginReserve_def distinct_update split: if_splits)
next
  case (t_begin_failed p w)
  then have "0 < count (tw_pending w) p" by simp
  with t_begin_failed have "0 < openOf (tw_reg w) p" by (simp add: slotInv_def del: count_greater_zero_iff)
  moreover have "int (count (tw_pending w) p + ownedBy p (tr_txs (tw_reg w))) \<le> limit (tw_reg w)"
    using t_begin_failed unfolding slotInv_def by blast
  then have "int (count (tw_pending w) p) - 1 + int (ownedBy p (tr_txs (tw_reg w))) \<le> limit (tw_reg w)" by simp
  ultimately show ?case
    using t_begin_failed releaseSlot_facts(4)[of "tw_reg w" p] by (auto simp: slotInv_def releaseSlot_facts)
next
  case (t_begin p w txid tx timeout now)
  then show ?case by (auto simp: slotInv_def beginInsert_def ownedBy_insert distinct_update)
next
  case (t_lookup w now p txid)
  then show ?case using slotInv_drop_log[OF t_lookup] by (auto simp: Lookup_def split: option.splits)
next
  case (t_commit w ok p txid)
  then show ?case using slotInv_take[OF t_commit, of p txid]
    by (auto simp: Commit_def slotInv_log split: prod.splits sum.splits)
next
  case (t_rollback w ok p txid)
  then show ?case using slotInv_take[OF t_rollback, of p txid]
    by (auto simp: Rollback_def slotInv_log split: prod.splits sum.splits)
next
  case (t_reap w now)
  then have D: "distinct (map fst (tr_txs (tw_reg w)))" by (simp add: slotInv_def)
  show ?case unfolding ReapExpired_def Let_def snd_conv
    using D by (intro slotInv_dropAll[OF t_reap] distinct_map_filter) (auto simp: map_of_eq_Some_iff)
next
  case (t_close w)
  then have D: "distinct (map fst (tr_txs (tw_reg w)))" by (simp add: slotInv_def)
  show ?case unfolding CloseTx_def
    using D by (intro slotInv_dropAll[OF t_close]) (auto simp: map_of_eq_Some_iff)
qed

lemma treach_slotInv: "treach n w \<Longrightarrow> slotInv w"
proof (induction rule: treach.induct)
  case treach_init
  then show ?case
    by (simp add: slotInv_def NewTxRegistry_def SetMaxOpen_def openOf_def ownedBy_def limit_def MaxOpenTxPerPlugin_def)
qed (rule tstep_slotInv)

lemma tr_maxOpen_drop:
  "tr_maxOpen (releaseSlot p r) = tr_maxOpen r" "tr_maxOpen (dropLocked i t r) = tr_maxOpen r"
  "tr_maxOpen (dropAll ts r) = tr_maxOpen r"
proof -
  show R: "tr_maxOpen (releaseSlot p r) = tr_maxOpen r" for p r by (simp add: releaseSlot_def)
  show D: "tr_maxOpen (dropLocked i t r) = tr_maxOpen r" for i t r by (simp add: dropLocked_def R)
  show "tr_maxOpen (dropAll ts r) = tr_maxOpen r"
    unfolding dropAll_def by (induction ts arbitrary: r) (auto simp: logTx_def D)
qed

lemma tstep_maxOpen: "tstep w w' \<Longrightarrow> tr_maxOpen (tw_reg w') = tr_maxOpen (tw_reg w)"
  by (induction rule: tstep.induct)
    (auto simp: beginReserve_def tr_maxOpen_drop beginInsert_def Lookup_def Commit_def Rollback_def takeTx_def
      ReapExpired_def CloseTx_def logTx_def Let_def split: if_splits option.splits)

lemma treach_limit: "treach n w \<Longrightarrow> limit (tw_reg w) = (if n > 0 then n else MaxOpenTxPerPlugin)"
proof -
  have "treach n w \<Longrightarrow> tr_maxOpen (tw_reg w) = n" for w
    by (induction rule: treach.induct) (auto simp: SetMaxOpen_def tstep_maxOpen)
  then show "treach n w \<Longrightarrow> limit (tw_reg w) = (if n > 0 then n else MaxOpenTxPerPlugin)" by (simp add: limit_def)
qed

text \<open>Uninterrupted, \<^verbatim>\<open>Begin\<close> is its sections in sequence.\<close>

lemma BeginTx_reach:
  assumes "treach n w" "map_of (tr_txs (tw_reg w)) txid = None"
  shows "treach n (w\<lparr>tw_reg := snd (BeginTx dbtx txid now p timeout (tw_reg w))\<rparr>)"
proof (cases "beginReserve p (tw_reg w)")
  case (Inl e)
  then show ?thesis using assms by (simp add: BeginTx_def)
next
  case (Inr r1)
  let ?w1 = "w\<lparr>tw_reg := r1, tw_pending := add_mset p (tw_pending w)\<rparr>"
  have w1: "treach n ?w1" using treach_step[OF assms(1) t_reserve[OF Inr]] .
  have txs: "tr_txs r1 = tr_txs (tw_reg w)" using Inr by (auto simp: beginReserve_def split: if_splits)
  show ?thesis
  proof (cases dbtx)
    case None
    then show ?thesis using treach_step[OF w1 t_begin_failed[of p]] Inr by (simp add: BeginTx_def)
  next
    case (Some tx)
    then show ?thesis
      using treach_step[OF w1 t_begin[of p _ txid tx timeout now]] Inr assms(2) txs by (simp add: BeginTx_def)
  qed
qed

text \<open>C23: A plugin never holds more transactions than the ceiling, eight unless it was set otherwise.
  However the two critical sections of concurrent \<^verbatim>\<open>Begin\<close> calls interleave with commits, rollbacks,
  lookups, the reaper and shutdown, the transactions a plugin has open together with those it is
  opening stay within the ceiling, and the counter equals that number, so no slot leaks.\<close>

theorem tx_ceiling:
  assumes "treach n w"
  shows "int (count (tw_pending w) p + ownedBy p (tr_txs (tw_reg w))) \<le> (if n > 0 then n else 8) \<and>
    openOf (tw_reg w) p = int (count (tw_pending w) p + ownedBy p (tr_txs (tw_reg w)))"
proof -
  have "openOf (tw_reg w) p = int (count (tw_pending w) p + ownedBy p (tr_txs (tw_reg w)))"
    "int (count (tw_pending w) p + ownedBy p (tr_txs (tw_reg w))) \<le> limit (tw_reg w)"
    using treach_slotInv[OF assms] unfolding slotInv_def by blast+
  with treach_limit[OF assms] show ?thesis by (simp add: MaxOpenTxPerPlugin_def split: if_splits)
qed

theorem tx_ceiling_witness:
  "\<exists>w. treach 0 w \<and> ownedBy ''p'' (tr_txs (tw_reg w)) = 1 \<and> openOf (tw_reg w) ''p'' = 1"
proof -
  let ?w0 = "\<lparr>tw_reg = SetMaxOpen 0 NewTxRegistry, tw_pending = {#}\<rparr>"
  let ?w = "?w0\<lparr>tw_reg := snd (BeginTx (Some 0) ''t1'' 5 ''p'' 0 (tw_reg ?w0))\<rparr>"
  have r: "treach 0 ?w"
    by (rule BeginTx_reach[OF treach_init]) (simp add: NewTxRegistry_def SetMaxOpen_def)
  have "ownedBy ''p'' (tr_txs (tw_reg ?w)) = 1"
    by (simp add: ownedBy_def BeginTx_def beginReserve_def openOf_def limit_def MaxOpenTxPerPlugin_def beginInsert_def
        NewTxRegistry_def SetMaxOpen_def)
  with r tx_ceiling[OF r, of "''p''"] show ?thesis by auto
qed

text \<open>A transaction belongs to the plugin that opened it. Looking up, committing or rolling
  back another plugin's transaction is answered as unknown and changes nothing: the
  registry, the slot counts and the database's transactions stay as they were.\<close>

theorem tx_owned:
  assumes "map_of (tr_txs r) txid = Some t" "ot_pluginKey t \<noteq> p"
  shows "Lookup now p txid r = (Inl ErrUnknownTx, r) \<and> Commit ok p txid r = (Inl ErrUnknownTx, r) \<and>
    Rollback ok p txid r = (Inl ErrUnknownTx, r)"
  using assms by (simp add: Lookup_def Commit_def Rollback_def takeTx_def)

theorem tx_owned_witness:
  "Commit True ''q'' ''t1'' (beginInsert ''t1'' 0 ''p'' 0 5 NewTxRegistry) =
     (Inl ErrUnknownTx, beginInsert ''t1'' 0 ''p'' 0 5 NewTxRegistry)"
  using tx_owned[of "beginInsert ''t1'' 0 ''p'' 0 5 NewTxRegistry" "''t1''"
      "\<lparr>ot_tx = 0, ot_pluginKey = ''p'', ot_expiresAt = 5 + clampTimeout 0\<rparr>" "''q''" 0 True]
  by (simp add: beginInsert_def NewTxRegistry_def)

text \<open>A transaction past its deadline is refused by a lookup, but a commit does not look at the
  deadline: until the reaper comes by it still goes through.\<close>

lemma expired_commit:
  assumes "map_of (tr_txs r) txid = Some t" "ot_expiresAt t < now"
  shows "fst (Lookup now (ot_pluginKey t) txid r) = Inl ErrUnknownTx"
    "fst (Commit True (ot_pluginKey t) txid r) = Inr ()"
  using assms by (simp_all add: Lookup_def Commit_def takeTx_def)

end
