(* ===== verification/Documents.thy ===== *)
theory Documents
  imports Prelude
begin

text \<open>
  The document store of \<^verbatim>\<open>src/core/db/cmds.go\<close> and the versioned writes of \<^verbatim>\<open>src/core/db/tx.go\<close>: identifier
  checks and physical table names, schema reconciliation, reads, optimistic writes, deletes
  and batches. The SQL statements the code formats are values of \<open>stmt\<close>, and \<open>exec\<close> gives them the
  meaning their text has. What belongs to the server alone is the record \<open>Pg\<close>: how it resolves an unquoted
  identifier, and which statements it fails (lost connections, constraint violations, anything). A store is the
  state one executor sees, the pool or an open transaction. Queries (\<^verbatim>\<open>Find\<close>, \<^verbatim>\<open>Query\<close>, \<^verbatim>\<open>Aggregate\<close>) are in theory \<open>Query\<close>.
\<close>

section \<open>Names\<close>

datatype doc_err =
    InvalidIdentifier string
  | ErrVersionConflict
  | DbError string
  | BeginBatch
  | CommitBatch
  | BatchOpErr nat doc_err

definition identByte :: "char \<Rightarrow> bool" where
  "identByte c = (isLetter c \<or> isDigit c \<or> c = CHR ''_'')"

definition identifierRE :: "string \<Rightarrow> bool" where
  "identifierRE name = (case name of [] \<Rightarrow> False | c # cs \<Rightarrow> isLetter c \<and> list_all identByte cs)"

definition ValidateIdentifier :: "string \<Rightarrow> doc_err + unit" where
  "ValidateIdentifier name = (if \<not> identifierRE name then Inl (InvalidIdentifier name) else Inr ())"

definition tableName :: "string \<Rightarrow> string \<Rightarrow> doc_err + string" where
  "tableName extKey collection =
     (case ValidateIdentifier extKey of
        Inl e \<Rightarrow> Inl e
      | Inr _ \<Rightarrow>
          (case ValidateIdentifier collection of
             Inl e \<Rightarrow> Inl e
           | Inr _ \<Rightarrow> Inr (''ext_'' @ extKey @ ''_'' @ collection)))"

definition indexName :: "string \<Rightarrow> string \<Rightarrow> string list \<Rightarrow> string" where
  "indexName extKey collection flds = ''idx_'' @ extKey @ ''_'' @ collection @ ''_'' @ joinWith ''_'' flds"

definition jsonPathExpr :: "string \<Rightarrow> doc_err + string" where
  "jsonPathExpr field =
     (case ValidateIdentifier field of
        Inl e \<Rightarrow> Inl e
      | Inr _ \<Rightarrow> Inr (''(data->>'' @ [CHR 0x27] @ field @ [CHR 0x27] @ '')''))"

section \<open>Statements\<close>

record Row =
  rw_data :: string
  rw_version :: int

record IndexRow =
  ix_name :: string
  ix_table :: string
  ix_unique :: bool
  ix_exprs :: "string list"

record Store =
  st_tables :: "(string, (string, Row) gomap) gomap"
  st_indexes :: "IndexRow list"

datatype stmt =
    CreateTable string
  | AddVersionColumn string
  | CreateIndex bool string string "string list"
  | ListIndexes string string
  | DropIndex string
  | InsertOrReplace string string string
  | SelectData string string
  | InsertOrBump string string string
  | UpdateIfVersion string string string int
  | SelectVersioned string string
  | DeleteDoc string string

datatype reply = Done | NoRows | VersionRow int | DataRow string | DocRow string int | Affected nat | Names "string list"

record Pg =
  pg_ident :: "string \<Rightarrow> string"
  pg_fault :: "stmt \<Rightarrow> Store \<Rightarrow> string option"

text \<open>SQL's \<^verbatim>\<open>LIKE\<close>: \<^verbatim>\<open>%\<close> matches any string and \<^verbatim>\<open>_\<close> any byte. The patterns here hold no escape byte.\<close>

fun like :: "string \<Rightarrow> string \<Rightarrow> bool" where
  "like [] s = (s = [])"
| "like (p # ps) [] = (p = CHR ''%'' \<and> like ps [])"
| "like (p # ps) (c # cs) =
     (if p = CHR ''%'' then like ps (c # cs) \<or> like (p # ps) cs
      else (p = CHR ''_'' \<or> p = c) \<and> like ps cs)"

definition setRow :: "string \<Rightarrow> (string, Row) gomap \<Rightarrow> string \<Rightarrow> Row \<Rightarrow> Store \<Rightarrow> Store" where
  "setRow t tb docID row s = s\<lparr>st_tables := AList.update t (AList.update docID row tb) (st_tables s)\<rparr>"

text \<open>Tables carry the version column from the start, so adding it changes nothing. A version that would
  leave the range of \<^verbatim>\<open>BIGINT\<close> is an error.\<close>

definition onTable :: "Pg \<Rightarrow> string \<Rightarrow> Store \<Rightarrow> (string \<Rightarrow> (string, Row) gomap \<Rightarrow> string + (reply \<times> Store)) \<Rightarrow> string + (reply \<times> Store)" where
  "onTable pg t s f =
     (case map_of (st_tables s) (pg_ident pg t) of
        None \<Rightarrow> Inl ''relation does not exist''
      | Some tb \<Rightarrow> f (pg_ident pg t) tb)"

definition bumpRow :: "string \<Rightarrow> (string, Row) gomap \<Rightarrow> string \<Rightarrow> string \<Rightarrow> Row \<Rightarrow> Store \<Rightarrow> string + (reply \<times> Store)" where
  "bumpRow t tb docID data row s =
     (if rw_version row \<ge> maxInt then Inl ''bigint out of range''
      else Inr (VersionRow (rw_version row + 1),
                setRow t tb docID \<lparr>rw_data = data, rw_version = rw_version row + 1\<rparr> s))"

fun runStmt :: "Pg \<Rightarrow> stmt \<Rightarrow> Store \<Rightarrow> string + (reply \<times> Store)" where
  "runStmt pg (CreateTable t) s =
     (case map_of (st_tables s) (pg_ident pg t) of
        None \<Rightarrow> Inr (Done, s\<lparr>st_tables := (pg_ident pg t, []) # st_tables s\<rparr>)
      | Some _ \<Rightarrow> Inr (Done, s))"
| "runStmt pg (AddVersionColumn t) s = onTable pg t s (\<lambda>t' tb. Inr (Done, s))"
| "runStmt pg (CreateIndex unique name t exprs) s =
     onTable pg t s (\<lambda>t' tb.
       if pg_ident pg name \<in> set (map ix_name (st_indexes s)) then Inr (Done, s)
       else Inr (Done, s\<lparr>st_indexes := st_indexes s @
              [\<lparr>ix_name = pg_ident pg name, ix_table = t', ix_unique = unique, ix_exprs = exprs\<rparr>]\<rparr>))"
| "runStmt pg (ListIndexes tablename pat) s =
     Inr (Names (map ix_name (filter (\<lambda>ix. ix_table ix = tablename \<and> like pat (ix_name ix)) (st_indexes s))), s)"
| "runStmt pg (DropIndex name) s =
     Inr (Done, s\<lparr>st_indexes := filter (\<lambda>ix. ix_name ix \<noteq> pg_ident pg name) (st_indexes s)\<rparr>)"
| "runStmt pg (InsertOrReplace t docID data) s =
     onTable pg t s (\<lambda>t' tb. Inr (Done, setRow t' tb docID
       \<lparr>rw_data = data, rw_version = (case map_of tb docID of None \<Rightarrow> 1 | Some row \<Rightarrow> rw_version row)\<rparr> s))"
| "runStmt pg (SelectData t docID) s =
     onTable pg t s (\<lambda>t' tb. Inr (case map_of tb docID of None \<Rightarrow> NoRows | Some row \<Rightarrow> DataRow (rw_data row), s))"
| "runStmt pg (InsertOrBump t docID data) s =
     onTable pg t s (\<lambda>t' tb.
       case map_of tb docID of
         None \<Rightarrow> Inr (VersionRow 1, setRow t' tb docID \<lparr>rw_data = data, rw_version = 1\<rparr> s)
       | Some row \<Rightarrow> bumpRow t' tb docID data row s)"
| "runStmt pg (UpdateIfVersion t docID data expected) s =
     onTable pg t s (\<lambda>t' tb.
       case map_of tb docID of
         None \<Rightarrow> Inr (NoRows, s)
       | Some row \<Rightarrow> if rw_version row = expected then bumpRow t' tb docID data row s else Inr (NoRows, s))"
| "runStmt pg (SelectVersioned t docID) s =
     onTable pg t s (\<lambda>t' tb.
       Inr (case map_of tb docID of None \<Rightarrow> NoRows | Some row \<Rightarrow> DocRow (rw_data row) (rw_version row), s))"
| "runStmt pg (DeleteDoc t docID) s =
     onTable pg t s (\<lambda>t' tb.
       Inr (Affected (if map_of tb docID = None then 0 else 1),
            s\<lparr>st_tables := AList.update t' (AList.delete docID tb) (st_tables s)\<rparr>))"

definition exec :: "Pg \<Rightarrow> stmt \<Rightarrow> Store \<Rightarrow> string + (reply \<times> Store)" where
  "exec pg q s = (case pg_fault pg q s of Some e \<Rightarrow> Inl e | None \<Rightarrow> runStmt pg q s)"

section \<open>Documents\<close>

definition Put :: "Pg \<Rightarrow> string \<Rightarrow> string \<Rightarrow> string \<Rightarrow> string \<Rightarrow> Store \<Rightarrow> (doc_err + unit) \<times> Store" where
  "Put pg extKey collection docID data s =
     (case tableName extKey collection of
        Inl e \<Rightarrow> (Inl e, s)
      | Inr table \<Rightarrow>
          (case exec pg (InsertOrReplace table docID data) s of
             Inl e \<Rightarrow> (Inl (DbError e), s)
           | Inr (_, s1) \<Rightarrow> (Inr (), s1)))"

definition Get :: "Pg \<Rightarrow> string \<Rightarrow> string \<Rightarrow> string \<Rightarrow> Store \<Rightarrow> doc_err + string option" where
  "Get pg extKey collection docID s =
     (case tableName extKey collection of
        Inl e \<Rightarrow> Inl e
      | Inr table \<Rightarrow>
          (case exec pg (SelectData table docID) s of
             Inl e \<Rightarrow> Inl (DbError e)
           | Inr (DataRow data, _) \<Rightarrow> Inr (Some data)
           | Inr _ \<Rightarrow> Inr None))"

definition Delete :: "Pg \<Rightarrow> string \<Rightarrow> string \<Rightarrow> string \<Rightarrow> Store \<Rightarrow> (doc_err + unit) \<times> Store" where
  "Delete pg extKey collection docID s =
     (case tableName extKey collection of
        Inl e \<Rightarrow> (Inl e, s)
      | Inr table \<Rightarrow>
          (case exec pg (DeleteDoc table docID) s of
             Inl e \<Rightarrow> (Inl (DbError e), s)
           | Inr (_, s1) \<Rightarrow> (Inr (), s1)))"

definition scanVersion :: "Store \<Rightarrow> doc_err \<Rightarrow> string + (reply \<times> Store) \<Rightarrow> (doc_err + int) \<times> Store" where
  "scanVersion s noRows r =
     (case r of
        Inl e \<Rightarrow> (Inl (DbError e), s)
      | Inr (VersionRow version, s1) \<Rightarrow> (Inr version, s1)
      | Inr (_, s1) \<Rightarrow> (Inl noRows, s1))"

definition PutVersioned :: "Pg \<Rightarrow> string \<Rightarrow> string \<Rightarrow> string \<Rightarrow> string \<Rightarrow> int \<Rightarrow> Store \<Rightarrow> (doc_err + int) \<times> Store" where
  "PutVersioned pg extKey collection docID data expectedVersion s =
     (case tableName extKey collection of
        Inl e \<Rightarrow> (Inl e, s)
      | Inr table \<Rightarrow>
          if expectedVersion = 0
          then scanVersion s (DbError ''no rows in result set'') (exec pg (InsertOrBump table docID data) s)
          else scanVersion s ErrVersionConflict (exec pg (UpdateIfVersion table docID data expectedVersion) s))"

definition GetVersioned :: "Pg \<Rightarrow> string \<Rightarrow> string \<Rightarrow> string \<Rightarrow> Store \<Rightarrow> doc_err + (string \<times> int) option" where
  "GetVersioned pg extKey collection docID s =
     (case tableName extKey collection of
        Inl e \<Rightarrow> Inl e
      | Inr table \<Rightarrow>
          (case exec pg (SelectVersioned table docID) s of
             Inl e \<Rightarrow> Inl (DbError e)
           | Inr (DocRow data version, _) \<Rightarrow> Inr (Some (data, version))
           | Inr _ \<Rightarrow> Inr None))"

definition DeleteIn :: "Pg \<Rightarrow> string \<Rightarrow> string \<Rightarrow> string \<Rightarrow> Store \<Rightarrow> (doc_err + bool) \<times> Store" where
  "DeleteIn pg extKey collection docID s =
     (case tableName extKey collection of
        Inl e \<Rightarrow> (Inl e, s)
      | Inr table \<Rightarrow>
          (case exec pg (DeleteDoc table docID) s of
             Inl e \<Rightarrow> (Inl (DbError e), s)
           | Inr (Affected n, s1) \<Rightarrow> (Inr (n > 0), s1)
           | Inr (_, s1) \<Rightarrow> (Inr False, s1)))"

record BatchOp =
  bo_Delete :: bool
  bo_Collection :: string
  bo_DocID :: string
  bo_Data :: string

text \<open>\<open>i\<close> is the index of the next operation, which is also how many were applied.\<close>

fun applyFrom :: "nat \<Rightarrow> Pg \<Rightarrow> string \<Rightarrow> BatchOp list \<Rightarrow> Store \<Rightarrow> (doc_err + nat) \<times> Store" where
  "applyFrom i pg extKey [] s = (Inr i, s)"
| "applyFrom i pg extKey (b # bs) s =
     (if bo_Delete b then
        (case DeleteIn pg extKey (bo_Collection b) (bo_DocID b) s of
           (Inl e, s1) \<Rightarrow> (Inl (BatchOpErr i e), s1)
         | (Inr _, s1) \<Rightarrow> applyFrom (i + 1) pg extKey bs s1)
      else
        (case PutVersioned pg extKey (bo_Collection b) (bo_DocID b) (bo_Data b) 0 s of
           (Inl e, s1) \<Rightarrow> (Inl (BatchOpErr i e), s1)
         | (Inr _, s1) \<Rightarrow> applyFrom (i + 1) pg extKey bs s1))"

definition applyBatch :: "Pg \<Rightarrow> string \<Rightarrow> BatchOp list \<Rightarrow> Store \<Rightarrow> (doc_err + nat) \<times> Store" where
  "applyBatch pg extKey bs s = applyFrom 0 pg extKey bs s"

text \<open>\<open>joined\<close> tells whether the caller passed a transaction. Otherwise the batch opens its own on a
  copy of the store: a rollback or a failed commit leaves the store as it was. \<open>beginOk\<close> and \<open>commitOk\<close> are what
  the server answers.\<close>

definition BatchWrite :: "Pg \<Rightarrow> bool \<Rightarrow> bool \<Rightarrow> bool \<Rightarrow> string \<Rightarrow> BatchOp list \<Rightarrow> Store \<Rightarrow> (doc_err + nat) \<times> Store" where
  "BatchWrite pg joined beginOk commitOk extKey bs s =
     (if bs = [] then (Inr 0, s)
      else if joined then applyBatch pg extKey bs s
      else if \<not> beginOk then (Inl BeginBatch, s)
      else (case applyBatch pg extKey bs s of
              (Inl e, _) \<Rightarrow> (Inl e, s)
            | (Inr applied, s1) \<Rightarrow> if commitOk then (Inr applied, s1) else (Inl CommitBatch, s)))"

section \<open>Schema\<close>

record DbIndex =
  di_Fields :: "string list"
  di_Unique :: bool

record CollectionSchema =
  cs_Name :: string
  cs_Indexes :: "DbIndex list"

text \<open>The loop over the declared indexes returns the set \<open>desired\<close> of their names.\<close>

fun createIndexes :: "Pg \<Rightarrow> string \<Rightarrow> string \<Rightarrow> string \<Rightarrow> DbIndex list \<Rightarrow> string list \<Rightarrow> Store \<Rightarrow> (doc_err + string list) \<times> Store" where
  "createIndexes pg extKey name table [] desired s = (Inr desired, s)"
| "createIndexes pg extKey name table (idx # idxs) desired s =
     (if di_Fields idx = [] then createIndexes pg extKey name table idxs desired s
      else (case mapRes jsonPathExpr (di_Fields idx) of
              Inl e \<Rightarrow> (Inl e, s)
            | Inr exprs \<Rightarrow>
                (let iname = indexName extKey name (di_Fields idx)
                 in case exec pg (CreateIndex (di_Unique idx) iname table exprs) s of
                      Inl e \<Rightarrow> (Inl (DbError e), s)
                    | Inr (_, s1) \<Rightarrow> createIndexes pg extKey name table idxs (iname # desired) s1)))"

fun dropIndexes :: "Pg \<Rightarrow> string list \<Rightarrow> Store \<Rightarrow> (doc_err + unit) \<times> Store" where
  "dropIndexes pg [] s = (Inr (), s)"
| "dropIndexes pg (name # stale) s =
     (if \<not> identifierRE name then dropIndexes pg stale s
      else (case exec pg (DropIndex name) s of
              Inl e \<Rightarrow> (Inl (DbError e), s)
            | Inr (_, s1) \<Rightarrow> dropIndexes pg stale s1))"

definition dropStaleIndexes :: "Pg \<Rightarrow> string \<Rightarrow> string \<Rightarrow> string \<Rightarrow> string list \<Rightarrow> Store \<Rightarrow> (doc_err + unit) \<times> Store" where
  "dropStaleIndexes pg extKey collection table desired s =
     (let pfx = ''idx_'' @ extKey @ ''_'' @ collection @ ''_''
      in case exec pg (ListIndexes table (pfx @ ''%'')) s of
           Inl e \<Rightarrow> (Inl (DbError e), s)
         | Inr (Names names, s1) \<Rightarrow> dropIndexes pg (filter (\<lambda>n. n \<notin> set desired) names) s1
         | Inr (_, s1) \<Rightarrow> (Inr (), s1))"

definition reconcileCollection :: "Pg \<Rightarrow> string \<Rightarrow> CollectionSchema \<Rightarrow> Store \<Rightarrow> (doc_err + unit) \<times> Store" where
  "reconcileCollection pg extKey col s =
     (case tableName extKey (cs_Name col) of
        Inl e \<Rightarrow> (Inl e, s)
      | Inr table \<Rightarrow>
          (case exec pg (CreateTable table) s of
             Inl e \<Rightarrow> (Inl (DbError e), s)
           | Inr (_, s1) \<Rightarrow>
               (case exec pg (AddVersionColumn table) s1 of
                  Inl e \<Rightarrow> (Inl (DbError e), s1)
                | Inr (_, s2) \<Rightarrow>
                    (case createIndexes pg extKey (cs_Name col) table (cs_Indexes col) [] s2 of
                       (Inl e, s3) \<Rightarrow> (Inl e, s3)
                     | (Inr desired, s3) \<Rightarrow> dropStaleIndexes pg extKey (cs_Name col) table desired s3))))"

fun ReconcileSchema :: "Pg \<Rightarrow> string \<Rightarrow> CollectionSchema list \<Rightarrow> Store \<Rightarrow> (doc_err + unit) \<times> Store" where
  "ReconcileSchema pg extKey [] s = (Inr (), s)"
| "ReconcileSchema pg extKey (col # cols) s =
     (case reconcileCollection pg extKey col s of
        (Inl e, s1) \<Rightarrow> (Inl e, s1)
      | (Inr _, s1) \<Rightarrow> ReconcileSchema pg extKey cols s1)"

section \<open>Table names\<close>

lemma ValidateIdentifier_Inr: "ValidateIdentifier n = Inr u \<longleftrightarrow> identifierRE n"
  by (simp add: ValidateIdentifier_def)

lemma tableName_Inr:
  "tableName k c = Inr t \<longleftrightarrow> identifierRE k \<and> identifierRE c \<and> t = ''ext_'' @ k @ ''_'' @ c"
  by (auto simp: tableName_def ValidateIdentifier_def)

lemma identifierRE_join:
  assumes "identifierRE a" "identifierRE b"
  shows "identifierRE (a @ ''_'' @ b)"
proof -
  have "list_all identByte b" using assms(2) by (cases b) (auto simp: identifierRE_def identByte_def)
  with assms(1) show ?thesis by (cases a) (auto simp: identifierRE_def identByte_def)
qed

text \<open>The table name separates plugins whose keys hold no underscore. For such keys two
  collections have the same table only if plugin and collection agree, and the name is itself an
  identifier, so it can be put into a statement unquoted.\<close>

theorem tableName_isolates:
  assumes "tableName k c = Inr t" "tableName k' c' = Inr t'" "CHR ''_'' \<notin> set k" "CHR ''_'' \<notin> set k'"
  shows "(t = t' \<longleftrightarrow> k = k' \<and> c = c') \<and> identifierRE t"
proof -
  have t: "identifierRE k" "identifierRE c" "t = ''ext_'' @ k @ ''_'' @ c" and t': "t' = ''ext_'' @ k' @ ''_'' @ c'"
    using assms(1,2) unfolding tableName_Inr by blast+
  have "identifierRE ''ext''" by code_simp
  then have "identifierRE (''ext'' @ ''_'' @ k @ ''_'' @ c)"
    by (rule identifierRE_join[OF _ identifierRE_join[OF t(1,2)]])
  then have "identifierRE t" using t(3) by simp
  moreover have "k = k' \<and> c = c'" if "t = t'"
  proof -
    have "k @ CHR ''_'' # c = k' @ CHR ''_'' # c'" using that t(3) t' by simp
    with assms(3,4) show ?thesis by (rule sep_injective)
  qed
  moreover have "t = t'" if "k = k' \<and> c = c'" using that t(3) t' by simp
  ultimately show ?thesis by blast
qed

theorem tableName_isolates_witness:
  "''ext_crm_items'' \<noteq> ''ext_audit_items'' \<and> identifierRE ''ext_crm_items''"
proof -
  have "tableName ''crm'' ''items'' = Inr ''ext_crm_items''" "tableName ''audit'' ''items'' = Inr ''ext_audit_items''"
    by code_simp+
  from tableName_isolates[OF this] show ?thesis by simp
qed

section \<open>Rows\<close>

definition rowAt :: "Store \<Rightarrow> string \<Rightarrow> string \<Rightarrow> Row option" where
  "rowAt s t docID = (case map_of (st_tables s) t of None \<Rightarrow> None | Some tb \<Rightarrow> map_of tb docID)"

definition nextVersion :: "Row option \<Rightarrow> int" where
  "nextVersion r = (case r of None \<Rightarrow> 1 | Some row \<Rightarrow> rw_version row + 1)"

lemma rowAt_setRow:
  "map_of (st_tables s) t = Some tb \<Longrightarrow>
     rowAt (setRow t tb i row s) u j = (if u = t \<and> j = i then Some row else rowAt s u j)"
  by (auto simp: rowAt_def setRow_def update_conv')

lemma onTable_Inr:
  assumes "onTable pg t s f = Inr x"
  obtains tb where "map_of (st_tables s) (pg_ident pg t) = Some tb" "f (pg_ident pg t) tb = Inr x"
  using assms by (auto simp: onTable_def split: option.splits)

lemma bumpRow_Inr:
  "bumpRow t tb i d row s = Inr (r, s') \<longleftrightarrow> rw_version row < maxInt \<and> r = VersionRow (rw_version row + 1) \<and>
     s' = setRow t tb i \<lparr>rw_data = d, rw_version = rw_version row + 1\<rparr> s"
  by (auto simp: bumpRow_def)

lemma InsertOrBump_row:
  assumes "exec pg (InsertOrBump t i d) s = Inr (r, s')"
  shows "r = VersionRow (nextVersion (rowAt s (pg_ident pg t) i)) \<and>
    rowAt s' u j = (if u = pg_ident pg t \<and> j = i
      then Some \<lparr>rw_data = d, rw_version = nextVersion (rowAt s (pg_ident pg t) i)\<rparr> else rowAt s u j)"
proof -
  have "runStmt pg (InsertOrBump t i d) s = Inr (r, s')" using assms by (auto simp: exec_def split: option.splits)
  then obtain tb where tb: "map_of (st_tables s) (pg_ident pg t) = Some tb"
    and b: "(case map_of tb i of None \<Rightarrow> Inr (VersionRow 1, setRow (pg_ident pg t) tb i \<lparr>rw_data = d, rw_version = 1\<rparr> s)
       | Some row \<Rightarrow> bumpRow (pg_ident pg t) tb i d row s) = Inr (r, s')"
    unfolding runStmt.simps by (rule onTable_Inr)
  have row: "rowAt s (pg_ident pg t) i = map_of tb i" using tb by (simp add: rowAt_def)
  show ?thesis
  proof (cases "map_of tb i")
    case None
    with b row show ?thesis by (auto simp: rowAt_setRow[OF tb] nextVersion_def)
  next
    case (Some rw)
    with b row show ?thesis by (auto simp: rowAt_setRow[OF tb] nextVersion_def bumpRow_Inr)
  qed
qed

lemma UpdateIfVersion_row:
  assumes "exec pg (UpdateIfVersion t i d e) s = Inr (r, s')"
  shows "(r = NoRows \<and> s' = s) \<or>
    (\<exists>row. rowAt s (pg_ident pg t) i = Some row \<and> rw_version row = e \<and> r = VersionRow (e + 1) \<and>
      (\<forall>u j. rowAt s' u j = (if u = pg_ident pg t \<and> j = i then Some \<lparr>rw_data = d, rw_version = e + 1\<rparr> else rowAt s u j)))"
proof -
  have "runStmt pg (UpdateIfVersion t i d e) s = Inr (r, s')" using assms by (auto simp: exec_def split: option.splits)
  then obtain tb where tb: "map_of (st_tables s) (pg_ident pg t) = Some tb"
    and b: "(case map_of tb i of None \<Rightarrow> Inr (NoRows, s)
       | Some row \<Rightarrow> if rw_version row = e then bumpRow (pg_ident pg t) tb i d row s else Inr (NoRows, s)) = Inr (r, s')"
    unfolding runStmt.simps by (rule onTable_Inr)
  have row: "rowAt s (pg_ident pg t) i = map_of tb i" using tb by (simp add: rowAt_def)
  show ?thesis
  proof (cases "map_of tb i")
    case None
    with b show ?thesis by simp
  next
    case (Some rw)
    with b row show ?thesis by (auto simp: rowAt_setRow[OF tb] bumpRow_Inr split: if_splits)
  qed
qed

lemma DeleteDoc_row:
  assumes "exec pg (DeleteDoc t i) s = Inr (r, s')"
  shows "rowAt s' u j = (if u = pg_ident pg t \<and> j = i then None else rowAt s u j)"
proof -
  have "runStmt pg (DeleteDoc t i) s = Inr (r, s')" using assms by (auto simp: exec_def split: option.splits)
  then show ?thesis
    unfolding runStmt.simps by (rule onTable_Inr) (auto simp: rowAt_def update_conv' delete_conv')
qed

text \<open>A write either fails and changes nothing, or stores the data under the next version and leaves
  every other row alone; with an expected version it only goes through when that is the stored one.\<close>

lemma PutVersioned_row:
  assumes "PutVersioned pg k c i d e s = (r, s')"
  obtains er where "r = Inl er" "s' = s"
  | t where "tableName k c = Inr t" "r = Inr (nextVersion (rowAt s (pg_ident pg t) i))"
      "\<forall>u j. rowAt s' u j = (if u = pg_ident pg t \<and> j = i
        then Some \<lparr>rw_data = d, rw_version = nextVersion (rowAt s (pg_ident pg t) i)\<rparr> else rowAt s u j)"
      "e \<noteq> 0 \<longrightarrow> (\<exists>row. rowAt s (pg_ident pg t) i = Some row \<and> rw_version row = e)"
proof (cases "tableName k c")
  case (Inl er)
  with assms that(1) show ?thesis by (auto simp: PutVersioned_def)
next
  case (Inr t)
  show ?thesis
  proof (cases "e = 0")
    case True
    then have sc: "scanVersion s (DbError ''no rows in result set'') (exec pg (InsertOrBump t i d) s) = (r, s')"
      using assms Inr by (simp add: PutVersioned_def)
    show ?thesis
    proof (cases "exec pg (InsertOrBump t i d) s")
      case (Inl er)
      with sc that(1) show ?thesis by (auto simp: scanVersion_def)
    next
      case (Inr x)
      obtain rp s1 where x: "x = (rp, s1)" by (cases x)
      note F = InsertOrBump_row[OF Inr[unfolded x]]
      with sc Inr x have "r = Inr (nextVersion (rowAt s (pg_ident pg t) i))" "s' = s1"
        by (auto simp: scanVersion_def)
      with F True \<open>tableName k c = Inr t\<close> that(2) show ?thesis by blast
    qed
  next
    case False
    then have sc: "scanVersion s ErrVersionConflict (exec pg (UpdateIfVersion t i d e) s) = (r, s')"
      using assms Inr by (simp add: PutVersioned_def)
    show ?thesis
    proof (cases "exec pg (UpdateIfVersion t i d e) s")
      case (Inl er)
      with sc that(1) show ?thesis by (auto simp: scanVersion_def)
    next
      case (Inr x)
      obtain rp s1 where x: "x = (rp, s1)" by (cases x)
      from UpdateIfVersion_row[OF Inr[unfolded x]] show ?thesis
      proof (elim disjE exE conjE)
        assume "rp = NoRows" "s1 = s"
        with sc Inr x that(1) show ?thesis by (auto simp: scanVersion_def)
      next
        fix row
        assume A: "rowAt s (pg_ident pg t) i = Some row" "rw_version row = e" "rp = VersionRow (e + 1)"
          "\<forall>u j. rowAt s1 u j = (if u = pg_ident pg t \<and> j = i then Some \<lparr>rw_data = d, rw_version = e + 1\<rparr> else rowAt s u j)"
        with sc Inr x have "r = Inr (e + 1)" "s' = s1" by (auto simp: scanVersion_def)
        with A \<open>tableName k c = Inr t\<close> that(2)[of t] show ?thesis by (simp add: nextVersion_def)
      qed
    qed
  qed
qed

lemma DeleteIn_row:
  assumes "DeleteIn pg k c i s = (r, s')"
  obtains er where "r = Inl er" "s' = s"
  | t where "tableName k c = Inr t"
      "\<forall>u j. rowAt s' u j = (if u = pg_ident pg t \<and> j = i then None else rowAt s u j)"
proof (cases "tableName k c")
  case (Inl er)
  with assms that(1) show ?thesis by (auto simp: DeleteIn_def)
next
  case (Inr t)
  show ?thesis
  proof (cases "exec pg (DeleteDoc t i) s")
    case (Inl er)
    with assms Inr that(1) show ?thesis by (auto simp: DeleteIn_def)
  next
    case x: (Inr x)
    then obtain rp s1 where "x = (rp, s1)" by (cases x)
    with x assms Inr DeleteDoc_row[of pg t i s rp s1] that(2)[OF Inr] show ?thesis
      by (auto simp: DeleteIn_def split: reply.splits)
  qed
qed

section \<open>Sharing a table\<close>

text \<open>Keys with underscores are not separated. The collection \<open>b_c\<close> of plugin \<open>a\<close> and the collection \<open>c\<close> of plugin
  \<open>a_b\<close> are one table: what the first plugin writes, the second one reads, with the version the writer
  was given. Any three identifiers give such a pair.\<close>

theorem tables_shared:
  assumes "identifierRE a" "identifierRE b" "identifierRE c"
    "PutVersioned pg a (b @ ''_'' @ c) docID data e s = (Inr v, s')"
    "\<forall>t. pg_fault pg (SelectVersioned t docID) s' = None"
  shows "GetVersioned pg (a @ ''_'' @ b) c docID s' = Inr (Some (data, v))"
proof -
  let ?t = "''ext_'' @ a @ ''_'' @ b @ ''_'' @ c"
  have t: "tableName (a @ ''_'' @ b) c = Inr ?t" "tableName a (b @ ''_'' @ c) = Inr ?t"
    using assms(1-3) identifierRE_join by (simp_all add: tableName_Inr)
  from assms(4) obtain u where u: "tableName a (b @ ''_'' @ c) = Inr u"
    and row: "rowAt s' (pg_ident pg u) docID = Some \<lparr>rw_data = data, rw_version = v\<rparr>"
    by (rule PutVersioned_row) auto
  have "u = ?t" using u t(2) by simp
  with row have "rowAt s' (pg_ident pg ?t) docID = Some \<lparr>rw_data = data, rw_version = v\<rparr>" by (rule subst[rotated])
  then obtain tb where "map_of (st_tables s') (pg_ident pg ?t) = Some tb" "map_of tb docID = Some \<lparr>rw_data = data, rw_version = v\<rparr>"
    by (auto simp: rowAt_def split: option.splits)
  then have "exec pg (SelectVersioned ?t docID) s' = Inr (DocRow data v, s')"
    using assms(5) by (simp add: exec_def onTable_def)
  with t(1) show ?thesis by (simp add: GetVersioned_def)
qed

text \<open>A server that folds identifiers to lower case and never fails, with one empty table.\<close>

definition samplePg :: Pg where
  "samplePg = \<lparr>pg_ident = toLower, pg_fault = (\<lambda>q s. None)\<rparr>"

definition sampleStore :: Store where
  "sampleStore = \<lparr>st_tables = [(''ext_crm_eu_leads'', [])], st_indexes = []\<rparr>"

theorem tables_shared_witness:
  "\<exists>s'. PutVersioned samplePg ''crm'' ''eu_leads'' ''7'' ''x'' 0 sampleStore = (Inr 1, s') \<and>
     GetVersioned samplePg ''crm_eu'' ''leads'' ''7'' s' = Inr (Some (''x'', 1))"
proof -
  let ?s = "setRow ''ext_crm_eu_leads'' [] ''7'' \<lparr>rw_data = ''x'', rw_version = 1\<rparr> sampleStore"
  have w: "PutVersioned samplePg ''crm'' (''eu'' @ ''_'' @ ''leads'') ''7'' ''x'' 0 sampleStore = (Inr 1, ?s)"
    by code_simp
  have "identifierRE ''crm''" "identifierRE ''eu''" "identifierRE ''leads''" by code_simp+
  from tables_shared[OF this w] have "GetVersioned samplePg (''crm'' @ ''_'' @ ''eu'') ''leads'' ''7'' ?s = Inr (Some (''x'', 1))"
    by (simp add: samplePg_def)
  with w show ?thesis by auto
qed

section \<open>Optimistic writes\<close>

text \<open>The contract a client of versioned documents relies on. \<open>look\<close> is the document's content and version,
  \<open>step\<close> any operation any client may perform, \<open>gone\<close> the operations that may remove it.\<close>

locale versioned_doc =
  fixes look :: "'s \<Rightarrow> ('d \<times> int) option"
    and step :: "'o \<Rightarrow> 's \<Rightarrow> 's"
    and gone :: "'o \<Rightarrow> bool"
  assumes step_grows: "\<not> gone x \<Longrightarrow> look s = Some (d, v) \<Longrightarrow>
      look (step x s) = Some (d, v) \<or> (\<exists>d' v'. look (step x s) = Some (d', v') \<and> v < v')"
begin

lemma run_grows:
  assumes "\<forall>x \<in> set ops. \<not> gone x" "look s = Some (d, v)"
  shows "look (fold step ops s) = Some (d, v) \<or> (\<exists>d' v'. look (fold step ops s) = Some (d', v') \<and> v < v')"
  using assms
proof (induction ops arbitrary: s d v)
  case (Cons x xs)
  then consider "look (step x s) = Some (d, v)" | d' v' where "look (step x s) = Some (d', v')" "v < v'"
    using step_grows[of x s d v] by auto
  then show ?case
  proof cases
    case 1
    with Cons show ?thesis by simp
  next
    case 2
    with Cons.IH[of "step x s" d' v'] Cons.prems(1) show ?thesis by force
  qed
qed simp

lemma same_version_same_content:
  assumes "\<forall>x \<in> set ops. \<not> gone x" "look s = Some (d, v)" "look (fold step ops s) = Some (d', v)"
  shows "d' = d"
  using run_grows[OF assms(1,2)] assms(3) by auto

end

text \<open>The operations plugins reach: writes, deletes, and batches in their own transaction.\<close>

datatype docOp =
    OpPut string string string string int
  | OpDelete string string string
  | OpBatch bool bool string "BatchOp list"

definition docStep :: "Pg \<Rightarrow> docOp \<Rightarrow> Store \<Rightarrow> Store" where
  "docStep pg x s =
     (case x of
        OpPut k c i d e \<Rightarrow> snd (PutVersioned pg k c i d e s)
      | OpDelete k c i \<Rightarrow> snd (DeleteIn pg k c i s)
      | OpBatch b1 b2 k bs \<Rightarrow> snd (BatchWrite pg False b1 b2 k bs s))"

definition sameDoc :: "Pg \<Rightarrow> string \<Rightarrow> string \<Rightarrow> string \<Rightarrow> string \<Rightarrow> string \<Rightarrow> bool" where
  "sameDoc pg t i k c j = (case tableName k c of Inl _ \<Rightarrow> False | Inr u \<Rightarrow> pg_ident pg u = t \<and> i = j)"

definition docGone :: "Pg \<Rightarrow> string \<Rightarrow> string \<Rightarrow> docOp \<Rightarrow> bool" where
  "docGone pg t i x =
     (case x of
        OpPut k c j d e \<Rightarrow> False
      | OpDelete k c j \<Rightarrow> sameDoc pg t i k c j
      | OpBatch b1 b2 k bs \<Rightarrow> list_ex (\<lambda>b. bo_Delete b \<and> sameDoc pg t i k (bo_Collection b) (bo_DocID b)) bs)"

definition docLook :: "string \<Rightarrow> string \<Rightarrow> Store \<Rightarrow> (string \<times> int) option" where
  "docLook t i s = map_option (\<lambda>row. (rw_data row, rw_version row)) (rowAt s t i)"

definition grows :: "(string \<times> int) option \<Rightarrow> (string \<times> int) option \<Rightarrow> bool" where
  "grows a b = (\<forall>d v. a = Some (d, v) \<longrightarrow> b = Some (d, v) \<or> (\<exists>d' v'. b = Some (d', v') \<and> v < v'))"

lemma grows_refl: "grows a a"
  by (simp add: grows_def)

lemma grows_trans: "grows a b \<Longrightarrow> grows b c \<Longrightarrow> grows a c"
  unfolding grows_def by fastforce

lemma PutVersioned_grows: "grows (docLook t i s) (docLook t i (snd (PutVersioned pg k c j d e s)))"
proof -
  obtain r s' where P: "PutVersioned pg k c j d e s = (r, s')" by (cases "PutVersioned pg k c j d e s")
  then show ?thesis
    by (rule PutVersioned_row) (auto simp: P docLook_def grows_def nextVersion_def split: option.splits)
qed

lemma DeleteIn_grows:
  assumes "\<not> sameDoc pg t i k c j"
  shows "grows (docLook t i s) (docLook t i (snd (DeleteIn pg k c j s)))"
proof -
  obtain r s' where P: "DeleteIn pg k c j s = (r, s')" by (cases "DeleteIn pg k c j s")
  then show ?thesis
    by (rule DeleteIn_row) (use assms in \<open>auto simp: P docLook_def sameDoc_def grows_def\<close>)
qed

lemma applyFrom_grows:
  assumes "\<not> list_ex (\<lambda>b. bo_Delete b \<and> sameDoc pg t i k (bo_Collection b) (bo_DocID b)) bs"
  shows "grows (docLook t i s) (docLook t i (snd (applyFrom n pg k bs s)))"
  using assms
proof (induction bs arbitrary: n s)
  case (Cons b bs)
  define s1 where "s1 = (if bo_Delete b then snd (DeleteIn pg k (bo_Collection b) (bo_DocID b) s)
      else snd (PutVersioned pg k (bo_Collection b) (bo_DocID b) (bo_Data b) 0 s))"
  have g: "grows (docLook t i s) (docLook t i s1)"
    using Cons.prems DeleteIn_grows[of pg t i k "bo_Collection b" "bo_DocID b"]
    by (cases "bo_Delete b") (simp_all add: s1_def PutVersioned_grows)
  have "snd (applyFrom n pg k (b # bs) s) = s1 \<or> snd (applyFrom n pg k (b # bs) s) = snd (applyFrom (n + 1) pg k bs s1)"
    by (cases "bo_Delete b") (auto simp: s1_def split: sum.splits prod.splits)
  moreover have "grows (docLook t i s1) (docLook t i (snd (applyFrom (n + 1) pg k bs s1)))"
    using Cons.IH[of s1 "n + 1"] Cons.prems by simp
  ultimately show ?case using g grows_trans[OF g] by auto
qed (simp add: grows_refl)

lemma BatchWrite_grows:
  assumes "\<not> list_ex (\<lambda>b. bo_Delete b \<and> sameDoc pg t i k (bo_Collection b) (bo_DocID b)) bs"
  shows "grows (docLook t i s) (docLook t i (snd (BatchWrite pg j b1 b2 k bs s)))"
proof -
  obtain r s1 where A: "applyBatch pg k bs s = (r, s1)" by (cases "applyBatch pg k bs s")
  then have "grows (docLook t i s) (docLook t i s1)"
    using applyFrom_grows[OF assms, of s 0] by (simp add: applyBatch_def)
  with A show ?thesis by (auto simp: BatchWrite_def grows_refl split: sum.splits)
qed

lemma docStep_grows: "\<not> docGone pg t i x \<Longrightarrow> grows (docLook t i s) (docLook t i (docStep pg x s))"
  by (cases x) (simp_all add: docStep_def docGone_def PutVersioned_grows DeleteIn_grows BatchWrite_grows)

interpretation doc: versioned_doc "docLook t i" "docStep pg" "docGone pg t i"
  by unfold_locales (use docStep_grows in \<open>force simp: grows_def\<close>)

text \<open>C6: No update is lost. A plugin that read a document at some version and later writes it back
  expecting that version, whatever writes, deletes of other documents and batches any plugin performed in
  between, either gets an error and changes nothing, or the document still was exactly what it had read,
  and now holds the new content under the next version.\<close>

theorem no_lost_update:
  assumes "tableName k c = Inr t" "docLook (pg_ident pg t) i s = Some (d, v)" "v \<noteq> 0"
    "\<forall>x \<in> set ops. \<not> docGone pg (pg_ident pg t) i x"
    "s' = fold (docStep pg) ops s" "PutVersioned pg k c i d' v s' = (r, s'')"
  shows "(\<exists>e. r = Inl e \<and> s'' = s') \<or>
    (docLook (pg_ident pg t) i s' = Some (d, v) \<and> r = Inr (v + 1) \<and> docLook (pg_ident pg t) i s'' = Some (d', v + 1))"
  using assms(6)
proof (rule PutVersioned_row)
  fix u
  assume u: "tableName k c = Inr u" "r = Inr (nextVersion (rowAt s' (pg_ident pg u) i))"
    "\<forall>T j. rowAt s'' T j = (if T = pg_ident pg u \<and> j = i
      then Some \<lparr>rw_data = d', rw_version = nextVersion (rowAt s' (pg_ident pg u) i)\<rparr> else rowAt s' T j)"
    "v \<noteq> 0 \<longrightarrow> (\<exists>row. rowAt s' (pg_ident pg u) i = Some row \<and> rw_version row = v)"
  have "u = t" using u(1) assms(1) by simp
  then obtain row where row: "rowAt s' (pg_ident pg t) i = Some row" "rw_version row = v" using u(4) assms(3) by auto
  then have "docLook (pg_ident pg t) i s' = Some (rw_data row, v)" by (simp add: docLook_def)
  moreover from this have "rw_data row = d"
    using doc.same_version_same_content[OF assms(4,2)] assms(5) by simp
  ultimately show ?thesis using u(2,3) row \<open>u = t\<close> by (simp add: docLook_def nextVersion_def)
qed simp

theorem no_lost_update_witness:
  "\<exists>s''. PutVersioned samplePg ''crm'' ''eu_leads'' ''7'' ''z'' 1
     (fold (docStep samplePg) [OpPut ''crm'' ''eu_leads'' ''8'' ''y'' 0]
       (setRow ''ext_crm_eu_leads'' [] ''7'' \<lparr>rw_data = ''x'', rw_version = 1\<rparr> sampleStore)) = (Inr 2, s'') \<and>
     docLook ''ext_crm_eu_leads'' ''7'' s'' = Some (''z'', 2)"
proof -
  let ?s = "setRow ''ext_crm_eu_leads'' [] ''7'' \<lparr>rw_data = ''x'', rw_version = 1\<rparr> sampleStore"
  let ?ops = "[OpPut ''crm'' ''eu_leads'' ''8'' ''y'' 0]"
  let ?p = "PutVersioned samplePg ''crm'' ''eu_leads'' ''7'' ''z'' 1 (fold (docStep samplePg) ?ops ?s)"
  have ok: "fst ?p = Inr 2" by code_simp
  have t: "tableName ''crm'' ''eu_leads'' = Inr ''ext_crm_eu_leads''" by code_simp
  have id: "pg_ident samplePg ''ext_crm_eu_leads'' = ''ext_crm_eu_leads''" by code_simp
  have look: "docLook (pg_ident samplePg ''ext_crm_eu_leads'') ''7'' ?s = Some (''x'', 1)" by code_simp
  have "\<forall>x \<in> set ?ops. \<not> docGone samplePg (pg_ident samplePg ''ext_crm_eu_leads'') ''7'' x" by (simp add: docGone_def)
  from no_lost_update[OF t look _ this refl surjective_pairing[of ?p]] ok id show ?thesis
    by (metis prod.collapse sum.distinct(1) one_add_one zero_neq_one)
qed

section \<open>Batches\<close>

text \<open>What an operation of a batch does to the rows, on the level of a function from table and id.\<close>

definition specOp :: "Pg \<Rightarrow> string \<Rightarrow> BatchOp \<Rightarrow> (string \<Rightarrow> string \<Rightarrow> Row option) \<Rightarrow> string \<Rightarrow> string \<Rightarrow> Row option" where
  "specOp pg k b rows =
     (let t = pg_ident pg (''ext_'' @ k @ ''_'' @ bo_Collection b)
      in (\<lambda>u j. if u = t \<and> j = bo_DocID b
                then (if bo_Delete b then None
                      else Some \<lparr>rw_data = bo_Data b, rw_version = nextVersion (rows t (bo_DocID b))\<rparr>)
                else rows u j))"

lemma DeleteIn_spec:
  assumes "DeleteIn pg k (bo_Collection b) (bo_DocID b) s = (Inr x, s1)" "bo_Delete b"
  shows "rowAt s1 = specOp pg k b (rowAt s)"
  using assms(1) by (rule DeleteIn_row) (auto simp: specOp_def Let_def tableName_Inr assms(2) fun_eq_iff)

lemma PutVersioned_spec:
  assumes "PutVersioned pg k (bo_Collection b) (bo_DocID b) (bo_Data b) 0 s = (Inr x, s1)" "\<not> bo_Delete b"
  shows "rowAt s1 = specOp pg k b (rowAt s)"
  using assms(1) by (rule PutVersioned_row) (auto simp: specOp_def Let_def tableName_Inr assms(2) fun_eq_iff)

lemma applyFrom_spec:
  assumes "applyFrom n pg k bs s = (Inr m, s')"
  shows "m = n + length bs \<and> rowAt s' = fold (specOp pg k) bs (rowAt s)"
  using assms
proof (induction bs arbitrary: n s)
  case (Cons b bs)
  obtain s1 where "rowAt s1 = specOp pg k b (rowAt s)" "applyFrom (n + 1) pg k bs s1 = (Inr m, s')"
  proof (cases "bo_Delete b")
    case True
    with Cons.prems obtain x s1 where "DeleteIn pg k (bo_Collection b) (bo_DocID b) s = (Inr x, s1)"
      "applyFrom (n + 1) pg k bs s1 = (Inr m, s')" by (auto split: prod.splits sum.splits)
    with True that DeleteIn_spec show ?thesis by blast
  next
    case False
    with Cons.prems obtain x s1 where "PutVersioned pg k (bo_Collection b) (bo_DocID b) (bo_Data b) 0 s = (Inr x, s1)"
      "applyFrom (n + 1) pg k bs s1 = (Inr m, s')" by (auto split: prod.splits sum.splits)
    with False that PutVersioned_spec show ?thesis by blast
  qed
  with Cons.IH[of "n + 1" s1] show ?case by simp
qed simp

text \<open>C28: A batch is all or nothing. In its own transaction it either fails and leaves the store
  exactly as it was, or reports the number of its operations and has had the effect of all of them in order.\<close>

theorem batch_all_or_nothing:
  assumes "BatchWrite pg False beginOk commitOk k bs s = (r, s')"
  shows "case r of Inl e \<Rightarrow> s' = s | Inr n \<Rightarrow> n = length bs \<and> rowAt s' = fold (specOp pg k) bs (rowAt s)"
proof -
  obtain r1 s1 where A: "applyFrom 0 pg k bs s = (r1, s1)" by (cases "applyFrom 0 pg k bs s")
  show ?thesis
  proof (cases r1)
    case (Inl e)
    with assms A show ?thesis by (auto simp: BatchWrite_def applyBatch_def split: if_splits)
  next
    case (Inr n)
    with assms A applyFrom_spec[OF A[unfolded Inr]] show ?thesis
      by (auto simp: BatchWrite_def applyBatch_def split: if_splits)
  qed
qed

definition sampleBatch :: "BatchOp list" where
  "sampleBatch = [\<lparr>bo_Delete = False, bo_Collection = ''eu_leads'', bo_DocID = ''1'', bo_Data = ''x''\<rparr>,
                  \<lparr>bo_Delete = False, bo_Collection = ''bad-name'', bo_DocID = ''2'', bo_Data = ''y''\<rparr>]"

theorem batch_all_or_nothing_witness:
  "\<exists>e. BatchWrite samplePg False True True ''crm'' sampleBatch sampleStore = (Inl e, sampleStore)"
proof -
  define b where "b = BatchWrite samplePg False True True ''crm'' sampleBatch sampleStore"
  have e: "fst b = Inl (BatchOpErr 1 (InvalidIdentifier ''bad-name''))" unfolding b_def by code_simp
  have "BatchWrite samplePg False True True ''crm'' sampleBatch sampleStore = (fst b, snd b)" by (simp add: b_def)
  from batch_all_or_nothing[OF this] have "snd b = sampleStore" unfolding e by simp
  with e have "b = (Inl (BatchOpErr 1 (InvalidIdentifier ''bad-name'')), sampleStore)" by (simp add: prod_eq_iff)
  then show ?thesis unfolding b_def by blast
qed

section \<open>Reconciliation\<close>

definition declaredNames :: "string \<Rightarrow> CollectionSchema \<Rightarrow> string set" where
  "declaredNames k col = {indexName k (cs_Name col) (di_Fields idx) |idx. idx \<in> set (cs_Indexes col) \<and> di_Fields idx \<noteq> []}"

text \<open>Names in the catalogue are names the server gave: resolving them again changes nothing.\<close>

definition catalogued :: "Pg \<Rightarrow> Store \<Rightarrow> bool" where
  "catalogued pg s \<longleftrightarrow> (\<forall>ix \<in> set (st_indexes s). pg_ident pg (ix_name ix) = ix_name ix)"

lemma exec_Inr: "exec pg q s = Inr x \<longleftrightarrow> pg_fault pg q s = None \<and> runStmt pg q s = Inr x"
  by (auto simp: exec_def split: option.splits)

lemma CreateIndex_facts:
  assumes "exec pg (CreateIndex u n t es) s = Inr (r, s1)" "\<forall>x. pg_ident pg (pg_ident pg x) = pg_ident pg x"
  shows "pg_ident pg n \<in> ix_name ` set (st_indexes s1)" "set (st_indexes s) \<subseteq> set (st_indexes s1)"
    "catalogued pg s \<Longrightarrow> catalogued pg s1"
  using assms by (auto simp: exec_Inr onTable_def catalogued_def split: option.splits if_splits)

lemma createIndexes_facts:
  assumes "createIndexes pg k c t idxs ds s = (Inr desired, s')" "\<forall>x. pg_ident pg (pg_ident pg x) = pg_ident pg x"
    "catalogued pg s" "\<forall>n \<in> set ds. pg_ident pg n \<in> ix_name ` set (st_indexes s)"
  shows "set desired = set ds \<union> {indexName k c (di_Fields idx) |idx. idx \<in> set idxs \<and> di_Fields idx \<noteq> []} \<and>
    catalogued pg s' \<and> (\<forall>n \<in> set desired. pg_ident pg n \<in> ix_name ` set (st_indexes s'))"
  using assms
proof (induction idxs arbitrary: ds s)
  case (Cons idx idxs)
  let ?goal = "\<lambda>ds idxs. set desired = set ds \<union> {indexName k c (di_Fields idx) |idx. idx \<in> set idxs \<and> di_Fields idx \<noteq> []} \<and>
    catalogued pg s' \<and> (\<forall>n \<in> set desired. pg_ident pg n \<in> ix_name ` set (st_indexes s'))"
  show ?case
  proof (cases "di_Fields idx = []")
    case True
    with Cons.prems have "createIndexes pg k c t idxs ds s = (Inr desired, s')" by simp
    from Cons.IH[OF this Cons.prems(2-4)] have "?goal ds idxs" .
    with True show ?thesis by auto
  next
    case False
    with Cons.prems(1) obtain es r s1 where
      ex: "exec pg (CreateIndex (di_Unique idx) (indexName k c (di_Fields idx)) t es) s = Inr (r, s1)" and
      rec: "createIndexes pg k c t idxs (indexName k c (di_Fields idx) # ds) s1 = (Inr desired, s')"
      by (auto simp: Let_def split: sum.splits prod.splits)
    note F = CreateIndex_facts[OF ex Cons.prems(2)]
    have "\<forall>n \<in> set (indexName k c (di_Fields idx) # ds). pg_ident pg n \<in> ix_name ` set (st_indexes s1)"
      using F(1) Cons.prems(4) image_mono[OF F(2), of ix_name] by auto
    from Cons.IH[OF rec Cons.prems(2) F(3)[OF Cons.prems(3)] this]
    have "?goal (indexName k c (di_Fields idx) # ds) idxs" .
    with False show ?thesis by auto
  qed
qed auto

lemma dropIndexes_facts:
  assumes "dropIndexes pg ns s = (Inr u, s')"
  shows "st_indexes s' = filter (\<lambda>ix. \<forall>n \<in> set ns. identifierRE n \<longrightarrow> ix_name ix \<noteq> pg_ident pg n) (st_indexes s)"
  using assms
proof (induction ns arbitrary: s)
  case (Cons n ns)
  show ?case
  proof (cases "identifierRE n")
    case False
    with Cons show ?thesis by (simp cong: filter_cong)
  next
    case True
    with Cons.prems obtain r s1 where ex: "exec pg (DropIndex n) s = Inr (r, s1)" and rec: "dropIndexes pg ns s1 = (Inr u, s')"
      by (auto split: sum.splits prod.splits)
    then have "st_indexes s1 = filter (\<lambda>ix. ix_name ix \<noteq> pg_ident pg n) (st_indexes s)" by (auto simp: exec_Inr)
    with Cons.IH[OF rec] True show ?thesis by (auto intro: filter_cong)
  qed
qed simp

definition indexPattern :: "string \<Rightarrow> string \<Rightarrow> string" where
  "indexPattern k c = ''idx_'' @ k @ ''_'' @ c @ ''_'' @ ''%''"

lemma dropStale_facts:
  assumes "dropStaleIndexes pg k c t desired s = (Inr u, s')" "catalogued pg s"
  shows "ix \<in> set (st_indexes s') \<longleftrightarrow> ix \<in> set (st_indexes s) \<and>
    \<not> (\<exists>iy \<in> set (st_indexes s). ix_name iy = ix_name ix \<and> ix_table iy = t \<and> like (indexPattern k c) (ix_name iy) \<and>
       ix_name iy \<notin> set desired \<and> identifierRE (ix_name iy))"
proof -
  define ns where "ns = map ix_name (filter (\<lambda>ix. ix_table ix = t \<and> like (indexPattern k c) (ix_name ix)) (st_indexes s))"
  have "dropIndexes pg (filter (\<lambda>n. n \<notin> set desired) ns) s = (Inr u, s')"
    using assms(1) by (auto simp: dropStaleIndexes_def indexPattern_def ns_def Let_def exec_def split: option.splits)
  note D = dropIndexes_facts[OF this]
  have "pg_ident pg n = n" if "n \<in> set ns" for n using that assms(2) by (auto simp: ns_def catalogued_def)
  then have "ix \<in> set (st_indexes s') \<longleftrightarrow> ix \<in> set (st_indexes s) \<and>
      (\<forall>n \<in> set ns. n \<notin> set desired \<and> identifierRE n \<longrightarrow> ix_name ix \<noteq> n)"
    unfolding D by auto
  then show ?thesis by (auto simp: ns_def)
qed

lemma reconcile_steps:
  assumes "ReconcileSchema pg k [col] s = (Inr u, s')" "catalogued pg s" "\<forall>x. pg_ident pg (pg_ident pg x) = pg_ident pg x"
  obtains t desired s3 where "tableName k (cs_Name col) = Inr t" "set desired = declaredNames k col"
    "dropStaleIndexes pg k (cs_Name col) t desired s3 = (Inr (), s')" "catalogued pg s3"
    "\<forall>n \<in> set desired. pg_ident pg n \<in> ix_name ` set (st_indexes s3)"
proof -
  have "reconcileCollection pg k col s = (Inr (), s')"
    using assms(1) by (auto split: sum.splits prod.splits)
  then obtain t r1 s1 r2 s2 desired s3 where t: "tableName k (cs_Name col) = Inr t"
    and c1: "exec pg (CreateTable t) s = Inr (r1, s1)" and c2: "exec pg (AddVersionColumn t) s1 = Inr (r2, s2)"
    and c3: "createIndexes pg k (cs_Name col) t (cs_Indexes col) [] s2 = (Inr desired, s3)"
    and c4: "dropStaleIndexes pg k (cs_Name col) t desired s3 = (Inr (), s')"
    unfolding reconcileCollection_def by (auto split: sum.splits prod.splits)
  have "st_indexes s1 = st_indexes s" using c1 by (auto simp: exec_Inr split: option.splits)
  moreover have "s2 = s1" using c2 by (auto simp: exec_Inr onTable_def split: option.splits)
  ultimately have cat: "catalogued pg s2" using assms(2) by (simp add: catalogued_def)
  have F: "set desired = declaredNames k col \<and> catalogued pg s3 \<and>
      (\<forall>n \<in> set desired. pg_ident pg n \<in> ix_name ` set (st_indexes s3))"
    using createIndexes_facts[OF c3 assms(3) cat] by (simp add: declaredNames_def)
  then have "set desired = declaredNames k col" "catalogued pg s3"
    "\<forall>n \<in> set desired. pg_ident pg n \<in> ix_name ` set (st_indexes s3)" by blast+
  then show ?thesis using that t c4 by blast
qed

text \<open>Reconciling a collection leaves exactly the declared indexes, as far as the server keeps names the
  way they are written: no index of the table with the collection's prefix is left that is not declared, and every
  declared index whose name the server does not rewrite exists.\<close>

theorem reconcile_exact:
  assumes "ReconcileSchema pg k [col] s = (Inr u, s')" "catalogued pg s" "\<forall>x. pg_ident pg (pg_ident pg x) = pg_ident pg x"
    "tableName k (cs_Name col) = Inr t"
  shows "(\<forall>ix \<in> set (st_indexes s'). ix_table ix = t \<and> like (indexPattern k (cs_Name col)) (ix_name ix) \<and>
      identifierRE (ix_name ix) \<longrightarrow> ix_name ix \<in> declaredNames k col) \<and>
    (\<forall>n \<in> declaredNames k col. pg_ident pg n = n \<longrightarrow> n \<in> ix_name ` set (st_indexes s'))"
proof -
  obtain t' desired s3 where R: "tableName k (cs_Name col) = Inr t'" "set desired = declaredNames k col"
    "dropStaleIndexes pg k (cs_Name col) t' desired s3 = (Inr (), s')" "catalogued pg s3"
    "\<forall>n \<in> set desired. pg_ident pg n \<in> ix_name ` set (st_indexes s3)"
    by (rule reconcile_steps[OF assms(1-3)])
  have t': "t' = t" using R(1) assms(4) by simp
  note D = dropStale_facts[OF R(3,4)]
  have "ix_name ix \<in> declaredNames k col" if "ix \<in> set (st_indexes s')" "ix_table ix = t"
    "like (indexPattern k (cs_Name col)) (ix_name ix)" "identifierRE (ix_name ix)" for ix
    using that D[of ix] R(2) t' by blast
  moreover have "n \<in> ix_name ` set (st_indexes s')" if n: "n \<in> declaredNames k col" "pg_ident pg n = n" for n
  proof -
    from n R(2,5) obtain ix where "ix \<in> set (st_indexes s3)" "ix_name ix = n" by force
    with n(1) D[of ix] R(2) have "ix \<in> set (st_indexes s')" by auto
    with \<open>ix_name ix = n\<close> show ?thesis by blast
  qed
  ultimately show ?thesis by blast
qed

definition sampleCollection :: "string \<Rightarrow> CollectionSchema" where
  "sampleCollection field = \<lparr>cs_Name = ''eu_leads'', cs_Indexes = [\<lparr>di_Fields = [field], di_Unique = True\<rparr>]\<rparr>"

lemma samplePg_ident: "pg_ident samplePg (pg_ident samplePg x) = pg_ident samplePg x"
proof -
  have "lowerByte (lowerByte c) = lowerByte c" for c
    by (auto simp: lowerByte_def of_char_of)
  then show ?thesis by (simp add: samplePg_def toLower_def)
qed

theorem reconcile_exact_witness:
  "''idx_crm_eu_leads_email'' \<in> ix_name ` set (st_indexes
     (snd (ReconcileSchema samplePg ''crm'' [sampleCollection ''email''] sampleStore)))"
proof -
  define r where "r = ReconcileSchema samplePg ''crm'' [sampleCollection ''email''] sampleStore"
  have ok: "fst r = Inr ()" unfolding r_def by code_simp
  then have R: "ReconcileSchema samplePg ''crm'' [sampleCollection ''email''] sampleStore = (Inr (), snd r)"
    by (simp add: r_def prod_eq_iff)
  have "catalogued samplePg sampleStore" by (simp add: catalogued_def sampleStore_def)
  moreover have "tableName ''crm'' (cs_Name (sampleCollection ''email'')) = Inr ''ext_crm_eu_leads''" by code_simp
  moreover have "''idx_crm_eu_leads_email'' \<in> declaredNames ''crm'' (sampleCollection ''email'')"
    by (simp add: declaredNames_def sampleCollection_def indexName_def)
  moreover have "pg_ident samplePg ''idx_crm_eu_leads_email'' = ''idx_crm_eu_leads_email''" by code_simp
  ultimately show ?thesis
    using reconcile_exact[OF R, of "''ext_crm_eu_leads''"] samplePg_ident unfolding r_def by blast
qed

text \<open>A declared index whose name the server rewrites does not survive. The name is compared as written
  with the catalogue's, so right after creating the index the same run drops it as stale. With
  PostgreSQL this is every index over a field with an upper-case letter.\<close>

theorem reconcile_drops_rewritten:
  assumes "ReconcileSchema pg k [col] s = (Inr u, s')" "catalogued pg s" "\<forall>x. pg_ident pg (pg_ident pg x) = pg_ident pg x"
    "tableName k (cs_Name col) = Inr t" "n \<in> declaredNames k col"
    "pg_ident pg n \<notin> declaredNames k col" "like (indexPattern k (cs_Name col)) (pg_ident pg n)" "identifierRE (pg_ident pg n)"
  shows "\<forall>ix \<in> set (st_indexes s'). ix_table ix = t \<longrightarrow> ix_name ix \<noteq> pg_ident pg n"
proof -
  obtain t' desired s3 where R: "tableName k (cs_Name col) = Inr t'" "set desired = declaredNames k col"
    "dropStaleIndexes pg k (cs_Name col) t' desired s3 = (Inr (), s')" "catalogued pg s3"
    by (rule reconcile_steps[OF assms(1-3)])
  have t': "t' = t" using R(1) assms(4) by simp
  show ?thesis using dropStale_facts[OF R(3,4)] R(2) t' assms(6-8) by metis
qed

theorem reconcile_drops_rewritten_witness:
  "''idx_crm_eu_leads_username'' \<notin> ix_name ` set (filter (\<lambda>ix. ix_table ix = ''ext_crm_eu_leads'')
     (st_indexes (snd (ReconcileSchema samplePg ''crm'' [sampleCollection ''userName''] sampleStore))))"
proof -
  define r where "r = ReconcileSchema samplePg ''crm'' [sampleCollection ''userName''] sampleStore"
  have ok: "fst r = Inr ()" unfolding r_def by code_simp
  then have R: "ReconcileSchema samplePg ''crm'' [sampleCollection ''userName''] sampleStore = (Inr (), snd r)"
    by (simp add: r_def prod_eq_iff)
  have cat: "catalogued samplePg sampleStore" by (simp add: catalogued_def sampleStore_def)
  have t: "tableName ''crm'' (cs_Name (sampleCollection ''userName'')) = Inr ''ext_crm_eu_leads''" by code_simp
  have i: "pg_ident samplePg ''idx_crm_eu_leads_userName'' = ''idx_crm_eu_leads_username''" by code_simp
  have d: "declaredNames ''crm'' (sampleCollection ''userName'') = {''idx_crm_eu_leads_userName''}"
    by (auto simp: declaredNames_def sampleCollection_def indexName_def)
  have l: "like (indexPattern ''crm'' (cs_Name (sampleCollection ''userName''))) ''idx_crm_eu_leads_username''" by code_simp
  have v: "identifierRE ''idx_crm_eu_leads_username''" by code_simp
  have s: "\<forall>x. pg_ident samplePg (pg_ident samplePg x) = pg_ident samplePg x" by (simp add: samplePg_ident)
  have H: "\<forall>ix \<in> set (st_indexes (snd r)). ix_table ix = ''ext_crm_eu_leads'' \<longrightarrow> ix_name ix \<noteq> ''idx_crm_eu_leads_username''"
    using reconcile_drops_rewritten[OF R cat s t, of "''idx_crm_eu_leads_userName''"] l v unfolding i d by simp
  show ?thesis unfolding r_def[symmetric]
  proof
    assume "''idx_crm_eu_leads_username'' \<in> ix_name ` set (filter (\<lambda>ix. ix_table ix = ''ext_crm_eu_leads'') (st_indexes (snd r)))"
    then obtain ix where "''idx_crm_eu_leads_username'' = ix_name ix"
      "ix \<in> set (filter (\<lambda>ix. ix_table ix = ''ext_crm_eu_leads'') (st_indexes (snd r)))" by (rule imageE)
    with H[rule_format, of ix] show False by simp
  qed
qed

end
