(* ===== verification/Queue.thy ===== *)
theory Queue
  imports Breaker
begin

text \<open>
  The durable queue: the table and statements of \<^verbatim>\<open>src/core/db/queue.go\<close> and the backend of \<^verbatim>\<open>src/core/hostsvc/queue.go\<close> on top
  of it. Every operation of the table is one SQL statement and hence one step; the interleavings of any number of
  producers, consumers and the maintenance loop are the sequences of steps. What the server decides is the record
  \<open>QEnv\<close>: its clock, the rows other transactions hold locked (\<^verbatim>\<open>SKIP LOCKED\<close>), the order in which \<^verbatim>\<open>UPDATE .. RETURNING\<close>
  hands rows back, and whether the statement fails.
\<close>

section \<open>The table\<close>

datatype qstatus = Pending | Processing | DoneMsg | Dead

record QRow =
  q_id :: int
  q_owner :: string
  q_topic :: string
  q_payload :: string
  q_status :: qstatus
  q_priority :: int
  q_attempts :: int
  q_max :: int
  q_available :: int
  q_lockedUntil :: "int option"
  q_dedup :: "string option"
  q_error :: "string option"
  q_trace :: string
  q_updated :: int

record Alert =
  al_owner :: string
  al_topic :: string
  al_id :: int
  al_attempts :: int
  al_reason :: string

text \<open>\<open>qt_seq\<close> is the id sequence and \<open>qt_alerts\<close> the calls made to the dead-letter hook, present when \<open>qt_hook\<close> holds.\<close>

record Queue =
  qt_rows :: "QRow list"
  qt_seq :: int
  qt_hook :: bool
  qt_alerts :: "Alert list"

definition NewQueue :: "bool \<Rightarrow> Queue" where
  "NewQueue hook = \<lparr>qt_rows = [], qt_seq = 1, qt_hook = hook, qt_alerts = []\<rparr>"

record Message =
  ms_ID :: int
  ms_Topic :: string
  ms_Payload :: string
  ms_Attempt :: int
  ms_MaxAttempts :: int
  ms_ParentTraceID :: string

record EnqueueOptions =
  eo_Delay :: int
  eo_DedupKey :: string
  eo_Priority :: int
  eo_MaxAttempts :: int
  eo_TraceID :: string

record QEnv =
  qe_dbnow :: int
  qe_locked :: "int \<Rightarrow> bool"
  qe_order :: "Message list \<Rightarrow> Message list"
  qe_fail :: bool

datatype q_err = TopicRequired | StatementFailed | NoDeadMessage int string | TooDeep string int int

definition DefaultMaxAttempts :: int where "DefaultMaxAttempts = 5"

definition inFlight :: "QRow \<Rightarrow> bool" where
  "inFlight r = (q_status r = Pending \<or> q_status r = Processing)"

text \<open>The partial unique index over owner, topic and dedup key of the messages in flight.\<close>

definition dedupClash :: "string \<Rightarrow> string \<Rightarrow> string option \<Rightarrow> QRow \<Rightarrow> bool" where
  "dedupClash owner topic dedup r =
     (dedup \<noteq> None \<and> inFlight r \<and> q_owner r = owner \<and> q_topic r = topic \<and> q_dedup r = dedup)"

definition Enqueue :: "QEnv \<Rightarrow> int \<Rightarrow> string \<Rightarrow> string \<Rightarrow> string \<Rightarrow> EnqueueOptions \<Rightarrow> Queue \<Rightarrow> (q_err + int \<times> bool) \<times> Queue" where
  "Enqueue env now ownerKey topic payload opts q =
     (if topic = [] then (Inl TopicRequired, q)
      else
        let maxAttempts = (if eo_MaxAttempts opts \<le> 0 then DefaultMaxAttempts else eo_MaxAttempts opts);
            availableAt = now + eo_Delay opts;
            dedup = (if eo_DedupKey opts \<noteq> [] then Some (eo_DedupKey opts) else None);
            q1 = q\<lparr>qt_seq := qt_seq q + 1\<rparr>
        in if qe_fail env then (Inl StatementFailed, q)
           else if list_ex (dedupClash ownerKey topic dedup) (qt_rows q) then (Inr (0, True), q1)
           else (Inr (qt_seq q, False),
                 q1\<lparr>qt_rows := qt_rows q @
                   [\<lparr>q_id = qt_seq q, q_owner = ownerKey, q_topic = topic, q_payload = payload, q_status = Pending,
                     q_priority = eo_Priority opts, q_attempts = 0, q_max = maxAttempts, q_available = availableAt,
                     q_lockedUntil = None, q_dedup = dedup, q_error = None, q_trace = eo_TraceID opts,
                     q_updated = qe_dbnow env\<rparr>]\<rparr>))"

definition claimable :: "QEnv \<Rightarrow> string \<Rightarrow> string \<Rightarrow> int \<Rightarrow> QRow \<Rightarrow> bool" where
  "claimable env ownerKey topic now r =
     (q_owner r = ownerKey \<and> q_topic r = topic \<and> q_status r = Pending \<and> q_available r \<le> now \<and> \<not> qe_locked env (q_id r))"

definition claimKey :: "QRow \<Rightarrow> int \<times> int" where
  "claimKey r = (- q_priority r, q_id r)"

definition claimed :: "QEnv \<Rightarrow> string \<Rightarrow> string \<Rightarrow> int \<Rightarrow> nat \<Rightarrow> QRow list \<Rightarrow> QRow list" where
  "claimed env ownerKey topic now limit rows =
     take limit (sort_key claimKey (filter (claimable env ownerKey topic now) rows))"

definition leaseRow :: "QEnv \<Rightarrow> int \<Rightarrow> QRow \<Rightarrow> QRow" where
  "leaseRow env until r =
     r\<lparr>q_status := Processing, q_attempts := q_attempts r + 1, q_lockedUntil := Some until, q_updated := qe_dbnow env\<rparr>"

definition toMessage :: "QRow \<Rightarrow> Message" where
  "toMessage r = \<lparr>ms_ID = q_id r, ms_Topic = q_topic r, ms_Payload = q_payload r, ms_Attempt = q_attempts r,
     ms_MaxAttempts = q_max r, ms_ParentTraceID = q_trace r\<rparr>"

definition Claim :: "QEnv \<Rightarrow> int \<Rightarrow> string \<Rightarrow> string \<Rightarrow> int \<Rightarrow> int \<Rightarrow> Queue \<Rightarrow> (q_err + Message list) \<times> Queue" where
  "Claim env now ownerKey topic limit0 visibility0 q =
     (let limit = (if limit0 \<le> 0 then 1 else limit0);
          visibility = (if visibility0 \<le> 0 then 30 * second else visibility0);
          ids = map q_id (claimed env ownerKey topic now (nat limit) (qt_rows q));
          rows = map (\<lambda>r. if q_id r \<in> set ids then leaseRow env (now + visibility) r else r) (qt_rows q)
      in if qe_fail env then (Inl StatementFailed, q)
         else (Inr (qe_order env (map toMessage (filter (\<lambda>r. q_id r \<in> set ids) rows))), q\<lparr>qt_rows := rows\<rparr>))"

text \<open>An \<^verbatim>\<open>UPDATE\<close> of the message a consumer holds.\<close>

definition heldBy :: "string \<Rightarrow> int \<Rightarrow> QRow \<Rightarrow> bool" where
  "heldBy ownerKey msgID r = (q_id r = msgID \<and> q_owner r = ownerKey \<and> q_status r = Processing)"

definition Ack :: "QEnv \<Rightarrow> string \<Rightarrow> int \<Rightarrow> Queue \<Rightarrow> (q_err + unit) \<times> Queue" where
  "Ack env ownerKey msgID q =
     (if qe_fail env then (Inl StatementFailed, q)
      else (Inr (), q\<lparr>qt_rows := map (\<lambda>r. if heldBy ownerKey msgID r
              then r\<lparr>q_status := DoneMsg, q_lockedUntil := None, q_updated := qe_dbnow env\<rparr> else r) (qt_rows q)\<rparr>))"

definition retryOrPark :: "QRow \<Rightarrow> qstatus" where
  "retryOrPark r = (if q_attempts r \<ge> q_max r then Dead else Pending)"

definition nackRow :: "QEnv \<Rightarrow> int \<Rightarrow> string \<Rightarrow> QRow \<Rightarrow> QRow" where
  "nackRow env available reason r =
     r\<lparr>q_status := retryOrPark r, q_available := available, q_lockedUntil := None, q_error := Some reason,
       q_updated := qe_dbnow env\<rparr>"

definition Nack :: "QEnv \<Rightarrow> int \<Rightarrow> string \<Rightarrow> int \<Rightarrow> string \<Rightarrow> int \<Rightarrow> Queue \<Rightarrow> (q_err + unit) \<times> Queue" where
  "Nack env now ownerKey msgID reason retryAfter0 q =
     (let retryAfter = (if retryAfter0 \<le> 0 then 0 else retryAfter0)
      in if qe_fail env then (Inl StatementFailed, q)
         else (case find (heldBy ownerKey msgID) (qt_rows q) of
                 None \<Rightarrow> (Inr (), q)
               | Some r \<Rightarrow>
                   (let q1 = q\<lparr>qt_rows := map (\<lambda>x. if heldBy ownerKey msgID x then nackRow env (now + retryAfter) reason x else x) (qt_rows q)\<rparr>
                    in if retryOrPark r = Dead \<and> qt_hook q
                       then (Inr (), q1\<lparr>qt_alerts := qt_alerts q @ [\<lparr>al_owner = ownerKey, al_topic = q_topic r, al_id = msgID,
                                al_attempts = q_attempts r, al_reason = reason\<rparr>]\<rparr>)
                       else (Inr (), q1))))"

definition leaseOver :: "int \<Rightarrow> QRow \<Rightarrow> bool" where
  "leaseOver now r = (q_status r = Processing \<and> (case q_lockedUntil r of None \<Rightarrow> False | Some u \<Rightarrow> u < now))"

definition reapRow :: "QEnv \<Rightarrow> QRow \<Rightarrow> QRow" where
  "reapRow env r =
     r\<lparr>q_status := retryOrPark r, q_lockedUntil := None,
       q_error := (case q_error r of None \<Rightarrow> Some ''visibility timeout expired'' | Some e \<Rightarrow> Some e), q_updated := qe_dbnow env\<rparr>"

definition ReapExpired :: "QEnv \<Rightarrow> int \<Rightarrow> Queue \<Rightarrow> (q_err + nat) \<times> Queue" where
  "ReapExpired env now q =
     (if qe_fail env then (Inl StatementFailed, q)
      else (Inr (length (filter (leaseOver now) (qt_rows q))),
            q\<lparr>qt_rows := map (\<lambda>r. if leaseOver now r then reapRow env r else r) (qt_rows q)\<rparr>))"

definition isDeadOf :: "string \<Rightarrow> int \<Rightarrow> QRow \<Rightarrow> bool" where
  "isDeadOf ownerKey msgID r = (q_id r = msgID \<and> q_owner r = ownerKey \<and> q_status r = Dead)"

definition reviveRow :: "QEnv \<Rightarrow> int \<Rightarrow> QRow \<Rightarrow> QRow" where
  "reviveRow env now r =
     r\<lparr>q_status := Pending, q_attempts := 0, q_available := now, q_lockedUntil := None, q_updated := qe_dbnow env\<rparr>"

text \<open>Reviving a message whose dedup key is in flight again is refused by the unique index.\<close>

definition RetryDead :: "QEnv \<Rightarrow> int \<Rightarrow> string \<Rightarrow> int \<Rightarrow> Queue \<Rightarrow> (q_err + unit) \<times> Queue" where
  "RetryDead env now ownerKey msgID q =
     (if qe_fail env then (Inl StatementFailed, q)
      else (case find (isDeadOf ownerKey msgID) (qt_rows q) of
              None \<Rightarrow> (Inl (NoDeadMessage msgID ownerKey), q)
            | Some r \<Rightarrow>
                if list_ex (dedupClash (q_owner r) (q_topic r) (q_dedup r)) (qt_rows q) then (Inl StatementFailed, q)
                else (Inr (), q\<lparr>qt_rows := map (\<lambda>x. if isDeadOf ownerKey msgID x then reviveRow env now x else x) (qt_rows q)\<rparr>)))"

definition oldDone :: "int \<Rightarrow> QRow \<Rightarrow> bool" where
  "oldDone cutoff r = (q_status r = DoneMsg \<and> q_updated r < cutoff)"

definition PurgeDone :: "QEnv \<Rightarrow> int \<Rightarrow> int \<Rightarrow> Queue \<Rightarrow> (q_err + nat) \<times> Queue" where
  "PurgeDone env now olderThan q =
     (if qe_fail env then (Inl StatementFailed, q)
      else (Inr (length (filter (oldDone (now - olderThan)) (qt_rows q))),
            q\<lparr>qt_rows := filter (\<lambda>r. \<not> oldDone (now - olderThan) r) (qt_rows q)\<rparr>))"

section \<open>Counting\<close>

text \<open>A \<^verbatim>\<open>GROUP BY\<close> with \<^verbatim>\<open>count(*)\<close>: one entry per key that occurs.\<close>

definition countBy :: "(QRow \<Rightarrow> 'k) \<Rightarrow> QRow list \<Rightarrow> ('k, int) gomap" where
  "countBy key rows = map (\<lambda>k. (k, int (length (filter (\<lambda>r. key r = k) rows)))) (remdups (map key rows))"

definition DeadDepth :: "QEnv \<Rightarrow> Queue \<Rightarrow> q_err + (string, int) gomap" where
  "DeadDepth env q =
     (if qe_fail env then Inl StatementFailed else Inr (countBy q_owner (filter (\<lambda>r. q_status r = Dead) (qt_rows q))))"

definition PendingDepth :: "QEnv \<Rightarrow> Queue \<Rightarrow> q_err + (string, int) gomap" where
  "PendingDepth env q =
     (if qe_fail env then Inl StatementFailed else Inr (countBy q_owner (filter inFlight (qt_rows q))))"

record QueueStats =
  qs_Pending :: int
  qs_Processing :: int
  qs_Done :: int
  qs_Dead :: int

definition Stats :: "QEnv \<Rightarrow> string \<Rightarrow> string \<Rightarrow> Queue \<Rightarrow> q_err + QueueStats" where
  "Stats env ownerKey topic q =
     (if qe_fail env then Inl StatementFailed else
      let counts = countBy q_status (filter (\<lambda>r. q_owner r = ownerKey \<and> q_topic r = topic) (qt_rows q));
          n = (\<lambda>st. case map_of counts st of None \<Rightarrow> 0 | Some k \<Rightarrow> k)
      in Inr \<lparr>qs_Pending = n Pending, qs_Processing = n Processing, qs_Done = n DoneMsg, qs_Dead = n Dead\<rparr>)"

record DeadMessage =
  dm_ID :: int
  dm_Topic :: string
  dm_Payload :: string
  dm_Attempts :: int
  dm_LastError :: string
  dm_FailedAt :: int

definition toDead :: "QRow \<Rightarrow> DeadMessage" where
  "toDead r = \<lparr>dm_ID = q_id r, dm_Topic = q_topic r, dm_Payload = q_payload r, dm_Attempts = q_attempts r,
     dm_LastError = (case q_error r of None \<Rightarrow> [] | Some e \<Rightarrow> e), dm_FailedAt = q_updated r\<rparr>"

definition DeadList :: "QEnv \<Rightarrow> string \<Rightarrow> int \<Rightarrow> Queue \<Rightarrow> q_err + DeadMessage list" where
  "DeadList env ownerKey limit0 q =
     (if qe_fail env then Inl StatementFailed else
      let limit = (if limit0 \<le> 0 \<or> limit0 > 200 then 50 else limit0)
      in Inr (map toDead (take (nat limit)
           (sort_key (\<lambda>r. (- q_updated r, - q_id r)) (filter (\<lambda>r. q_owner r = ownerKey \<and> q_status r = Dead) (qt_rows q))))))"

section \<open>Steps\<close>

datatype qop =
    QEnqueue QEnv int string string string EnqueueOptions
  | QClaim QEnv int string string int int
  | QAck QEnv string int
  | QNack QEnv int string int string int
  | QReap QEnv int
  | QRetry QEnv int string int
  | QPurge QEnv int int

definition qstep :: "qop \<Rightarrow> Queue \<Rightarrow> Queue" where
  "qstep op q =
     (case op of
        QEnqueue env now ow tp pl opts \<Rightarrow> snd (Enqueue env now ow tp pl opts q)
      | QClaim env now ow tp lim vis \<Rightarrow> snd (Claim env now ow tp lim vis q)
      | QAck env ow i \<Rightarrow> snd (Ack env ow i q)
      | QNack env now ow i why after \<Rightarrow> snd (Nack env now ow i why after q)
      | QReap env now \<Rightarrow> snd (ReapExpired env now q)
      | QRetry env now ow i \<Rightarrow> snd (RetryDead env now ow i q)
      | QPurge env now age \<Rightarrow> snd (PurgeDone env now age q))"

text \<open>Every step maps the rows it keeps one by one and appends at most one fresh row.\<close>

definition claimIds :: "QEnv \<Rightarrow> int \<Rightarrow> string \<Rightarrow> string \<Rightarrow> int \<Rightarrow> Queue \<Rightarrow> int set" where
  "claimIds env now ow tp lim q = q_id ` set (claimed env ow tp now (nat (if lim \<le> 0 then 1 else lim)) (qt_rows q))"

definition leaseEnd :: "int \<Rightarrow> int \<Rightarrow> int" where
  "leaseEnd now vis = now + (if vis \<le> 0 then 30 * second else vis)"

definition revivable :: "string \<Rightarrow> int \<Rightarrow> Queue \<Rightarrow> bool" where
  "revivable ow i q = (case find (isDeadOf ow i) (qt_rows q) of None \<Rightarrow> False
     | Some r \<Rightarrow> \<not> list_ex (dedupClash (q_owner r) (q_topic r) (q_dedup r)) (qt_rows q))"

fun rowFun :: "qop \<Rightarrow> Queue \<Rightarrow> QRow \<Rightarrow> QRow" where
  "rowFun (QEnqueue env now ow tp pl opts) q r = r"
| "rowFun (QClaim env now ow tp lim vis) q r =
     (if \<not> qe_fail env \<and> q_id r \<in> claimIds env now ow tp lim q then leaseRow env (leaseEnd now vis) r else r)"
| "rowFun (QAck env ow i) q r =
     (if \<not> qe_fail env \<and> heldBy ow i r then r\<lparr>q_status := DoneMsg, q_lockedUntil := None, q_updated := qe_dbnow env\<rparr> else r)"
| "rowFun (QNack env now ow i why after) q r =
     (if \<not> qe_fail env \<and> heldBy ow i r then nackRow env (now + (if after \<le> 0 then 0 else after)) why r else r)"
| "rowFun (QReap env now) q r = (if \<not> qe_fail env \<and> leaseOver now r then reapRow env r else r)"
| "rowFun (QRetry env now ow i) q r =
     (if \<not> qe_fail env \<and> isDeadOf ow i r \<and> revivable ow i q then reviveRow env now r else r)"
| "rowFun (QPurge env now age) q r = r"

fun keepRow :: "qop \<Rightarrow> QRow \<Rightarrow> bool" where
  "keepRow (QPurge env now age) r = (qe_fail env \<or> \<not> oldDone (now - age) r)"
| "keepRow op r = True"

definition isFresh :: "Queue \<Rightarrow> QRow \<Rightarrow> bool" where
  "isFresh q r \<longleftrightarrow> q_id r = qt_seq q \<and> q_status r = Pending \<and> q_attempts r = 0 \<and> 0 < q_max r \<and>
     (\<forall>x \<in> set (qt_rows q). \<not> dedupClash (q_owner r) (q_topic r) (q_dedup r) x)"

lemma Enqueue_step:
  "(snd (Enqueue env now ow tp pl opts q) = q) \<or>
   (\<exists>new. qt_rows (snd (Enqueue env now ow tp pl opts q)) = qt_rows q @ new \<and> (new = [] \<or> (\<exists>r. new = [r] \<and> isFresh q r)) \<and>
     qt_seq (snd (Enqueue env now ow tp pl opts q)) = qt_seq q + 1)"
  by (auto simp: Enqueue_def Let_def isFresh_def DefaultMaxAttempts_def list_ex_iff)

lemma Claim_rows:
  "qt_rows (snd (Claim env now ow tp lim vis q)) = map (rowFun (QClaim env now ow tp lim vis) q) (qt_rows q)"
  by (auto simp: Claim_def Let_def claimIds_def leaseEnd_def intro!: map_idI[symmetric])

lemma Nack_rows:
  "qt_rows (snd (Nack env now ow i why after q)) = map (rowFun (QNack env now ow i why after) q) (qt_rows q)"
proof (cases "find (heldBy ow i) (qt_rows q)")
  case None
  then have "\<forall>r \<in> set (qt_rows q). \<not> heldBy ow i r" by (auto simp: find_None_iff)
  with None show ?thesis by (auto simp: Nack_def Let_def intro!: map_idI[symmetric])
next
  case (Some r)
  then show ?thesis by (auto simp: Nack_def Let_def intro!: map_idI[symmetric])
qed

lemma RetryDead_rows:
  "qt_rows (snd (RetryDead env now ow i q)) = map (rowFun (QRetry env now ow i) q) (qt_rows q)"
  by (auto simp: RetryDead_def revivable_def split: option.splits intro!: map_idI[symmetric])

lemma qstep_seq: "qt_seq q \<le> qt_seq (qstep op q)"
proof (cases op)
  case (QEnqueue env now ow tp pl opts)
  then show ?thesis using Enqueue_step[of env now ow tp pl opts q] by (auto simp: qstep_def)
qed (auto simp: qstep_def Claim_def Ack_def Nack_def ReapExpired_def RetryDead_def PurgeDone_def Let_def split: option.splits)

lemma qstep_rows:
  obtains new where "qt_rows (qstep op q) = map (rowFun op q) (filter (keepRow op) (qt_rows q)) @ new"
    "new = [] \<or> (\<exists>r. new = [r] \<and> isFresh q r \<and> qt_seq (qstep op q) = qt_seq q + 1)"
proof (cases op)
  case (QEnqueue env now ow tp pl opts)
  have id: "map (rowFun op q) (filter (keepRow op) (qt_rows q)) = qt_rows q" using QEnqueue by (simp add: map_idI)
  from Enqueue_step[of env now ow tp pl opts q] show ?thesis
  proof (elim disjE exE conjE)
    assume "snd (Enqueue env now ow tp pl opts q) = q"
    with id QEnqueue show ?thesis by (intro that[of "[]"]) (simp_all add: qstep_def)
  next
    fix new
    assume "qt_rows (snd (Enqueue env now ow tp pl opts q)) = qt_rows q @ new" "new = []"
    with id QEnqueue show ?thesis by (intro that[of "[]"]) (simp_all add: qstep_def)
  next
    fix new r
    assume "qt_rows (snd (Enqueue env now ow tp pl opts q)) = qt_rows q @ new" "new = [r]" "isFresh q r"
      "qt_seq (snd (Enqueue env now ow tp pl opts q)) = qt_seq q + 1"
    with id QEnqueue show ?thesis by (intro that[of "[r]"]) (simp_all add: qstep_def)
  qed
next
  case (QClaim env now ow tp lim vis)
  then show ?thesis using Claim_rows by (intro that[of "[]"]) (simp_all add: qstep_def)
next
  case (QNack env now ow i why after)
  then show ?thesis using Nack_rows by (intro that[of "[]"]) (simp_all add: qstep_def)
next
  case (QRetry env now ow i)
  then show ?thesis using RetryDead_rows by (intro that[of "[]"]) (simp_all add: qstep_def)
next
  case (QPurge env now age)
  have id: "map (rowFun (QPurge env now age) q) xs = xs" for xs by (simp add: map_idI)
  have keep: "filter (keepRow (QPurge env now age)) xs = (if qe_fail env then xs else filter (\<lambda>r. \<not> oldDone (now - age) r) xs)" for xs
    by (induction xs) auto
  show ?thesis using QPurge by (intro that[of "[]"]) (simp_all add: qstep_def PurgeDone_def id keep)
qed (rule that[of "[]"], auto simp: qstep_def Ack_def ReapExpired_def PurgeDone_def intro!: map_idI[symmetric] filter_True[symmetric])+

section \<open>The invariant\<close>

text \<open>What a message is never changes; only where it stands does.\<close>

definition sameMsg :: "QRow \<Rightarrow> QRow \<Rightarrow> bool" where
  "sameMsg r r' \<longleftrightarrow> q_id r' = q_id r \<and> q_owner r' = q_owner r \<and> q_topic r' = q_topic r \<and> q_payload r' = q_payload r \<and>
     q_priority r' = q_priority r \<and> q_max r' = q_max r \<and> q_dedup r' = q_dedup r \<and> q_trace r' = q_trace r"

lemma sameMsg_trans: "sameMsg r r' \<Longrightarrow> sameMsg r' r'' \<Longrightarrow> sameMsg r r''"
  by (simp add: sameMsg_def)

lemma rowFun_same: "sameMsg r (rowFun op q r)"
  by (cases op) (auto simp: sameMsg_def leaseRow_def nackRow_def reapRow_def reviveRow_def)

lemma rowFun_id [simp]: "q_id (rowFun op q r) = q_id r"
  using rowFun_same[of r op q] by (simp add: sameMsg_def)

text \<open>A message waiting has an attempt left, one being processed has used at least one and has a lease.\<close>

definition rowOk :: "QRow \<Rightarrow> bool" where
  "rowOk r \<longleftrightarrow> 0 < q_max r \<and> 0 \<le> q_attempts r \<and> q_attempts r \<le> q_max r \<and>
     (q_status r = Pending \<longrightarrow> q_attempts r < q_max r) \<and>
     (q_status r = Processing \<longrightarrow> 1 \<le> q_attempts r \<and> q_lockedUntil r \<noteq> None)"

definition dedupOk :: "QRow list \<Rightarrow> bool" where
  "dedupOk rows \<longleftrightarrow> (\<forall>r \<in> set rows. \<forall>x \<in> set rows. inFlight r \<and> dedupClash (q_owner r) (q_topic r) (q_dedup r) x \<longrightarrow> q_id x = q_id r)"

definition qInv :: "Queue \<Rightarrow> bool" where
  "qInv q \<longleftrightarrow> distinct (map q_id (qt_rows q)) \<and> (\<forall>r \<in> set (qt_rows q). q_id r < qt_seq q) \<and>
     (\<forall>r \<in> set (qt_rows q). rowOk r) \<and> dedupOk (qt_rows q)"

lemma NewQueue_inv: "qInv (NewQueue hook)"
  by (simp add: qInv_def NewQueue_def dedupOk_def)

lemma row_unique: "qInv q \<Longrightarrow> r \<in> set (qt_rows q) \<Longrightarrow> x \<in> set (qt_rows q) \<Longrightarrow> q_id x = q_id r \<Longrightarrow> x = r"
  unfolding qInv_def by (metis distinct_map inj_on_def)

lemma claimIds_pending:
  assumes "qInv q" "r \<in> set (qt_rows q)" "q_id r \<in> claimIds env now ow tp lim q"
  shows "claimable env ow tp now r"
proof -
  from assms(3) obtain x where "x \<in> set (claimed env ow tp now (nat (if lim \<le> 0 then 1 else lim)) (qt_rows q))" "q_id x = q_id r"
    by (auto simp: claimIds_def)
  then have "x \<in> set (qt_rows q)" "claimable env ow tp now x"
    unfolding claimed_def by (auto dest: in_set_takeD)
  with \<open>q_id x = q_id r\<close> row_unique[OF assms(1,2)] show ?thesis by blast
qed

lemma rowFun_ok:
  assumes "qInv q" "r \<in> set (qt_rows q)"
  shows "rowOk (rowFun op q r)"
proof -
  have ok: "rowOk r" using assms by (simp add: qInv_def)
  show ?thesis
  proof (cases op)
    case (QClaim env now ow tp lim vis)
    with ok claimIds_pending[OF assms, of env now ow tp lim] show ?thesis
      by (auto simp: rowOk_def leaseRow_def claimable_def)
  qed (use ok in \<open>auto simp: rowOk_def nackRow_def reapRow_def reviveRow_def retryOrPark_def heldBy_def leaseOver_def\<close>)
qed

lemma rowFun_inFlight:
  assumes "qInv q" "r \<in> set (qt_rows q)" "inFlight (rowFun op q r)"
  shows "inFlight r \<or> (\<forall>x \<in> set (qt_rows q). \<not> dedupClash (q_owner r) (q_topic r) (q_dedup r) x) \<and>
     (\<forall>x \<in> set (qt_rows q). x \<noteq> r \<longrightarrow> rowFun op q x = x)"
proof (cases op)
  case (QClaim env now ow tp lim vis)
  with assms(3) claimIds_pending[OF assms(1,2), of env now ow tp lim] show ?thesis by (auto simp: inFlight_def claimable_def split: if_splits)
next
  case (QRetry env now ow i)
  show ?thesis
  proof (cases "inFlight r")
    case False
    with assms(3) QRetry have d: "isDeadOf ow i r" "revivable ow i q" by (auto split: if_splits)
    have u: "isDeadOf ow i x \<Longrightarrow> x \<in> set (qt_rows q) \<Longrightarrow> x = r" for x
      using d(1) row_unique[OF assms(1,2)] by (auto simp: isDeadOf_def)
    from d(2) obtain y where y: "find (isDeadOf ow i) (qt_rows q) = Some y"
      and c: "\<not> list_ex (dedupClash (q_owner y) (q_topic y) (q_dedup y)) (qt_rows q)"
      by (auto simp: revivable_def split: option.splits)
    from y have "isDeadOf ow i y" "y \<in> set (qt_rows q)" by (auto simp: find_Some_iff)
    with u have "y = r" by blast
    with c u QRetry show ?thesis by (auto simp: list_ex_iff)
  qed simp
qed (use assms(3) in \<open>auto simp: inFlight_def heldBy_def leaseOver_def split: if_splits\<close>)

lemma qstep_mem:
  assumes "r' \<in> set (qt_rows (qstep op q))"
  obtains r where "r \<in> set (qt_rows q)" "r' = rowFun op q r" | "isFresh q r'" "qt_seq (qstep op q) = qt_seq q + 1"
proof -
  obtain new where "qt_rows (qstep op q) = map (rowFun op q) (filter (keepRow op) (qt_rows q)) @ new"
    "new = [] \<or> (\<exists>r. new = [r] \<and> isFresh q r \<and> qt_seq (qstep op q) = qt_seq q + 1)"
    by (rule qstep_rows)
  with assms that show ?thesis by auto
qed

lemma qstep_distinct:
  assumes "distinct (map q_id (qt_rows q))" "\<forall>r \<in> set (qt_rows q). q_id r < qt_seq q"
  shows "distinct (map q_id (qt_rows (qstep op q)))"
proof -
  obtain new where R: "qt_rows (qstep op q) = map (rowFun op q) (filter (keepRow op) (qt_rows q)) @ new"
    "new = [] \<or> (\<exists>r. new = [r] \<and> isFresh q r \<and> qt_seq (qstep op q) = qt_seq q + 1)"
    by (rule qstep_rows)
  have "q_id \<circ> rowFun op q = q_id" by (rule ext) simp
  with R assms show ?thesis by (auto simp: isFresh_def distinct_map_filter)
qed

lemma clash_same:
  assumes "sameMsg r r'" "sameMsg x x'" "dedupClash (q_owner r') (q_topic r') (q_dedup r') x'" "inFlight x"
  shows "dedupClash (q_owner r) (q_topic r) (q_dedup r) x"
  using assms by (simp add: sameMsg_def dedupClash_def)

lemma clash_sym:
  "dedupClash (q_owner r) (q_topic r) (q_dedup r) x \<Longrightarrow> inFlight r \<Longrightarrow> dedupClash (q_owner x) (q_topic x) (q_dedup x) r"
  by (simp add: dedupClash_def)

lemma qstep_dedup:
  assumes "qInv q" "r' \<in> set (qt_rows (qstep op q))" "x' \<in> set (qt_rows (qstep op q))" "inFlight r'"
    "dedupClash (q_owner r') (q_topic r') (q_dedup r') x'"
  shows "q_id x' = q_id r'"
proof -
  have D: "q_id x = q_id r" if "r \<in> set (qt_rows q)" "x \<in> set (qt_rows q)" "inFlight r"
    "dedupClash (q_owner r) (q_topic r) (q_dedup r) x" for r x
    using assms(1) that by (auto simp: qInv_def dedupOk_def)
  have fx: "inFlight x'" using assms(5) by (simp add: dedupClash_def)
  have old_fresh: False if "r \<in> set (qt_rows q)" "inFlight (rowFun op q r)" "isFresh q f" "qt_seq (qstep op q) = qt_seq q + 1"
    "dedupClash (q_owner f) (q_topic f) (q_dedup f) (rowFun op q r)" for r f
  proof -
    have "\<exists>env now ow tp pl opts. op = QEnqueue env now ow tp pl opts"
      using that(4) by (cases op) (auto simp: qstep_def Claim_def Ack_def Nack_def ReapExpired_def RetryDead_def PurgeDone_def
          Let_def split: option.splits if_splits)
    then have "rowFun op q r = r" by auto
    with that show False by (auto simp: isFresh_def)
  qed
  from assms(2) show ?thesis
  proof (rule qstep_mem)
    fix r
    assume r: "r \<in> set (qt_rows q)" "r' = rowFun op q r"
    from assms(3) show ?thesis
    proof (rule qstep_mem)
      fix x
      assume x: "x \<in> set (qt_rows q)" "x' = rowFun op q x"
      show ?thesis
      proof (cases "x = r")
        case False
        have ir: "inFlight r"
        proof (rule ccontr)
          assume "\<not> inFlight r"
          with rowFun_inFlight[OF assms(1) r(1), of op] assms(4) r(2) False x(1)
          have n: "\<not> dedupClash (q_owner r) (q_topic r) (q_dedup r) x" and "rowFun op q x = x" by auto
          then show False using clash_same[OF rowFun_same[of r op q] rowFun_same[of x op q], folded r(2) x(2), OF assms(5)]
              fx x(2) by simp
        qed
        have ix: "inFlight x"
        proof (rule ccontr)
          assume "\<not> inFlight x"
          with rowFun_inFlight[OF assms(1) x(1), of op] fx x(2) False r(1)
          have n: "\<not> dedupClash (q_owner x) (q_topic x) (q_dedup x) r" by auto
          have "dedupClash (q_owner x') (q_topic x') (q_dedup x') r'" using clash_sym[OF assms(5,4)] .
          from clash_same[OF rowFun_same[of x op q] rowFun_same[of r op q], folded r(2) x(2), OF this ir] n show False by simp
        qed
        from D[OF r(1) x(1) ir clash_same[OF rowFun_same[of r op q] rowFun_same[of x op q], folded r(2) x(2), OF assms(5) ix]]
        show ?thesis using r(2) x(2) by simp
      qed (simp add: r x)
    next
      assume "isFresh q x'" "qt_seq (qstep op q) = qt_seq q + 1"
      with old_fresh[of r x'] r assms(4) clash_sym[OF assms(5,4)] show ?thesis by simp
    qed
  next
    assume f: "isFresh q r'" "qt_seq (qstep op q) = qt_seq q + 1"
    from assms(3) show ?thesis
    proof (rule qstep_mem)
      fix x
      assume "x \<in> set (qt_rows q)" "x' = rowFun op q x"
      with old_fresh[of x r'] f fx assms(5) show ?thesis by simp
    qed (use f in \<open>simp add: isFresh_def\<close>)
  qed
qed

lemma qstep_inv:
  assumes "qInv q"
  shows "qInv (qstep op q)"
  unfolding qInv_def
proof (intro conjI ballI)
  show "distinct (map q_id (qt_rows (qstep op q)))" using qstep_distinct assms by (simp add: qInv_def)
  show "dedupOk (qt_rows (qstep op q))" using qstep_dedup[OF assms] unfolding dedupOk_def by blast
  fix r'
  assume r': "r' \<in> set (qt_rows (qstep op q))"
  show "q_id r' < qt_seq (qstep op q)"
    using r'
  proof (rule qstep_mem)
    fix r
    assume "r \<in> set (qt_rows q)" "r' = rowFun op q r"
    with assms have "q_id r' < qt_seq q" by (simp add: qInv_def)
    with qstep_seq[of q op] show ?thesis by simp
  qed (simp add: isFresh_def)
  show "rowOk r'" using r' by (rule qstep_mem) (use rowFun_ok[OF assms] in \<open>auto simp: isFresh_def rowOk_def\<close>)
qed

lemma qsteps_inv: "qInv q \<Longrightarrow> qInv (fold qstep ops q)"
  by (induction ops arbitrary: q) (auto simp: qstep_inv)

text \<open>C29: The queue table stays consistent under every interleaving of enqueues, claims, acknowledgements, retries,
  reaping, revival and purging: ids are unique, a waiting message has an attempt left, one being processed
  has a lease and never more attempts than its maximum, and no two messages in flight for one plugin and topic
  share a dedup key.\<close>

theorem queue_invariant: "qInv (fold qstep ops (NewQueue hook))"
  by (rule qsteps_inv[OF NewQueue_inv])

section \<open>Leases\<close>

definition leased :: "int \<Rightarrow> string \<Rightarrow> int \<Rightarrow> Queue \<Rightarrow> bool" where
  "leased i ow until q \<longleftrightarrow> (\<exists>r \<in> set (qt_rows q). q_id r = i \<and> q_owner r = ow \<and> q_status r = Processing \<and> q_lockedUntil r = Some until)"

text \<open>The steps that end a lease: its plugin acknowledges or rejects the message, or the reaper runs after its end.\<close>

fun endsLease :: "int \<Rightarrow> string \<Rightarrow> int \<Rightarrow> qop \<Rightarrow> bool" where
  "endsLease i ow until (QAck env ow' j) = (ow' = ow \<and> j = i)"
| "endsLease i ow until (QNack env now ow' j why after) = (ow' = ow \<and> j = i)"
| "endsLease i ow until (QReap env now) = (until < now)"
| "endsLease i ow until op = False"

text \<open>The server returns the updated rows in some order.\<close>

definition returnsAll :: "QEnv \<Rightarrow> bool" where
  "returnsAll env \<longleftrightarrow> (\<forall>ms. mset (qe_order env ms) = mset ms)"

lemma returnsAll_set: "returnsAll env \<Longrightarrow> set (qe_order env ms) = set ms"
  unfolding returnsAll_def by (metis mset_eq_setD)

lemma Claim_messages:
  assumes "Claim env now ow tp lim vis q = (Inr msgs, q')" "returnsAll env" "m \<in> set msgs"
  obtains r where "r \<in> set (qt_rows q)" "q_id r \<in> claimIds env now ow tp lim q" "m = toMessage (leaseRow env (leaseEnd now vis) r)"
    "leaseRow env (leaseEnd now vis) r \<in> set (qt_rows q')"
proof -
  let ?ids = "claimIds env now ow tp lim q"
  let ?f = "\<lambda>r. if q_id r \<in> ?ids then leaseRow env (leaseEnd now vis) r else r"
  have nf: "\<not> qe_fail env" using assms(1) by (auto simp: Claim_def Let_def split: if_splits)
  have q': "qt_rows q' = map ?f (qt_rows q)"
    using Claim_rows[of env now ow tp lim vis q] assms(1) nf by (simp add: fun_eq_iff)
  have "msgs = qe_order env (map toMessage (filter (\<lambda>r. q_id r \<in> ?ids) (map ?f (qt_rows q))))"
    using assms(1) nf unfolding claimIds_def leaseEnd_def by (auto simp: Claim_def Let_def)
  with assms(2,3) have "m \<in> set (map toMessage (filter (\<lambda>r. q_id r \<in> ?ids) (map ?f (qt_rows q))))"
    by (simp only: returnsAll_set)
  then obtain r where r: "r \<in> set (qt_rows q)" "q_id (?f r) \<in> ?ids" "m = toMessage (?f r)" by auto
  then have "q_id r \<in> ?ids" by (auto simp: leaseRow_def split: if_splits)
  with r q' that show ?thesis by auto
qed

lemma Claim_leases:
  assumes "qInv q" "Claim env now ow tp lim vis q = (Inr msgs, q')" "returnsAll env" "m \<in> set msgs"
  shows "leased (ms_ID m) ow (leaseEnd now vis) q'"
  using assms(2-4)
proof (rule Claim_messages)
  fix r
  assume r: "r \<in> set (qt_rows q)" "q_id r \<in> claimIds env now ow tp lim q" "m = toMessage (leaseRow env (leaseEnd now vis) r)"
    "leaseRow env (leaseEnd now vis) r \<in> set (qt_rows q')"
  have "q_owner r = ow" using claimIds_pending[OF assms(1) r(1,2)] by (simp add: claimable_def)
  with r(3) show ?thesis unfolding leased_def
    by (intro bexI[OF _ r(4)]) (simp add: toMessage_def leaseRow_def)
qed

lemma leased_step:
  assumes "qInv q" "leased i ow until q" "\<not> endsLease i ow until op"
  shows "leased i ow until (qstep op q)"
proof -
  from assms(2) obtain r where r: "r \<in> set (qt_rows q)" "q_id r = i" "q_owner r = ow" "q_status r = Processing"
    "q_lockedUntil r = Some until" by (auto simp: leased_def)
  have "rowFun op q r = r"
  proof (cases op)
    case (QClaim env now ow' tp lim vis)
    with claimIds_pending[OF assms(1) r(1), of env now ow' tp lim] r(4) show ?thesis by (auto simp: claimable_def)
  qed (use r assms(3) in \<open>auto simp: heldBy_def leaseOver_def isDeadOf_def\<close>)
  moreover have "keepRow op r" using r(4) by (cases op) (auto simp: oldDone_def)
  moreover obtain new where "qt_rows (qstep op q) = map (rowFun op q) (filter (keepRow op) (qt_rows q)) @ new" by (rule qstep_rows)
  ultimately have "r \<in> set (qt_rows (qstep op q))" using r(1) by (auto simp: image_iff intro!: bexI[of _ r])
  with r show ?thesis by (auto simp: leased_def)
qed

lemma leased_steps:
  "qInv q \<Longrightarrow> leased i ow until q \<Longrightarrow> list_all (\<lambda>op. \<not> endsLease i ow until op) ops \<Longrightarrow> leased i ow until (fold qstep ops q)"
  by (induction ops arbitrary: q) (auto simp: leased_step qstep_inv)

text \<open>C7: A claimed message belongs to its consumer until the lease ends. Whatever other producers, consumers and
  the maintenance loop do in the meantime, as long as the plugin itself neither acknowledges nor rejects the message and
  the reaper has not run past the end of the lease, no claim by anybody returns the message again.\<close>

theorem lease_exclusive:
  assumes "qInv q" "Claim env now ow tp lim vis q = (Inr msgs, q1)" "m \<in> set msgs" "returnsAll env"
    "list_all (\<lambda>op. \<not> endsLease (ms_ID m) ow (leaseEnd now vis) op) ops"
    "Claim env' now' ow' tp' lim' vis' (fold qstep ops q1) = (Inr msgs', q2)" "returnsAll env'"
  shows "ms_ID m \<notin> ms_ID ` set msgs'"
proof
  have i1: "qInv q1" using qstep_inv[OF assms(1), of "QClaim env now ow tp lim vis"] assms(2) by (simp add: qstep_def)
  let ?q = "fold qstep ops q1"
  have inv: "qInv ?q" by (rule qsteps_inv[OF i1])
  have "leased (ms_ID m) ow (leaseEnd now vis) ?q"
    using leased_steps[OF i1 Claim_leases[OF assms(1,2,4,3)] assms(5)] .
  then obtain r where r: "r \<in> set (qt_rows ?q)" "q_id r = ms_ID m" "q_status r = Processing" by (auto simp: leased_def)
  assume "ms_ID m \<in> ms_ID ` set msgs'"
  then obtain m' where "m' \<in> set msgs'" "ms_ID m' = ms_ID m" by auto
  from assms(6,7) this(1) show False
  proof (rule Claim_messages)
    fix x
    assume x: "x \<in> set (qt_rows ?q)" "q_id x \<in> claimIds env' now' ow' tp' lim' ?q" "m' = toMessage (leaseRow env' (leaseEnd now' vis') x)"
    have "q_id x = ms_ID m" using x(3) \<open>ms_ID m' = ms_ID m\<close> by (simp add: toMessage_def leaseRow_def)
    then have "x = r" using row_unique[OF inv r(1) x(1)] r(2) by simp
    with claimIds_pending[OF inv x(1,2)] r(3) show False by (simp add: claimable_def)
  qed
qed

definition sampleEnv :: QEnv where
  "sampleEnv = \<lparr>qe_dbnow = 0, qe_locked = (\<lambda>_. False), qe_order = (\<lambda>ms. ms), qe_fail = False\<rparr>"

definition sampleOpts :: EnqueueOptions where
  "sampleOpts = \<lparr>eo_Delay = 0, eo_DedupKey = [], eo_Priority = 0, eo_MaxAttempts = 1, eo_TraceID = []\<rparr>"

definition sampleQueue :: Queue where
  "sampleQueue = fold qstep [QEnqueue sampleEnv 5 ''mail'' ''out'' ''a'' sampleOpts,
     QEnqueue sampleEnv 5 ''mail'' ''out'' ''b'' sampleOpts] (NewQueue True)"

lemma sampleEnv_order: "returnsAll sampleEnv"
  by (simp add: returnsAll_def sampleEnv_def)

lemma sampleQueue_inv: "qInv sampleQueue"
  unfolding sampleQueue_def by (rule qsteps_inv[OF NewQueue_inv])

theorem lease_exclusive_witness:
  "map ms_ID (projr (fst (Claim sampleEnv 6 ''mail'' ''out'' 1 10 sampleQueue))) = [1] \<and>
   1 \<notin> ms_ID ` set (projr (fst (Claim sampleEnv 8 ''mail'' ''out'' 9 10
     (fold qstep [QReap sampleEnv 7] (snd (Claim sampleEnv 6 ''mail'' ''out'' 1 10 sampleQueue))))))"
proof -
  define c where "c = Claim sampleEnv 6 ''mail'' ''out'' 1 10 sampleQueue"
  define d where "d = Claim sampleEnv 8 ''mail'' ''out'' 9 10 (fold qstep [QReap sampleEnv 7] (snd c))"
  define m :: Message where "m = \<lparr>ms_ID = 1, ms_Topic = ''out'', ms_Payload = ''a'', ms_Attempt = 1, ms_MaxAttempts = 1, ms_ParentTraceID = []\<rparr>"
  have c: "fst c = Inr [m]" unfolding c_def m_def by code_simp
  have d: "d = (Inr (projr (fst d)), snd d)" unfolding d_def c_def by code_simp
  have c': "Claim sampleEnv 6 ''mail'' ''out'' 1 10 sampleQueue = (Inr [m], snd c)"
    using c by (simp add: c_def[symmetric] prod_eq_iff)
  have "list_all (\<lambda>op. \<not> endsLease (ms_ID m) ''mail'' (leaseEnd 6 10) op) [QReap sampleEnv 7]"
    by (simp add: leaseEnd_def)
  from lease_exclusive[OF sampleQueue_inv c' _ sampleEnv_order this d[unfolded d_def] sampleEnv_order]
  have "ms_ID m \<notin> ms_ID ` set (projr (fst d))" by (simp add: d_def)
  with c show ?thesis unfolding d_def c_def[symmetric] by (simp add: m_def)
qed

section \<open>Nothing is lost\<close>

text \<open>A message is never lost. Once in the table, and until its own plugin acknowledges it while it is being
  processed, every interleaving leaves it there with the payload, topic and owner it was given, waiting, being processed, or
  parked as dead.\<close>

theorem message_kept:
  assumes "r \<in> set (qt_rows q)" "q_status r \<noteq> DoneMsg"
    "list_all (\<lambda>op. \<forall>env. op \<noteq> QAck env (q_owner r) (q_id r)) ops"
  shows "\<exists>r' \<in> set (qt_rows (fold qstep ops q)). sameMsg r r' \<and> q_status r' \<noteq> DoneMsg"
proof -
  have "\<exists>r' \<in> set (qt_rows (fold qstep ops q)). sameMsg r r' \<and> q_status r' \<noteq> DoneMsg"
    if "x \<in> set (qt_rows q)" "sameMsg r x" "q_status x \<noteq> DoneMsg" for x
    using assms(3) that
  proof (induction ops arbitrary: q x)
    case (Cons op ops)
    let ?y = "rowFun op q x"
    obtain new where "qt_rows (qstep op q) = map (rowFun op q) (filter (keepRow op) (qt_rows q)) @ new" by (rule qstep_rows)
    moreover have "keepRow op x" using Cons.prems(4) by (cases op) (auto simp: oldDone_def)
    ultimately have "?y \<in> set (qt_rows (qstep op q))" using Cons.prems(2) by auto
    moreover have "sameMsg r ?y" using sameMsg_trans[OF Cons.prems(3) rowFun_same] .
    moreover have "q_status ?y \<noteq> DoneMsg"
    proof (cases op)
      case (QAck env ow i)
      with Cons.prems have "\<not> heldBy ow i x" by (auto simp: heldBy_def sameMsg_def)
      with QAck Cons.prems(4) show ?thesis by simp
    qed (use Cons.prems(4) in \<open>auto simp: leaseRow_def nackRow_def reapRow_def reviveRow_def retryOrPark_def\<close>)
    ultimately show ?case using Cons.IH[of ?y "qstep op q"] Cons.prems(1) by simp
  qed auto
  from this[OF assms(1) _ assms(2)] show ?thesis by (simp add: sameMsg_def)
qed

theorem message_kept_witness:
  "\<exists>r' \<in> set (qt_rows (fold qstep [QClaim sampleEnv 6 ''mail'' ''out'' 2 10, QAck sampleEnv ''mail'' 2, QPurge sampleEnv 99 1] sampleQueue)).
     q_id r' = 1 \<and> q_payload r' = ''a''"
proof -
  let ?ops = "[QClaim sampleEnv 6 ''mail'' ''out'' 2 10, QAck sampleEnv ''mail'' 2, QPurge sampleEnv 99 1]"
  have r: "hd (qt_rows sampleQueue) \<in> set (qt_rows sampleQueue)" "q_status (hd (qt_rows sampleQueue)) = Pending"
    "q_owner (hd (qt_rows sampleQueue)) = ''mail''" "q_id (hd (qt_rows sampleQueue)) = 1" "q_payload (hd (qt_rows sampleQueue)) = ''a''"
    by code_simp+
  from message_kept[OF r(1), of ?ops] r show ?thesis by (auto simp: sameMsg_def)
qed

section \<open>Which messages a claim takes\<close>

lemma claimed_facts:
  assumes "qInv q"
  shows "distinct (claimed env ow tp now n (qt_rows q))"
    "r \<in> set (claimed env ow tp now n (qt_rows q)) \<longleftrightarrow> r \<in> set (qt_rows q) \<and> q_id r \<in> q_id ` set (claimed env ow tp now n (qt_rows q))"
proof -
  have d: "distinct (qt_rows q)" using assms by (simp add: qInv_def distinct_map)
  then have "distinct (sort_key claimKey (filter (claimable env ow tp now) (qt_rows q)))" by simp
  then show "distinct (claimed env ow tp now n (qt_rows q))" unfolding claimed_def by (rule distinct_take)
  have sub: "set (claimed env ow tp now n (qt_rows q)) \<subseteq> set (qt_rows q)"
    unfolding claimed_def by (auto dest: in_set_takeD)
  then show "r \<in> set (claimed env ow tp now n (qt_rows q)) \<longleftrightarrow> r \<in> set (qt_rows q) \<and> q_id r \<in> q_id ` set (claimed env ow tp now n (qt_rows q))"
    using row_unique[OF assms] by blast
qed

lemma claimed_mset:
  assumes "qInv q" "c = claimed env ow tp now n (qt_rows q)"
  shows "mset (filter (\<lambda>r. q_id r \<in> q_id ` set c) (qt_rows q)) = mset c"
proof -
  have "distinct (qt_rows q)" using assms(1) by (simp add: qInv_def distinct_map)
  then have "distinct (filter (\<lambda>r. q_id r \<in> q_id ` set c) (qt_rows q))" by simp
  moreover have "set (filter (\<lambda>r. q_id r \<in> q_id ` set c) (qt_rows q)) = set c"
    unfolding set_filter assms(2) by (rule set_eqI) (unfold mem_Collect_eq, rule claimed_facts(2)[OF assms(1), symmetric])
  moreover have "distinct c" using claimed_facts(1)[OF assms(1)] assms(2) by simp
  ultimately show ?thesis by (simp only: set_eq_iff_mset_eq_distinct[symmetric])
qed

lemma claim_map_ids:
  "map ms_ID (map toMessage (filter (\<lambda>r. q_id r \<in> ids) (map (\<lambda>r. if q_id r \<in> ids then leaseRow env u r else r) xs))) =
     map q_id (filter (\<lambda>r. q_id r \<in> ids) xs)"
  by (induction xs) (simp_all add: toMessage_def leaseRow_def)

lemma Claim_ids:
  assumes "qInv q" "Claim env now ow tp lim vis q = (Inr msgs, q')" "returnsAll env"
  shows "mset (map ms_ID msgs) = mset (map q_id (claimed env ow tp now (nat (if lim \<le> 0 then 1 else lim)) (qt_rows q)))"
proof -
  let ?c = "claimed env ow tp now (nat (if lim \<le> 0 then 1 else lim)) (qt_rows q)"
  let ?ids = "claimIds env now ow tp lim q"
  let ?f = "\<lambda>r. if q_id r \<in> ?ids then leaseRow env (leaseEnd now vis) r else r"
  have nf: "\<not> qe_fail env" using assms(2) by (auto simp: Claim_def Let_def split: if_splits)
  have "msgs = qe_order env (map toMessage (filter (\<lambda>r. q_id r \<in> ?ids) (map ?f (qt_rows q))))"
    using assms(2) nf unfolding claimIds_def leaseEnd_def by (auto simp: Claim_def Let_def)
  then have "mset msgs = mset (map toMessage (filter (\<lambda>r. q_id r \<in> ?ids) (map ?f (qt_rows q))))"
    using assms(3)[unfolded returnsAll_def, rule_format] by (rule ssubst)
  from arg_cong[OF this, of "image_mset ms_ID"]
  have "mset (map ms_ID msgs) = mset (map ms_ID (map toMessage (filter (\<lambda>r. q_id r \<in> ?ids) (map ?f (qt_rows q)))))"
    unfolding mset_map .
  also have "map ms_ID (map toMessage (filter (\<lambda>r. q_id r \<in> ?ids) (map ?f (qt_rows q)))) =
      map q_id (filter (\<lambda>r. q_id r \<in> ?ids) (qt_rows q))"
    by (rule claim_map_ids)
  also have "mset \<dots> = image_mset q_id (mset (filter (\<lambda>r. q_id r \<in> ?ids) (qt_rows q)))" by (rule mset_map)
  also have "mset (filter (\<lambda>r. q_id r \<in> ?ids) (qt_rows q)) = mset ?c"
    unfolding claimIds_def by (rule claimed_mset[OF assms(1) refl])
  finally show ?thesis by (simp only: mset_map)
qed

lemma sorted_take_drop:
  assumes "sorted (map f xs)" "x \<in> set (take n xs)" "y \<in> set (drop n xs)"
  shows "f x \<le> f y"
proof -
  have "sorted (map f (take n xs) @ map f (drop n xs))" using assms(1) by (metis append_take_drop_id map_append)
  with assms(2,3) show ?thesis by (auto simp: sorted_append)
qed

text \<open>A claim takes the right messages. It returns as many as were asked for or as there are, and every available
  message it leaves behind comes after every message it takes, by falling priority and then by age.\<close>

theorem claim_takes_first:
  assumes "qInv q" "Claim env now ow tp lim vis q = (Inr msgs, q')" "returnsAll env" "0 < lim"
  shows "length msgs = min (nat lim) (length (filter (claimable env ow tp now) (qt_rows q))) \<and>
    (\<forall>r \<in> set (qt_rows q). \<forall>x \<in> set (qt_rows q). q_id r \<in> ms_ID ` set msgs \<and> claimable env ow tp now x \<and>
       q_id x \<notin> ms_ID ` set msgs \<longrightarrow> claimKey r < claimKey x)"
proof
  let ?s = "sort_key claimKey (filter (claimable env ow tp now) (qt_rows q))"
  let ?c = "claimed env ow tp now (nat lim) (qt_rows q)"
  have I: "mset (map ms_ID msgs) = mset (map q_id ?c)" using Claim_ids[OF assms(1-3)] assms(4) by simp
  from mset_eq_length[OF I] have "length msgs = length ?c" by simp
  then show "length msgs = min (nat lim) (length (filter (claimable env ow tp now) (qt_rows q)))"
    by (simp add: claimed_def)
  have ids: "ms_ID ` set msgs = q_id ` set ?c" using mset_eq_setD[OF I] by simp
  show "\<forall>r \<in> set (qt_rows q). \<forall>x \<in> set (qt_rows q). q_id r \<in> ms_ID ` set msgs \<and> claimable env ow tp now x \<and>
       q_id x \<notin> ms_ID ` set msgs \<longrightarrow> claimKey r < claimKey x"
  proof (intro ballI impI, elim conjE)
    fix r x
    assume a: "r \<in> set (qt_rows q)" "x \<in> set (qt_rows q)" "q_id r \<in> ms_ID ` set msgs" "claimable env ow tp now x"
      "q_id x \<notin> ms_ID ` set msgs"
    have r: "r \<in> set (take (nat lim) ?s)" using claimed_facts(2)[OF assms(1)] a(1,3) ids unfolding claimed_def by blast
    have "x \<notin> set (take (nat lim) ?s)" using a(5) ids by (auto simp: claimed_def)
    moreover have "x \<in> set ?s" using a(2,4) by simp
    ultimately have x: "x \<in> set (drop (nat lim) ?s)" by (metis Un_iff append_take_drop_id set_append)
    have "claimKey r \<le> claimKey x" by (rule sorted_take_drop[OF _ r x]) simp
    moreover have "claimKey r \<noteq> claimKey x" using a(3,5) by (auto simp: claimKey_def)
    ultimately show "claimKey r < claimKey x" by simp
  qed
qed

theorem claim_takes_first_witness:
  "length (projr (fst (Claim sampleEnv 6 ''mail'' ''out'' 1 10 sampleQueue))) = 1"
proof -
  define c where "c = Claim sampleEnv 6 ''mail'' ''out'' 1 10 sampleQueue"
  have c: "Claim sampleEnv 6 ''mail'' ''out'' 1 10 sampleQueue = (Inr (projr (fst c)), snd c)"
    unfolding c_def by code_simp
  have "length (filter (claimable sampleEnv ''mail'' ''out'' 6) (qt_rows sampleQueue)) = 2" by code_simp
  with claim_takes_first[OF sampleQueue_inv c sampleEnv_order] show ?thesis by (simp add: c_def)
qed

section \<open>The backend\<close>

record PGQueue =
  pq_q :: Queue
  pq_MaxDepth :: int
  pq_depth :: "(string, int) gomap"
  pq_dead :: "(string, int) gomap"

definition DefaultMaxQueueDepth :: int where "DefaultMaxQueueDepth = 100000"

definition NewPGQueue :: "Queue \<Rightarrow> PGQueue" where
  "NewPGQueue q = \<lparr>pq_q = q, pq_MaxDepth = DefaultMaxQueueDepth, pq_depth = [], pq_dead = []\<rparr>"

definition Depth :: "PGQueue \<Rightarrow> string \<Rightarrow> int" where
  "Depth p pluginKey = (case map_of (pq_depth p) pluginKey of None \<Rightarrow> 0 | Some n \<Rightarrow> n)"

definition DeadCount :: "PGQueue \<Rightarrow> string \<Rightarrow> int" where
  "DeadCount p pluginKey = (case map_of (pq_dead p) pluginKey of None \<Rightarrow> 0 | Some n \<Rightarrow> n)"

definition maxDepth :: "PGQueue \<Rightarrow> int" where
  "maxDepth p = (if pq_MaxDepth p > 0 then pq_MaxDepth p else DefaultMaxQueueDepth)"

definition checkDepth :: "PGQueue \<Rightarrow> string \<Rightarrow> q_err + unit" where
  "checkDepth p pluginKey =
     (let limit = maxDepth p
      in if limit \<le> 0 then Inr ()
         else if Depth p pluginKey \<ge> limit then Inl (TooDeep pluginKey (Depth p pluginKey) limit) else Inr ())"

definition PGEnqueue :: "QEnv \<Rightarrow> int \<Rightarrow> string \<Rightarrow> string \<Rightarrow> string \<Rightarrow> EnqueueOptions \<Rightarrow> PGQueue \<Rightarrow> (q_err + int \<times> bool) \<times> PGQueue" where
  "PGEnqueue env now pluginKey topic payload opts p =
     (case checkDepth p pluginKey of
        Inl e \<Rightarrow> (Inl e, p)
      | Inr _ \<Rightarrow> (case Enqueue env now pluginKey topic payload opts (pq_q p) of (r, q) \<Rightarrow> (r, p\<lparr>pq_q := q\<rparr>)))"

text \<open>One tick of the maintenance loop; \<open>e\<close> says how each of its four statements fares.\<close>

definition maintain :: "QEnv list \<Rightarrow> int \<Rightarrow> int \<Rightarrow> PGQueue \<Rightarrow> PGQueue" where
  "maintain e now retention p =
     (let p1 = (case PendingDepth (e ! 0) (pq_q p) of Inl _ \<Rightarrow> p | Inr depth \<Rightarrow> p\<lparr>pq_depth := depth\<rparr>);
          p2 = (case DeadDepth (e ! 1) (pq_q p1) of Inl _ \<Rightarrow> p1 | Inr dead \<Rightarrow> p1\<lparr>pq_dead := dead\<rparr>);
          p3 = p2\<lparr>pq_q := snd (ReapExpired (e ! 2) now (pq_q p2))\<rparr>
      in p3\<lparr>pq_q := snd (PurgeDone (e ! 3) now (if retention \<le> 0 then 24 * 60 * 60 * second else retention) (pq_q p3))\<rparr>)"

text \<open>A consumer runs over a script of rounds: whether its context is done, what others did to the queue before the
  claim, whether there was room, the claim, whether each message could be handed over, what others did while it was
  delivering, how the releases fared, and whether the context ended while it waited on an empty topic.\<close>

record consumeRound =
  co_cancelled :: bool
  co_before :: "Queue \<Rightarrow> Queue"
  co_room :: bool
  co_env :: QEnv
  co_now :: int
  co_sent :: "Message \<Rightarrow> bool"
  co_during :: "Queue \<Rightarrow> Queue"
  co_nackEnv :: "Message \<Rightarrow> QEnv"
  co_nackNow :: int
  co_idleCancelled :: bool

datatype consumeEnd = ConsumerGone | ClaimFailed q_err | StreamBroke | StillConsuming

definition releaseMsg :: "consumeRound \<Rightarrow> string \<Rightarrow> Message \<Rightarrow> Queue \<Rightarrow> Queue" where
  "releaseMsg r pluginKey m q = snd (Nack (co_nackEnv r m) (co_nackNow r) pluginKey (ms_ID m) ''consumer disconnected'' 0 q)"

fun Consume :: "string \<Rightarrow> string \<Rightarrow> int \<Rightarrow> int \<Rightarrow> consumeRound list \<Rightarrow> Queue \<Rightarrow> consumeEnd \<times> Message list \<times> Queue" where
  "Consume pluginKey topic prefetch visibility [] q = (StillConsuming, [], q)"
| "Consume pluginKey topic prefetch visibility (r # rs) q =
     (if co_cancelled r then (ConsumerGone, [], q)
      else let q0 = co_before r q in
      if \<not> co_room r then (ConsumerGone, [], q0)
      else (case Claim (co_env r) (co_now r) pluginKey topic (if prefetch \<le> 0 then 1 else prefetch)
                       (if visibility \<le> 0 then 30 * second else visibility) q0 of
              (Inl e, q1) \<Rightarrow> (ClaimFailed e, [], q1)
            | (Inr msgs, q1) \<Rightarrow>
                if msgs = [] then
                  (if co_idleCancelled r then (ConsumerGone, [], q1)
                   else Consume pluginKey topic prefetch visibility rs q1)
                else
                  let sent = takeWhile (co_sent r) msgs; q2 = co_during r q1 in
                  if length sent < length msgs then (StreamBroke, sent, fold (releaseMsg r pluginKey) msgs q2)
                  else (case Consume pluginKey topic prefetch visibility rs q2 of (e, later, q3) \<Rightarrow> (e, sent @ later, q3))))"

section \<open>A consumer that disconnects\<close>

text \<open>The message as the table has it: leased on its last attempt, or parked.\<close>

definition lastChance :: "string \<Rightarrow> Message \<Rightarrow> QRow \<Rightarrow> bool" where
  "lastChance ow m r \<longleftrightarrow> q_id r = ms_ID m \<and> q_owner r = ow \<and> q_payload r = ms_Payload m \<and> q_max r \<le> q_attempts r \<and>
     (q_status r = Processing \<or> q_status r = Dead)"

lemma release_rows:
  "qt_rows (releaseMsg c ow m q) = map (rowFun (QNack (co_nackEnv c m) (co_nackNow c) ow (ms_ID m) ''consumer disconnected'' 0) q) (qt_rows q)"
  unfolding releaseMsg_def by (rule Nack_rows)

lemma release_keeps:
  assumes "r \<in> set (qt_rows q)" "lastChance ow m r" "q_status r = Dead \<or> ms_ID x \<noteq> ms_ID m"
  shows "r \<in> set (qt_rows (releaseMsg c ow x q))"
  unfolding release_rows set_map
  using assms by (intro image_eqI[of _ _ r]) (auto simp: lastChance_def heldBy_def)

lemma release_parks:
  assumes "r \<in> set (qt_rows q)" "lastChance ow m r" "\<not> qe_fail (co_nackEnv c x)" "ms_ID x = ms_ID m"
  shows "\<exists>r' \<in> set (qt_rows (releaseMsg c ow x q)). lastChance ow m r' \<and> q_status r' = Dead"
proof (cases "q_status r = Dead")
  case True
  with release_keeps[OF assms(1,2)] assms(2) show ?thesis by blast
next
  case False
  let ?r = "rowFun (QNack (co_nackEnv c x) (co_nackNow c) ow (ms_ID x) ''consumer disconnected'' 0) q r"
  have "?r \<in> set (qt_rows (releaseMsg c ow x q))" unfolding release_rows using assms(1) by simp
  moreover have "lastChance ow m ?r \<and> q_status ?r = Dead"
    using assms False by (auto simp: lastChance_def heldBy_def nackRow_def retryOrPark_def)
  ultimately show ?thesis by blast
qed

lemma releases_park:
  assumes "m \<in> set ms" "\<forall>x. \<not> qe_fail (co_nackEnv c x)" "r \<in> set (qt_rows q)" "lastChance ow m r"
  shows "\<exists>r' \<in> set (qt_rows (fold (releaseMsg c ow) ms q)). lastChance ow m r' \<and> q_status r' = Dead"
proof -
  have dead: "\<exists>r' \<in> set (qt_rows (fold (releaseMsg c ow) ms q)). lastChance ow m r' \<and> q_status r' = Dead"
    if "r \<in> set (qt_rows q)" "lastChance ow m r" "q_status r = Dead" for ms q r
    using that by (induction ms arbitrary: q) (auto intro: release_keeps)
  show ?thesis using assms(1,3,4)
  proof (induction ms arbitrary: q r)
    case (Cons x xs)
    show ?case
    proof (cases "ms_ID x = ms_ID m")
      case True
      with release_parks[OF Cons.prems(2,3)] assms(2) obtain r' where
        "r' \<in> set (qt_rows (releaseMsg c ow x q))" "lastChance ow m r'" "q_status r' = Dead" by blast
      with dead show ?thesis by simp
    next
      case False
      then have "m \<in> set xs" using Cons.prems(1) by auto
      with Cons.IH[OF _ release_keeps[OF Cons.prems(2,3), of x c] Cons.prems(3)] False show ?thesis by simp
    qed
  qed simp
qed

text \<open>A message can be parked as dead without ever having been delivered. When handing over the first message of
  a claim fails, all claimed messages are rejected as if they had been tried, and one on its last attempt, such as any
  message with a single attempt, is dead although no consumer ever received it.\<close>

theorem undelivered_parked:
  assumes "qInv (co_before c q)" "\<not> co_cancelled c" "co_room c" "0 < lim" "0 < vis"
    "Claim (co_env c) (co_now c) ow tp lim vis (co_before c q) = (Inr msgs, q1)" "returnsAll (co_env c)"
    "\<not> co_sent c (hd msgs)" "\<forall>x. co_during c x = x" "\<forall>x. \<not> qe_fail (co_nackEnv c x)"
    "m \<in> set msgs" "ms_Attempt m = ms_MaxAttempts m"
  shows "\<exists>q'. Consume ow tp lim vis (c # cs) q = (StreamBroke, [], q') \<and>
    (\<exists>r \<in> set (qt_rows q'). q_id r = ms_ID m \<and> q_payload r = ms_Payload m \<and> q_status r = Dead)"
proof -
  let ?q' = "fold (releaseMsg c ow) msgs q1"
  have "takeWhile (co_sent c) msgs = []" using assms(8,11) by (cases msgs) auto
  then have C: "Consume ow tp lim vis (c # cs) q = (StreamBroke, [], ?q')"
    using assms(2-6,9,11) by (auto simp: Let_def)
  obtain x where x: "x \<in> set (qt_rows (co_before c q))" "q_id x \<in> claimIds (co_env c) (co_now c) ow tp lim (co_before c q)"
    "m = toMessage (leaseRow (co_env c) (leaseEnd (co_now c) vis) x)" "leaseRow (co_env c) (leaseEnd (co_now c) vis) x \<in> set (qt_rows q1)"
    by (rule Claim_messages[OF assms(6,7,11)])
  have "q_owner x = ow" using claimIds_pending[OF assms(1) x(1,2)] by (simp add: claimable_def)
  with x(3) assms(12) have "lastChance ow m (leaseRow (co_env c) (leaseEnd (co_now c) vis) x)"
    by (simp add: lastChance_def toMessage_def leaseRow_def)
  from releases_park[OF assms(11,10) x(4) this] show ?thesis unfolding C by (auto simp: lastChance_def)
qed

definition sampleRound :: consumeRound where
  "sampleRound = \<lparr>co_cancelled = False, co_before = (\<lambda>q. q), co_room = True, co_env = sampleEnv, co_now = 6, co_sent = (\<lambda>_. False),
     co_during = (\<lambda>q. q), co_nackEnv = (\<lambda>_. sampleEnv), co_nackNow = 7, co_idleCancelled = False\<rparr>"

theorem undelivered_parked_witness:
  "\<exists>q'. Consume ''mail'' ''out'' 2 10 [sampleRound] sampleQueue = (StreamBroke, [], q') \<and>
     (\<exists>r \<in> set (qt_rows q'). q_id r = 2 \<and> q_status r = Dead)"
proof -
  define c where "c = Claim sampleEnv 6 ''mail'' ''out'' 2 10 sampleQueue"
  define ms :: "Message list" where
    "ms = [\<lparr>ms_ID = 1, ms_Topic = ''out'', ms_Payload = ''a'', ms_Attempt = 1, ms_MaxAttempts = 1, ms_ParentTraceID = []\<rparr>,
           \<lparr>ms_ID = 2, ms_Topic = ''out'', ms_Payload = ''b'', ms_Attempt = 1, ms_MaxAttempts = 1, ms_ParentTraceID = []\<rparr>]"
  have "fst c = Inr ms" unfolding c_def ms_def by code_simp
  then have c: "Claim (co_env sampleRound) (co_now sampleRound) ''mail'' ''out'' 2 10 (co_before sampleRound sampleQueue) = (Inr ms, snd c)"
    by (simp add: c_def sampleRound_def prod_eq_iff)
  have "ms ! 1 \<in> set ms" "ms_Attempt (ms ! 1) = ms_MaxAttempts (ms ! 1)" "ms_ID (ms ! 1) = 2" by (simp_all add: ms_def)
  with undelivered_parked[OF _ _ _ _ _ c, of "ms ! 1" "[]"] sampleQueue_inv sampleEnv_order show ?thesis
    by (force simp: sampleRound_def sampleEnv_def)
qed

section \<open>Messages of different plugins\<close>

text \<open>An operation of another plugin leaves a plugin's messages exactly as they are. The maintenance loop, which reaps and purges for everybody,
  is not such an operation.\<close>

fun queueForeign :: "string \<Rightarrow> qop \<Rightarrow> bool" where
  "queueForeign k (QEnqueue env now ow tp pl opts) = (ow \<noteq> k)"
| "queueForeign k (QClaim env now ow tp lim vis) = (ow \<noteq> k)"
| "queueForeign k (QAck env ow i) = (ow \<noteq> k)"
| "queueForeign k (QNack env now ow i why after) = (ow \<noteq> k)"
| "queueForeign k (QRetry env now ow i) = (ow \<noteq> k)"
| "queueForeign k (QReap env now) = False"
| "queueForeign k (QPurge env now age) = False"

definition queueKept :: "string \<Rightarrow> Queue \<Rightarrow> Queue \<Rightarrow> bool" where
  "queueKept k q q' \<longleftrightarrow> filter (\<lambda>r. q_owner r = k) (qt_rows q') = filter (\<lambda>r. q_owner r = k) (qt_rows q)"

lemma rowFun_foreign:
  assumes "qInv q" "r \<in> set (qt_rows q)" "queueForeign k op" "q_owner r = k"
  shows "rowFun op q r = r"
proof (cases op)
  case (QClaim env now ow tp lim vis)
  then show ?thesis using assms claimIds_pending[OF assms(1,2), of env now ow tp lim] by (auto simp: claimable_def)
qed (use assms in \<open>auto simp: heldBy_def isDeadOf_def\<close>)

lemma qstep_foreign_rows:
  assumes "queueForeign k op"
  obtains new where "qt_rows (qstep op q) = map (rowFun op q) (qt_rows q) @ new" "filter (\<lambda>r. q_owner r = k) new = []"
proof (cases op)
  case (QEnqueue env now ow tp pl opts)
  let ?new = "drop (length (qt_rows q)) (qt_rows (snd (Enqueue env now ow tp pl opts q)))"
  have "qt_rows (qstep op q) = map (rowFun op q) (qt_rows q) @ ?new" using QEnqueue
    by (simp add: qstep_def Enqueue_def Let_def map_idI)
  moreover have "filter (\<lambda>r. q_owner r = k) ?new = []" using QEnqueue assms by (simp add: Enqueue_def Let_def)
  ultimately show ?thesis by (rule that)
next
  case (QClaim env now ow tp lim vis)
  then show ?thesis using Claim_rows by (intro that[of "[]"]) (simp_all add: qstep_def)
next
  case (QAck env ow i)
  then show ?thesis by (intro that[of "[]"]) (auto simp: qstep_def Ack_def intro!: map_idI[symmetric])
next
  case (QNack env now ow i why after)
  then show ?thesis using Nack_rows by (intro that[of "[]"]) (simp_all add: qstep_def)
next
  case (QRetry env now ow i)
  then show ?thesis using RetryDead_rows by (intro that[of "[]"]) (simp_all add: qstep_def)
qed (use assms in auto)

lemma queue_isolated:
  assumes "qInv q" "queueForeign k op"
  shows "queueKept k q (qstep op q)"
proof -
  obtain new where n: "qt_rows (qstep op q) = map (rowFun op q) (qt_rows q) @ new" "filter (\<lambda>r. q_owner r = k) new = []"
    using qstep_foreign_rows[OF assms(2)] by blast
  have own: "q_owner (rowFun op q r) = q_owner r" for r using rowFun_same[of r op q] by (simp add: sameMsg_def)
  have "filter (\<lambda>r. q_owner r = k) (map (rowFun op q) (qt_rows q)) = map (rowFun op q) (filter (\<lambda>r. q_owner r = k) (qt_rows q))"
    by (simp add: filter_map o_def own)
  also have "\<dots> = filter (\<lambda>r. q_owner r = k) (qt_rows q)" using rowFun_foreign[OF assms(1) _ assms(2)] by (intro map_idI) auto
  finally show ?thesis using n by (simp add: queueKept_def)
qed

interpretation queueTenants: tenant_backend qInv queueForeign queueKept qstep
  by unfold_locales (auto simp: queueKept_def qstep_inv queue_isolated[unfolded queueKept_def])

end
