(* ===== verification/Menu.thy ===== *)
theory Menu
  imports Prelude
begin

text \<open>
  The console's menu, \<^verbatim>\<open>src/core/gateway/menu.go\<close>: the trees of all plugins, filtered by the caller's role, merged by path and
  sorted. The in-place updates of the sibling slices are functions from a list of nodes to the new list.
\<close>

section \<open>Nodes\<close>

datatype MenuNode = MenuNode (mn_Path: string) (mn_Title: string) (mn_Icon: string) (mn_Order: int) (mn_Entry: string)
  (mn_Roles: "string list") (mn_Children: "MenuNode list")

definition withChildren :: "MenuNode list \<Rightarrow> MenuNode \<Rightarrow> MenuNode" where
  "withChildren cs n = MenuNode (mn_Path n) (mn_Title n) (mn_Icon n) (mn_Order n) (mn_Entry n) (mn_Roles n) cs"

definition roleAllowed :: "string list \<Rightarrow> string \<Rightarrow> bool" where
  "roleAllowed roles userRole = (if roles = [] then True else if userRole = [] then False else list_ex (\<lambda>r. r = userRole) roles)"

fun filterByRole :: "string \<Rightarrow> MenuNode list \<Rightarrow> MenuNode list" where
  "filterByRole userRole [] = []"
| "filterByRole userRole (MenuNode p t ic ord e rs cs # ns) =
     (if \<not> roleAllowed rs userRole then filterByRole userRole ns
      else MenuNode p t ic ord e rs (filterByRole userRole cs) # filterByRole userRole ns)"

fun findIndex :: "MenuNode list \<Rightarrow> string \<Rightarrow> nat option" where
  "findIndex [] path = None"
| "findIndex (n # ns) path = (if mn_Path n = path then Some 0 else map_option Suc (findIndex ns path))"

definition menuKey :: "MenuNode \<Rightarrow> int \<times> string" where
  "menuKey n = (mn_Order n, mn_Path n)"

definition sortMenuNodes :: "MenuNode list \<Rightarrow> MenuNode list" where
  "sortMenuNodes ns = sort_key menuKey ns"

text \<open>The sibling list with a place for the node, and the index of that place.\<close>

definition placeNode :: "MenuNode list \<Rightarrow> MenuNode \<Rightarrow> MenuNode list \<times> nat" where
  "placeNode siblings n =
     (case findIndex siblings (mn_Path n) of
        None \<Rightarrow> (siblings @ [withChildren [] n], length siblings)
      | Some idx \<Rightarrow> (siblings, idx))"

fun mergeInto :: "MenuNode list \<Rightarrow> MenuNode \<Rightarrow> MenuNode list"
  and mergeAll :: "MenuNode list \<Rightarrow> MenuNode list \<Rightarrow> MenuNode list" where
  "mergeInto siblings (MenuNode p t ic ord e rs cs) =
     (case placeNode siblings (MenuNode p t ic ord e rs cs) of
        (sibs, idx) \<Rightarrow>
          sibs[idx := withChildren (sortMenuNodes (mergeAll (mn_Children (sibs ! idx)) cs)) (sibs ! idx)])"
| "mergeAll siblings [] = siblings"
| "mergeAll siblings (n # ns) = mergeAll (mergeInto siblings n) ns"

definition buildTree :: "MenuNode list list \<Rightarrow> string \<Rightarrow> MenuNode list" where
  "buildTree menus userRole =
     sortMenuNodes (fold (\<lambda>appMenus root. mergeAll root (filterByRole userRole appMenus)) menus [])"

section \<open>Reading a tree\<close>

text \<open>The chains of paths from the top to each node.\<close>

fun chains :: "MenuNode list \<Rightarrow> string list list" where
  "chains [] = []"
| "chains (MenuNode p t ic ord e rs cs # ns) = [p] # map (\<lambda>c. p # c) (chains cs) @ chains ns"

text \<open>The chains all of whose nodes the role may see.\<close>

fun visibleChains :: "string \<Rightarrow> MenuNode list \<Rightarrow> string list list" where
  "visibleChains role [] = []"
| "visibleChains role (MenuNode p t ic ord e rs cs # ns) =
     (if roleAllowed rs role then [p] # map (\<lambda>c. p # c) (visibleChains role cs) else []) @ visibleChains role ns"

fun allNodes :: "(MenuNode \<Rightarrow> bool) \<Rightarrow> MenuNode list \<Rightarrow> bool" where
  "allNodes P [] = True"
| "allNodes P (MenuNode p t ic ord e rs cs # ns) = (P (MenuNode p t ic ord e rs cs) \<and> allNodes P cs \<and> allNodes P ns)"

fun levelsBelow :: "(MenuNode list \<Rightarrow> bool) \<Rightarrow> MenuNode list \<Rightarrow> bool" where
  "levelsBelow P [] = True"
| "levelsBelow P (MenuNode p t ic ord e rs cs # ns) = (P cs \<and> levelsBelow P cs \<and> levelsBelow P ns)"

definition allLevels :: "(MenuNode list \<Rightarrow> bool) \<Rightarrow> MenuNode list \<Rightarrow> bool" where
  "allLevels P ns \<longleftrightarrow> P ns \<and> levelsBelow P ns"

definition nodeChains :: "MenuNode \<Rightarrow> string list set" where
  "nodeChains n = insert [mn_Path n] ((\<lambda>c. mn_Path n # c) ` set (chains (mn_Children n)))"

lemma withChildren_sel [simp]:
  "mn_Path (withChildren cs n) = mn_Path n" "mn_Children (withChildren cs n) = cs" "mn_Roles (withChildren cs n) = mn_Roles n"
  "menuKey (withChildren cs n) = menuKey n"
  by (simp_all add: withChildren_def menuKey_def)

lemma chains_nodes: "set (chains ns) = (\<Union>n \<in> set ns. nodeChains n)"
  by (induction ns rule: chains.induct) (auto simp: nodeChains_def)

lemma nodeChains_bare: "nodeChains (withChildren [] n) \<subseteq> nodeChains n"
  by (auto simp: nodeChains_def)

lemma allNodes_iff: "allNodes P ns \<longleftrightarrow> (\<forall>n \<in> set ns. P n \<and> allNodes P (mn_Children n))"
  by (induction P ns rule: allNodes.induct) auto

lemma levelsBelow_iff: "levelsBelow P ns \<longleftrightarrow> (\<forall>n \<in> set ns. P (mn_Children n) \<and> levelsBelow P (mn_Children n))"
  by (induction P ns rule: levelsBelow.induct) auto

lemma set_sortMenuNodes [simp]: "set (sortMenuNodes ns) = set ns"
  by (simp add: sortMenuNodes_def)

section \<open>Placing and merging\<close>

lemma findIndex_Some: "findIndex ns p = Some i \<Longrightarrow> i < length ns \<and> mn_Path (ns ! i) = p"
  by (induction ns arbitrary: i) (auto split: if_splits)

lemma findIndex_None: "findIndex ns p = None \<longleftrightarrow> p \<notin> mn_Path ` set ns"
  by (induction ns) auto

lemma placeNode_facts:
  assumes "placeNode siblings n = (sibs, idx)"
  shows "idx < length sibs" "mn_Path (sibs ! idx) = mn_Path n"
    "(sibs = siblings \<and> mn_Path n \<in> mn_Path ` set siblings) \<or>
     (sibs = siblings @ [withChildren [] n] \<and> idx = length siblings \<and> mn_Path n \<notin> mn_Path ` set siblings)"
  using assms findIndex_Some findIndex_None[of siblings "mn_Path n"]
  by (force simp: placeNode_def split: option.splits)+

lemma set_update_split:
  assumes "i < length xs"
  shows "set (xs[i := y]) = insert y (set (take i xs) \<union> set (drop (Suc i) xs))"
    "set xs = insert (xs ! i) (set (take i xs) \<union> set (drop (Suc i) xs))"
proof -
  show "set (xs[i := y]) = insert y (set (take i xs) \<union> set (drop (Suc i) xs))"
    using assms by (auto simp: upd_conv_take_nth_drop)
  show "set xs = insert (xs ! i) (set (take i xs) \<union> set (drop (Suc i) xs))"
    by (subst id_take_nth_drop[OF assms]) auto
qed

lemma merge_chains:
  "set (chains (mergeInto s n)) = set (chains s) \<union> nodeChains n"
  "set (chains (mergeAll s ns)) = set (chains s) \<union> set (chains ns)"
proof (induction s n and s ns rule: mergeInto_mergeAll.induct)
  case (1 siblings p t ic ord e rs cs)
  let ?n = "MenuNode p t ic ord e rs cs"
  obtain sibs idx where pl: "placeNode siblings ?n = (sibs, idx)" by (cases "placeNode siblings ?n")
  note F = placeNode_facts[OF pl]
  let ?cs = "mergeAll (mn_Children (sibs ! idx)) cs"
  let ?x = "withChildren (sortMenuNodes ?cs) (sibs ! idx)"
  have ih: "set (chains ?cs) = set (chains (mn_Children (sibs ! idx))) \<union> set (chains cs)" using 1[OF pl[symmetric]] .
  have "set (chains (sortMenuNodes ?cs)) = set (chains ?cs)" by (simp add: chains_nodes[of ?cs] chains_nodes[of "sortMenuNodes ?cs"])
  then have x: "nodeChains ?x = nodeChains (sibs ! idx) \<union> nodeChains ?n"
    using F(2) ih by (auto simp: nodeChains_def)
  have "set (chains (sibs[idx := ?x])) = set (chains sibs) \<union> nodeChains ?n"
    using x set_update_split(2)[OF F(1)]
    unfolding chains_nodes[of "sibs[idx := ?x]"] chains_nodes[of sibs] set_update_split(1)[OF F(1)] by auto
  moreover have "set (chains sibs) \<union> nodeChains ?n = set (chains siblings) \<union> nodeChains ?n"
    using F(3) nodeChains_bare[of ?n] unfolding chains_nodes[of sibs] chains_nodes[of siblings] by auto
  ultimately show ?case using pl by simp
next
  case (3 siblings n ns)
  then show ?case by (simp add: chains_nodes[of ns] chains_nodes[of "n # ns"]) blast
qed simp

lemma merge_nodes:
  assumes "\<And>m cs. P m \<Longrightarrow> P (withChildren cs m)"
  shows "allNodes P s \<Longrightarrow> P n \<Longrightarrow> allNodes P (mn_Children n) \<Longrightarrow> allNodes P (mergeInto s n)"
    "allNodes P s \<Longrightarrow> allNodes P ns \<Longrightarrow> allNodes P (mergeAll s ns)"
proof (induction s n and s ns rule: mergeInto_mergeAll.induct)
  case (1 siblings p t ic ord e rs cs)
  let ?n = "MenuNode p t ic ord e rs cs"
  obtain sibs idx where pl: "placeNode siblings ?n = (sibs, idx)" by (cases "placeNode siblings ?n")
  note F = placeNode_facts[OF pl]
  have sibs: "allNodes P sibs" using F(3) 1(2,3) assms[of ?n] by (auto simp: allNodes_iff[of P sibs] allNodes_iff[of P siblings])
  let ?x = "withChildren (sortMenuNodes (mergeAll (mn_Children (sibs ! idx)) cs)) (sibs ! idx)"
  have old: "P (sibs ! idx)" "allNodes P (mn_Children (sibs ! idx))"
    using sibs F(1) by (auto simp: allNodes_iff[of P sibs])
  then have "allNodes P (mergeAll (mn_Children (sibs ! idx)) cs)" using 1 pl by simp
  then have "P ?x" "allNodes P (mn_Children ?x)"
    using assms old(1) by (simp_all add: allNodes_iff[of P "sortMenuNodes c" for c] allNodes_iff[of P "mergeAll a b" for a b])
  with sibs have "allNodes P (sibs[idx := ?x])"
    unfolding allNodes_iff[of P "sibs[idx := ?x]"] set_update_split(1)[OF F(1)]
    using set_update_split(2)[OF F(1)] by (auto simp: allNodes_iff[of P sibs])
  with pl show ?case by simp
next
  case (3 siblings n ns)
  then show ?case by (simp add: allNodes_iff[of P "n # ns"] allNodes_iff[of P ns])
qed simp

text \<open>A level whose paths are distinct, and a level that is also in order.\<close>

definition distinctPaths :: "MenuNode list \<Rightarrow> bool" where
  "distinctPaths ns = distinct (map mn_Path ns)"

definition tidy :: "MenuNode list \<Rightarrow> bool" where
  "tidy ns \<longleftrightarrow> distinct (map mn_Path ns) \<and> sorted (map menuKey ns)"

lemma tidy_Nil [simp]: "tidy []"
  by (simp add: tidy_def)

lemma tidy_distinct: "tidy ns \<Longrightarrow> distinctPaths ns"
  by (simp add: tidy_def distinctPaths_def)

lemma sort_tidy: "distinctPaths ns \<Longrightarrow> tidy (sortMenuNodes ns)"
proof -
  assume "distinctPaths ns"
  moreover have "mset (map mn_Path (sortMenuNodes ns)) = mset (map mn_Path ns)" by (simp add: sortMenuNodes_def)
  ultimately have "distinct (map mn_Path (sortMenuNodes ns))" unfolding distinctPaths_def by (metis mset_eq_imp_distinct_iff)
  then show ?thesis by (simp add: tidy_def sortMenuNodes_def)
qed

lemma merge_tidy:
  "distinctPaths s \<Longrightarrow> levelsBelow tidy s \<Longrightarrow> distinctPaths (mergeInto s n) \<and> levelsBelow tidy (mergeInto s n)"
  "distinctPaths s \<Longrightarrow> levelsBelow tidy s \<Longrightarrow> distinctPaths (mergeAll s ns) \<and> levelsBelow tidy (mergeAll s ns)"
proof (induction s n and s ns rule: mergeInto_mergeAll.induct)
  case (1 siblings p t ic ord e rs cs)
  let ?n = "MenuNode p t ic ord e rs cs"
  obtain sibs idx where pl: "placeNode siblings ?n = (sibs, idx)" by (cases "placeNode siblings ?n")
  note F = placeNode_facts[OF pl]
  let ?cs = "mergeAll (mn_Children (sibs ! idx)) cs"
  let ?x = "withChildren (sortMenuNodes ?cs) (sibs ! idx)"
  have sibs: "distinctPaths sibs" "levelsBelow tidy sibs"
    using F(3) 1(2,3)
    by (auto simp: distinctPaths_def levelsBelow_iff[of tidy sibs] levelsBelow_iff[of tidy siblings])
  then have "tidy (mn_Children (sibs ! idx))" "levelsBelow tidy (mn_Children (sibs ! idx))"
    using F(1) by (auto simp: levelsBelow_iff[of tidy sibs])
  then have ih: "distinctPaths ?cs \<and> levelsBelow tidy ?cs" using 1(1)[OF pl[symmetric]] tidy_distinct by blast
  then have "tidy (sortMenuNodes ?cs)" "levelsBelow tidy (sortMenuNodes ?cs)"
    using sort_tidy by (simp_all add: levelsBelow_iff[of tidy ?cs] levelsBelow_iff[of tidy "sortMenuNodes ?cs"])
  then have "levelsBelow tidy (sibs[idx := ?x])"
    using sibs(2) set_update_split(2)[OF F(1)]
    unfolding levelsBelow_iff[of tidy "sibs[idx := ?x]"] set_update_split(1)[OF F(1)] levelsBelow_iff[of tidy sibs] by auto
  moreover have "map mn_Path (sibs[idx := ?x]) = map mn_Path sibs"
    using F(1) by (metis list_update_id map_update nth_map withChildren_sel(1))
  ultimately show ?case using pl sibs(1) by (simp add: distinctPaths_def)
qed simp_all

section \<open>The tree of a role\<close>

lemma chains_filterByRole: "set (chains (filterByRole role ns)) = set (visibleChains role ns)"
  by (induction role ns rule: filterByRole.induct) auto

lemma filterByRole_allowed: "allNodes (\<lambda>n. roleAllowed (mn_Roles n) role) (filterByRole role ns)"
  by (induction role ns rule: filterByRole.induct) auto

text \<open>The unsorted tree that the loop over the plugins' menus builds.\<close>

definition mergedMenus :: "MenuNode list list \<Rightarrow> string \<Rightarrow> MenuNode list \<Rightarrow> MenuNode list" where
  "mergedMenus menus role root = fold (\<lambda>appMenus root. mergeAll root (filterByRole role appMenus)) menus root"

lemma mergedMenus_chains:
  "set (chains (mergedMenus menus role root)) = set (chains root) \<union> (\<Union>m \<in> set menus. set (visibleChains role m))"
  by (induction menus arbitrary: root) (auto simp: mergedMenus_def merge_chains chains_filterByRole)

lemma mergedMenus_allowed:
  "allNodes (\<lambda>n. roleAllowed (mn_Roles n) role) root \<Longrightarrow>
   allNodes (\<lambda>n. roleAllowed (mn_Roles n) role) (mergedMenus menus role root)"
proof (induction menus arbitrary: root)
  case (Cons a menus)
  have "allNodes (\<lambda>n. roleAllowed (mn_Roles n) role) (mergeAll root (filterByRole role a))"
    using Cons.prems filterByRole_allowed by (intro merge_nodes(2)) auto
  then show ?case using Cons.IH by (simp add: mergedMenus_def)
qed (simp add: mergedMenus_def)

lemma mergedMenus_tidy:
  "distinctPaths root \<Longrightarrow> levelsBelow tidy root \<Longrightarrow>
   distinctPaths (mergedMenus menus role root) \<and> levelsBelow tidy (mergedMenus menus role root)"
  by (induction menus arbitrary: root) (auto simp: mergedMenus_def merge_tidy)

lemma buildTree_merged: "buildTree menus role = sortMenuNodes (mergedMenus menus role [])"
  by (simp add: buildTree_def mergedMenus_def)

text \<open>C32: The menu a caller gets is exact. A chain of paths from the top of the tree is in the result exactly when some plugin declared that
  chain with every node on it allowed for the caller's role, so no plugin's entry is lost by merging or sorting and none is shown through
  another plugin's node that the role could not see; and every node of the result is itself allowed for the role.
\<close>

theorem menu_exact:
  "set (chains (buildTree menus role)) = (\<Union>m \<in> set menus. set (visibleChains role m)) \<and>
   allNodes (\<lambda>n. roleAllowed (mn_Roles n) role) (buildTree menus role)"
proof
  show "set (chains (buildTree menus role)) = (\<Union>m \<in> set menus. set (visibleChains role m))"
    using mergedMenus_chains[of menus role "[]"]
    by (simp add: buildTree_merged chains_nodes[of "sortMenuNodes m" for m] chains_nodes[of "mergedMenus menus role []"])
  show "allNodes (\<lambda>n. roleAllowed (mn_Roles n) role) (buildTree menus role)"
    using mergedMenus_allowed[of role "[]" menus]
    by (simp add: buildTree_merged allNodes_iff[of _ "sortMenuNodes m" for m] allNodes_iff[of _ "mergedMenus menus role []"])
qed

text \<open>On every level of the menu tree the paths are pairwise different and the nodes are in ascending order of (Order, Path), whatever
  the plugins declared.
\<close>

theorem menu_tidy: "allLevels tidy (buildTree menus role)"
  using mergedMenus_tidy[of "[]" menus role] sort_tidy[of "mergedMenus menus role []"]
  by (simp add: allLevels_def buildTree_merged distinctPaths_def levelsBelow_iff[of tidy "sortMenuNodes m" for m]
    levelsBelow_iff[of tidy "mergedMenus menus role []"])

end
