(* ===== verification/Egress.thy ===== *)
theory Egress
  imports Prelude "HOL-Library.Word"
begin

unbundle bit_operations_syntax

text \<open>
  Outbound HTTP for plugins, \<^verbatim>\<open>src/core/hostsvc/egress.go\<close>: the allow-list, the rate window, the address check at dial time and
  the request itself. The parts of the standard library that decide where a connection goes are written out (the classification of
  \<^verbatim>\<open>net.IP\<close> values, \<^verbatim>\<open>URL.Hostname\<close>, \<^verbatim>\<open>net.SplitHostPort\<close>); the URL parser, the
  resolver, the dialler and the remote server are the fields of \<open>Net\<close>, so that every statement holds for whatever they answer.
  Times are nanoseconds.
\<close>

section \<open>Addresses\<close>

type_synonym ip = "8 word list"

definition To4 :: "ip \<Rightarrow> ip option" where
  "To4 a = (if length a = 4 then Some a
            else if length a = 16 \<and> take 10 a = replicate 10 0 \<and> a ! 10 = 0xFF \<and> a ! 11 = 0xFF then Some (drop 12 a)
            else None)"

definition v4InV6Prefix :: ip where
  "v4InV6Prefix = replicate 10 0 @ [0xFF, 0xFF]"

definition IPEqual :: "ip \<Rightarrow> ip \<Rightarrow> bool" where
  "IPEqual a x = (if length a = length x then a = x
                  else if length a = 4 \<and> length x = 16 then take 12 x = v4InV6Prefix \<and> a = drop 12 x
                  else if length a = 16 \<and> length x = 4 then take 12 a = v4InV6Prefix \<and> drop 12 a = x
                  else False)"

definition IPv4zero :: ip where "IPv4zero = v4InV6Prefix @ [0, 0, 0, 0]"
definition IPv6unspecified :: ip where "IPv6unspecified = replicate 16 0"
definition IPv6loopback :: ip where "IPv6loopback = replicate 15 0 @ [1]"

definition IsLoopback :: "ip \<Rightarrow> bool" where
  "IsLoopback a = (case To4 a of Some q \<Rightarrow> q ! 0 = 127 | None \<Rightarrow> IPEqual a IPv6loopback)"

definition IsPrivate :: "ip \<Rightarrow> bool" where
  "IsPrivate a = (case To4 a of
     Some q \<Rightarrow> q ! 0 = 10 \<or> (q ! 0 = 172 \<and> q ! 1 AND 0xF0 = 16) \<or> (q ! 0 = 192 \<and> q ! 1 = 168)
   | None \<Rightarrow> length a = 16 \<and> a ! 0 AND 0xFE = 0xFC)"

definition IsLinkLocalUnicast :: "ip \<Rightarrow> bool" where
  "IsLinkLocalUnicast a = (case To4 a of
     Some q \<Rightarrow> q ! 0 = 169 \<and> q ! 1 = 254
   | None \<Rightarrow> length a = 16 \<and> a ! 0 = 0xFE \<and> a ! 1 AND 0xC0 = 0x80)"

definition IsLinkLocalMulticast :: "ip \<Rightarrow> bool" where
  "IsLinkLocalMulticast a = (case To4 a of
     Some q \<Rightarrow> q ! 0 = 224 \<and> q ! 1 = 0 \<and> q ! 2 = 0
   | None \<Rightarrow> length a = 16 \<and> a ! 0 = 0xFF \<and> a ! 1 AND 0x0F = 2)"

definition IsUnspecified :: "ip \<Rightarrow> bool" where
  "IsUnspecified a = (IPEqual a IPv4zero \<or> IPEqual a IPv6unspecified)"

definition IsMulticast :: "ip \<Rightarrow> bool" where
  "IsMulticast a = (case To4 a of
     Some q \<Rightarrow> q ! 0 AND 0xF0 = 0xE0
   | None \<Rightarrow> length a = 16 \<and> a ! 0 = 0xFF)"

definition IsInterfaceLocalMulticast :: "ip \<Rightarrow> bool" where
  "IsInterfaceLocalMulticast a = (length a = 16 \<and> a ! 0 = 0xFF \<and> a ! 1 AND 0x0F = 1)"

definition blockedIP :: "ip \<Rightarrow> bool \<times> string" where
  "blockedIP a =
     (if IsLoopback a then (True, ''loopback address'')
      else if IsPrivate a then (True, ''private address'')
      else if IsLinkLocalUnicast a \<or> IsLinkLocalMulticast a then (True, ''link-local address'')
      else if IsUnspecified a then (True, ''unspecified address'')
      else if IsMulticast a then (True, ''multicast address'')
      else if IsInterfaceLocalMulticast a then (True, ''interface-local address'')
      else (False, ''''))"

section \<open>Hosts and patterns\<close>

record Url =
  Scheme :: string
  Host :: string

definition validOptionalPort :: "string \<Rightarrow> bool" where
  "validOptionalPort port = (port = [] \<or> (hd port = CHR '':'' \<and> list_all isDigit (tl port)))"

text \<open>The text before the last occurrence of a byte, and from that byte on, if the byte occurs.\<close>

definition lastCut :: "char \<Rightarrow> string \<Rightarrow> (string \<times> string) option" where
  "lastCut c s = (if c \<in> set s then Some (rev (tl (fromByte c (rev s))), c # rev (beforeByte c (rev s))) else None)"

definition Hostname :: "Url \<Rightarrow> string" where
  "Hostname u =
     (let h = (case lastCut (CHR '':'') (Host u) of
                 Some (before, port) \<Rightarrow> if validOptionalPort port then before else Host u
               | None \<Rightarrow> Host u)
      in if hasPrefix h ''['' \<and> hasSuffix h '']'' then butlast (tl h) else h)"

definition SplitHostPort :: "string \<Rightarrow> (string \<times> string) option" where
  "SplitHostPort addr =
     (case lastCut (CHR '':'') addr of
        None \<Rightarrow> None
      | Some (before, port) \<Rightarrow>
          if hasPrefix addr ''['' then
            (if CHR '']'' \<notin> set addr then None
             else if tl (fromByte (CHR '']'') addr) \<noteq> port then None
             else if CHR ''['' \<in> set (tl addr) \<or> CHR '']'' \<in> set (tl (fromByte (CHR '']'') addr)) then None
             else Some (tl (beforeByte (CHR '']'') addr), tl port))
          else if CHR '':'' \<in> set before \<or> CHR ''['' \<in> set addr \<or> CHR '']'' \<in> set addr then None
          else Some (before, tl port))"

definition patternMatches :: "string \<Rightarrow> string \<Rightarrow> bool" where
  "patternMatches host p0 =
     (let p = toLower (trimSpace p0)
      in if p = '''' then False
         else if p = host then True
         else if hasPrefix p ''*.'' then hasSuffix host (''.'' @ trimPrefix p ''*.'')
         else False)"

definition hostAllowed :: "string \<Rightarrow> string list \<Rightarrow> bool" where
  "hostAllowed host patterns = list_ex (patternMatches (toLower (trimSuffix host ''.''))) patterns"

definition isHopByHop :: "string \<Rightarrow> bool" where
  "isHopByHop header =
     (toLower header \<in> set [''connection'', ''keep-alive'', ''proxy-authenticate'', ''proxy-authorization'', ''te'', ''trailer'',
        ''transfer-encoding'', ''upgrade'', ''host''])"

section \<open>The proxy\<close>

datatype egress_err =
  UrlRequired | UrlUnparsable string | SchemeNotAllowed string | UrlNoHost
| HostNotAllowed string | AddressRefused ip string | NoUsableAddress string
| RateLimited int | Transport string

text \<open>Which of the three sentinels an error wraps.\<close>

datatype sentinel = ErrEgressNotAllowed | ErrEgressRateLimited | ErrEgressBadRequest

fun errIs :: "egress_err \<Rightarrow> sentinel option" where
  "errIs UrlRequired = Some ErrEgressBadRequest"
| "errIs (UrlUnparsable m) = Some ErrEgressBadRequest"
| "errIs (SchemeNotAllowed m) = Some ErrEgressBadRequest"
| "errIs UrlNoHost = Some ErrEgressBadRequest"
| "errIs (HostNotAllowed h) = Some ErrEgressNotAllowed"
| "errIs (AddressRefused a w) = Some ErrEgressNotAllowed"
| "errIs (NoUsableAddress h) = Some ErrEgressNotAllowed"
| "errIs (RateLimited n) = Some ErrEgressRateLimited"
| "errIs (Transport m) = None"

record EgressRequest =
  er_Method :: string
  er_URL :: string
  er_Headers :: "(string, string list) gomap"
  er_Body :: bytes
  er_Timeout :: int

record EgressResponse =
  rs_StatusCode :: int
  rs_Headers :: "(string, string list) gomap"
  rs_Body :: bytes

text \<open>The request handed to the HTTP client, and the reply: its body is a stream of bytes that may end in a read error.\<close>

record OutRequest =
  or_Method :: string
  or_URL :: string
  or_Headers :: "(string \<times> string) list"
  or_Body :: "bytes option"
  or_Timeout :: int

record Reply =
  rp_Status :: int
  rp_Headers :: "(string, string list) gomap"
  rp_Body :: bytes
  rp_ReadErr :: "string option"

record Net =
  nt_parse :: "string \<Rightarrow> string + Url"
  nt_newRequest :: "string \<Rightarrow> string \<Rightarrow> string option"
  nt_dialAddr :: "Url \<Rightarrow> string"
  nt_lookup :: "string \<Rightarrow> string + ip list"
  nt_dial :: "ip \<Rightarrow> string \<Rightarrow> string option"
  nt_exchange :: "ip \<Rightarrow> string \<Rightarrow> OutRequest \<Rightarrow> string + Reply"

record rateWindow =
  windowStart :: int
  count :: int

record audit =
  au_Key :: string
  au_Method :: string
  au_URL :: string
  au_Status :: int
  au_Err :: "egress_err option"

text \<open>\<open>trail\<close> is what the \<^verbatim>\<open>OnRequest\<close> hook has received; the flag says whether the hook is set.\<close>

record HTTPEgress =
  AllowFor :: "string \<Rightarrow> string list"
  MaxResponseBytes :: int
  DefaultTimeout :: int
  RatePerMinute :: int
  OnRequest :: bool
  counts :: "(string, rateWindow) gomap"
  trail :: "audit list"

definition second :: int where "second = 1000000000"
definition Minute :: int where "Minute = 60 * second"
definition defaultEgressTimeout :: int where "defaultEgressTimeout = 15 * second"
definition defaultMaxResponse :: int where "defaultMaxResponse = push_bit 20 8"
definition defaultRatePerMinute :: int where "defaultRatePerMinute = 120"

definition NewHTTPEgress :: "(string \<Rightarrow> string list) \<Rightarrow> HTTPEgress" where
  "NewHTTPEgress allowFor = \<lparr>AllowFor = allowFor, MaxResponseBytes = defaultMaxResponse, DefaultTimeout = defaultEgressTimeout,
     RatePerMinute = defaultRatePerMinute, OnRequest = False, counts = [], trail = []\<rparr>"

definition egressTimeout :: "HTTPEgress \<Rightarrow> int" where
  "egressTimeout e = (if DefaultTimeout e > 0 then DefaultTimeout e else defaultEgressTimeout)"

definition rateLimit :: "HTTPEgress \<Rightarrow> int" where
  "rateLimit e = (if RatePerMinute e > 0 then RatePerMinute e else defaultRatePerMinute)"

definition responseLimit :: "HTTPEgress \<Rightarrow> int" where
  "responseLimit e = (if MaxResponseBytes e \<le> 0 then defaultMaxResponse else MaxResponseBytes e)"

definition allowRate :: "int \<Rightarrow> HTTPEgress \<Rightarrow> string \<Rightarrow> bool \<times> HTTPEgress" where
  "allowRate now e key =
     (case map_of (counts e) key of
        None \<Rightarrow> (True, e\<lparr>counts := AList.update key \<lparr>windowStart = now, count = 1\<rparr> (counts e)\<rparr>)
      | Some w \<Rightarrow>
          if now - windowStart w \<ge> Minute
          then (True, e\<lparr>counts := AList.update key \<lparr>windowStart = now, count = 1\<rparr> (counts e)\<rparr>)
          else if count w \<ge> rateLimit e then (False, e)
          else (True, e\<lparr>counts := AList.update key (w\<lparr>count := count w + 1\<rparr>) (counts e)\<rparr>))"

definition egressAudit :: "HTTPEgress \<Rightarrow> string \<Rightarrow> string \<Rightarrow> string \<Rightarrow> int \<Rightarrow> egress_err option \<Rightarrow> HTTPEgress" where
  "egressAudit e key verb url status err =
     (if OnRequest e
      then e\<lparr>trail := trail e @ [\<lparr>au_Key = key, au_Method = verb, au_URL = url, au_Status = status, au_Err = err\<rparr>]\<rparr> else e)"

definition parseTarget :: "Net \<Rightarrow> string \<Rightarrow> egress_err + Url" where
  "parseTarget nt raw =
     (if raw = '''' then Inl UrlRequired
      else case nt_parse nt raw of
        Inl m \<Rightarrow> Inl (UrlUnparsable m)
      | Inr u \<Rightarrow>
          if Scheme u \<noteq> ''http'' \<and> Scheme u \<noteq> ''https'' then Inl (SchemeNotAllowed (Scheme u))
          else if Host u = '''' then Inl UrlNoHost
          else Inr u)"

text \<open>The loop of the dialler over the resolved addresses. Besides the outcome it gives the addresses a connection was attempted to.\<close>

fun dialLoop :: "Net \<Rightarrow> string \<Rightarrow> egress_err option \<Rightarrow> ip list \<Rightarrow> (egress_err option + ip) \<times> ip list" where
  "dialLoop nt port lastErr [] = (Inl lastErr, [])"
| "dialLoop nt port lastErr (a # as) =
     (if fst (blockedIP a) then dialLoop nt port (Some (AddressRefused a (snd (blockedIP a)))) as
      else (case nt_dial nt a port of
              None \<Rightarrow> (Inr a, [a])
            | Some m \<Rightarrow> (case dialLoop nt port (Some (Transport m)) as of (r, tried) \<Rightarrow> (r, a # tried))))"

definition guardedDial :: "Net \<Rightarrow> string \<Rightarrow> (egress_err + ip \<times> string) \<times> ip list" where
  "guardedDial nt addr =
     (case SplitHostPort addr of
        None \<Rightarrow> (Inl (Transport ''address''), [])
      | Some (host, port) \<Rightarrow>
          (case nt_lookup nt host of
             Inl m \<Rightarrow> (Inl (Transport m), [])
           | Inr ips \<Rightarrow>
               (case dialLoop nt port None ips of
                  (Inr a, tried) \<Rightarrow> (Inr (a, port), tried)
                | (Inl (Some err), tried) \<Rightarrow> (Inl err, tried)
                | (Inl None, tried) \<Rightarrow> (Inl (NoUsableAddress host), tried))))"

text \<open>
  The client: every connection is opened by \<open>guardedDial\<close> on the address the transport derives from the URL, and the first reply is
  the answer, a redirect included. (A connection taken from the idle pool is one that an earlier call of the dialler returned.)
\<close>

definition clientDo :: "Net \<Rightarrow> Url \<Rightarrow> OutRequest \<Rightarrow> (egress_err + Reply) \<times> ip list" where
  "clientDo nt u req =
     (case guardedDial nt (nt_dialAddr nt u) of
        (Inl err, tried) \<Rightarrow> (Inl err, tried)
      | (Inr (a, port), tried) \<Rightarrow>
          (case nt_exchange nt a port req of Inl m \<Rightarrow> (Inl (Transport m), tried) | Inr rp \<Rightarrow> (Inr rp, tried)))"

text \<open>\<^verbatim>\<open>io.ReadAll\<close> through \<^verbatim>\<open>io.LimitReader\<close>: a read error past the limit is never met.\<close>

definition readLimited :: "int \<Rightarrow> Reply \<Rightarrow> string + bytes" where
  "readLimited limit rp =
     (case rp_ReadErr rp of
        Some m \<Rightarrow> if int (length (rp_Body rp)) < limit then Inl m else Inr (take (nat limit) (rp_Body rp))
      | None \<Rightarrow> Inr (take (nat limit) (rp_Body rp)))"

definition outHeaders :: "(string, string list) gomap \<Rightarrow> (string \<times> string) list" where
  "outHeaders hs = concat (map (\<lambda>(k, vs). if isHopByHop k then [] else map (Pair k) vs) hs)"

definition outRequest :: "HTTPEgress \<Rightarrow> EgressRequest \<Rightarrow> OutRequest" where
  "outRequest e req =
     \<lparr>or_Method = (if er_Method req = '''' then ''GET'' else er_Method req), or_URL = er_URL req,
      or_Headers = outHeaders (er_Headers req), or_Body = (if er_Body req = [] then None else Some (er_Body req)),
      or_Timeout = (if er_Timeout req \<le> 0 then egressTimeout e else er_Timeout req)\<rparr>"

definition Fetch :: "Net \<Rightarrow> int \<Rightarrow> HTTPEgress \<Rightarrow> string \<Rightarrow> EgressRequest \<Rightarrow> (egress_err + EgressResponse) \<times> HTTPEgress \<times> ip list" where
  "Fetch nt now e key req =
     (let fail = (\<lambda>e' verb status err tried. (Inl err, egressAudit e' key verb (er_URL req) status (Some err), tried))
      in case parseTarget nt (er_URL req) of
        Inl err \<Rightarrow> fail e (er_Method req) 0 err []
      | Inr target \<Rightarrow>
          if \<not> hostAllowed (Hostname target) (AllowFor e key)
          then fail e (er_Method req) 0 (HostNotAllowed (Hostname target)) []
          else (case allowRate now e key of
            (False, e1) \<Rightarrow> fail e1 (er_Method req) 0 (RateLimited (rateLimit e1)) []
          | (True, e1) \<Rightarrow>
              (let out = outRequest e1 req; verb = or_Method out
               in case nt_newRequest nt verb (er_URL req) of
                 Some m \<Rightarrow> fail e1 verb 0 (Transport m) []
               | None \<Rightarrow>
                   (case clientDo nt target out of
                      (Inl err, tried) \<Rightarrow> fail e1 verb 0 err tried
                    | (Inr rp, tried) \<Rightarrow>
                        (case readLimited (responseLimit e1) rp of
                           Inl m \<Rightarrow> fail e1 verb (rp_Status rp) (Transport m) tried
                         | Inr payload \<Rightarrow>
                             (Inr \<lparr>rs_StatusCode = rp_Status rp, rs_Headers = rp_Headers rp, rs_Body = payload\<rparr>,
                              egressAudit e1 key verb (er_URL req) (rp_Status rp) None, tried))))))"

section \<open>The blocked networks\<close>

text \<open>An address as a number, most significant byte first, and a network as its width, first address and prefix length.\<close>

fun ipVal :: "ip \<Rightarrow> nat" where
  "ipVal [] = 0"
| "ipVal (b # bs) = unat b * 256 ^ length bs + ipVal bs"

definition inNet :: "ip \<Rightarrow> nat \<times> nat \<Rightarrow> bool" where
  "inNet a = (\<lambda>(base, len). base \<le> ipVal a \<and> ipVal a < base + 2 ^ (8 * length a - len))"

definition ipv4 :: "nat \<Rightarrow> nat \<Rightarrow> nat" where
  "ipv4 a b = a * 2 ^ 24 + b * 2 ^ 16"

definition blockedNets4 :: "(nat \<times> nat) list" where
  "blockedNets4 = [(ipv4 127 0, 8), (ipv4 10 0, 8), (ipv4 172 16, 12), (ipv4 192 168, 16), (ipv4 169 254, 16), (ipv4 224 0, 4), (0, 32)]"

definition ipv6 :: "nat \<Rightarrow> nat \<Rightarrow> nat" where
  "ipv6 a b = (a * 256 + b) * 2 ^ 112"

definition blockedNets6 :: "(nat \<times> nat) list" where
  "blockedNets6 = [(1, 128), (ipv6 0xFC 0, 7), (ipv6 0xFE 0x80, 10), (ipv6 0xFF 0, 8), (0, 128)]"

text \<open>The address with the IPv4-in-IPv6 form folded into the four-byte form, and the networks of its family.\<close>

definition canonIP :: "ip \<Rightarrow> ip" where
  "canonIP a = (case To4 a of Some q \<Rightarrow> q | None \<Rightarrow> a)"

definition inBlockedNet :: "ip \<Rightarrow> bool" where
  "inBlockedNet a = (let q = canonIP a in list_ex (inNet q) (if length q = 4 then blockedNets4 else blockedNets6))"

lemma ipVal_bound: "ipVal a < 256 ^ length a"
proof (induction a)
  case (Cons b bs)
  have "unat b < 256" using unsigned_less[of b, where ?'a = nat] by simp
  then have "unat b * 256 ^ length bs + 256 ^ length bs \<le> 256 * 256 ^ length bs"
    by (metis Suc_leI add.commute mult_Suc mult_le_mono1)
  with Cons have "unat b * 256 ^ length bs + ipVal bs < 256 * 256 ^ length bs" by linarith
  then show ?case by simp
qed simp

lemma ipVal_zeros [simp]: "ipVal (replicate n 0 @ bs) = ipVal bs" "ipVal (replicate n 0) = 0"
  by (induction n) auto

lemma ipVal_inj: "length a = length b \<Longrightarrow> ipVal a = ipVal b \<Longrightarrow> a = b"
proof (induction a b rule: list_induct2)
  case (Cons x xs y ys)
  let ?m = "256 ^ length xs :: nat"
  have lt: "ipVal xs < ?m" "ipVal ys < ?m" using ipVal_bound[of xs] ipVal_bound[of ys] Cons.hyps by simp_all
  have eq: "unat x * ?m + ipVal xs = unat y * ?m + ipVal ys" using Cons by simp
  have "(unat x * ?m + ipVal xs) div ?m = unat x" "(unat y * ?m + ipVal ys) div ?m = unat y" using lt by simp_all
  with eq have "unat x = unat y" by simp
  with eq have "ipVal xs = ipVal ys" by simp
  with Cons.IH \<open>unat x = unat y\<close> show ?case by (simp add: word_unat_eq_iff)
qed simp

lemma and_mask_hi: "(n::nat) < 2 ^ (k + j) \<Longrightarrow> n AND (mask j * 2 ^ k) = n div 2 ^ k * 2 ^ k"
proof -
  assume n: "n < 2 ^ (k + j)"
  have "n AND (push_bit k (mask j)) = push_bit k (drop_bit k n AND mask j)"
    by (rule bit_eqI) (auto simp: bit_simps)
  also have "drop_bit k n AND mask j = take_bit j (drop_bit k n)" by (simp add: take_bit_eq_mask)
  also have "take_bit j (drop_bit k n) = drop_bit k n"
    using n by (simp add: take_bit_nat_eq_self_iff drop_bit_eq_div less_mult_imp_div_less power_add mult.commute)
  finally show ?thesis by (simp add: push_bit_eq_mult drop_bit_eq_div)
qed

lemma div_block: "0 < m \<Longrightarrow> (n::nat) div m * m = c * m \<longleftrightarrow> c * m \<le> n \<and> n < c * m + m"
  using dividend_less_times_div[of m n] times_div_less_eq_dividend[of m n] div_nat_eqI[of m c n]
  by (auto simp: mult.commute)

lemma byte_masks:
  fixes b :: "8 word"
  shows "b AND 0xF0 = 16 \<longleftrightarrow> 16 \<le> unat b \<and> unat b < 32"
    "b AND 0xFE = 0xFC \<longleftrightarrow> 252 \<le> unat b \<and> unat b < 254"
    "b AND 0xC0 = 0x80 \<longleftrightarrow> 128 \<le> unat b \<and> unat b < 192"
    "b AND 0xF0 = 0xE0 \<longleftrightarrow> 224 \<le> unat b \<and> unat b < 240"
proof -
  have n: "unat b < 256" using unsigned_less[of b, where ?'a = nat] by simp
  have m: "mask 4 * 2 ^ 4 = (240::nat)" "mask 7 * 2 ^ 1 = (254::nat)" "mask 2 * 2 ^ 6 = (192::nat)" by (simp_all add: mask_numeral)
  have a: "unat b AND 240 = unat b div 16 * 16" "unat b AND 254 = unat b div 2 * 2" "unat b AND 192 = unat b div 64 * 64"
    using n and_mask_hi[of "unat b" 4 4] and_mask_hi[of "unat b" 1 7] and_mask_hi[of "unat b" 6 2] unfolding m by simp_all
  have u: "unat (b AND 0xF0) = unat b AND 240" "unat (b AND 0xFE) = unat b AND 254" "unat (b AND 0xC0) = unat b AND 192"
    by (simp_all add: unsigned_and_eq)
  show "b AND 0xF0 = 16 \<longleftrightarrow> 16 \<le> unat b \<and> unat b < 32" "b AND 0xFE = 0xFC \<longleftrightarrow> 252 \<le> unat b \<and> unat b < 254"
    "b AND 0xC0 = 0x80 \<longleftrightarrow> 128 \<le> unat b \<and> unat b < 192" "b AND 0xF0 = 0xE0 \<longleftrightarrow> 224 \<le> unat b \<and> unat b < 240"
    unfolding word_unat_eq_iff u a
    using div_block[of 16 "unat b" 1] div_block[of 2 "unat b" 126] div_block[of 64 "unat b" 2] div_block[of 16 "unat b" 14]
    by simp_all
qed

lemma byte_lit: "n < 256 \<Longrightarrow> b = (word_of_nat n :: 8 word) \<longleftrightarrow> unat b = n"
  by (simp add: word_unat_eq_iff unat_of_nat take_bit_eq_mod)

lemma byte_lits:
  fixes b :: "8 word"
  shows "b = 127 \<longleftrightarrow> unat b = 127" "b = 10 \<longleftrightarrow> unat b = 10" "b = 172 \<longleftrightarrow> unat b = 172" "b = 192 \<longleftrightarrow> unat b = 192"
    "b = 168 \<longleftrightarrow> unat b = 168" "b = 169 \<longleftrightarrow> unat b = 169" "b = 254 \<longleftrightarrow> unat b = 254" "b = 224 \<longleftrightarrow> unat b = 224"
    "b = 255 \<longleftrightarrow> unat b = 255" "b = 0 \<longleftrightarrow> unat b = 0"
  using byte_lit[of 127 b] byte_lit[of 10 b] byte_lit[of 172 b] byte_lit[of 192 b] byte_lit[of 168 b] byte_lit[of 169 b]
    byte_lit[of 254 b] byte_lit[of 224 b] byte_lit[of 255 b] byte_lit[of 0 b] by simp_all

lemma byte_bound: "unat (b :: 8 word) < 256"
  using unsigned_less[of b, where ?'a = nat] by simp

lemma To4_Some:
  assumes "To4 a = Some q"
  shows "length q = 4" "a = q \<or> a = v4InV6Prefix @ q"
proof -
  have len: "length a = 4 \<or> length a = 16" using assms by (auto simp: To4_def split: if_splits)
  then show "length q = 4" using assms by (auto simp: To4_def split: if_splits)
  show "a = q \<or> a = v4InV6Prefix @ q"
  proof (cases "length a = 4")
    case False
    then have l: "length a = 16" and t: "take 10 a = replicate 10 0" "a ! 10 = 0xFF" "a ! 11 = 0xFF" "q = drop 12 a"
      using assms len by (auto simp: To4_def split: if_splits)
    have "take 12 a = take 10 a @ [a ! 10, a ! 11]" using l by (simp add: numeral_eq_Suc take_Suc_conv_app_nth)
    then have "take 12 a = v4InV6Prefix" using t by (simp add: v4InV6Prefix_def)
    then show ?thesis using t(4) by (metis append_take_drop_id)
  qed (use assms in \<open>auto simp: To4_def\<close>)
qed

lemma four_bytes: "length q = 4 \<Longrightarrow> \<exists>w x y z. q = [w, x, y, z]"
  by (auto simp: numeral_eq_Suc length_Suc_conv)

text \<open>The guard on an IPv4 address, in either form.\<close>

lemma unspecified4:
  assumes "To4 a = Some q"
  shows "IsUnspecified a \<longleftrightarrow> q = [0, 0, 0, 0]" "\<not> IsInterfaceLocalMulticast a"
proof -
  obtain w x y z where q: "q = [w, x, y, z]" using four_bytes To4_Some(1)[OF assms] by blast
  show "IsUnspecified a \<longleftrightarrow> q = [0, 0, 0, 0]"
    using To4_Some(2)[OF assms] unfolding q
    by (elim disjE) (auto simp add: IsUnspecified_def IPEqual_def IPv4zero_def IPv6unspecified_def v4InV6Prefix_def numeral_eq_Suc)
  show "\<not> IsInterfaceLocalMulticast a"
    using To4_Some(2)[OF assms] unfolding q
    by (elim disjE) (simp_all add: IsInterfaceLocalMulticast_def v4InV6Prefix_def nth_append)
qed

lemma net_prefix:
  fixes m :: nat
  assumes "r < m"
  shows "c * m \<le> p * m + r \<and> p * m + r < c * m + k * m \<longleftrightarrow> c \<le> p \<and> p < c + k"
proof -
  have "c * m \<le> p * m + r \<longleftrightarrow> c \<le> p"
  proof
    assume "c * m \<le> p * m + r"
    then have "c * m < (p + 1) * m" using assms by simp
    then show "c \<le> p" by (simp only: mult_less_cancel2) simp
  qed (simp add: trans_le_add1)
  moreover have "p * m + r < (c + k) * m \<longleftrightarrow> p < c + k"
  proof
    assume "p < c + k"
    then have "(p + 1) * m \<le> (c + k) * m" by (intro mult_le_mono1) simp
    then show "p * m + r < (c + k) * m" using assms by simp
  next
    assume "p * m + r < (c + k) * m"
    then have "p * m < (c + k) * m" by linarith
    then show "p < c + k" by (simp only: mult_less_cancel2)
  qed
  ultimately show ?thesis by (simp add: algebra_simps)
qed

lemma inNet4:
  assumes "q = [w, x, y, z]" "len \<le> 16"
  shows "inNet q (ipv4 c d, len) \<longleftrightarrow> c * 256 + d \<le> unat w * 256 + unat x \<and> unat w * 256 + unat x < c * 256 + d + 2 ^ (16 - len)"
proof -
  have "unat y * 256 + unat z < 65536" using byte_bound[of y] byte_bound[of z] by linarith
  note P = net_prefix[OF this, of "c * 256 + d" "unat w * 256 + unat x" "2 ^ (16 - len)"]
  have "(32 - len) = (16 - len) + 16" using assms(2) by simp
  then have "(2::nat) ^ (32 - len) = 2 ^ (16 - len) * 2 ^ 16" by (simp only: power_add)
  then have "(2::nat) ^ (32 - len) = 2 ^ (16 - len) * 65536" by (simp only: power_numeral_even power_numeral_odd) simp
  moreover have "ipVal q = (unat w * 256 + unat x) * 65536 + (unat y * 256 + unat z)" by (simp add: assms(1))
  moreover have "ipv4 c d = (c * 256 + d) * 65536" by (simp add: ipv4_def)
  moreover have "8 * length q = 32" by (simp add: assms(1))
  ultimately show ?thesis using P by (simp only: inNet_def prod.case)
qed

lemma block_in_row:
  fixes w x :: nat
  assumes "x < 256" "d + k \<le> 256" "0 < k"
  shows "c * 256 + d \<le> w * 256 + x \<and> w * 256 + x < c * 256 + d + k \<longleftrightarrow> w = c \<and> d \<le> x \<and> x < d + k"
proof (cases w c rule: linorder_cases)
  case less
  then have "(w + 1) * 256 \<le> c * 256" by (intro mult_le_mono1) simp
  with assms less show ?thesis by simp
next
  case greater
  then have "(c + 1) * 256 \<le> w * 256" by (intro mult_le_mono1) simp
  with assms greater show ?thesis by simp
qed auto

lemma blockedIP_iff:
  "fst (blockedIP a) \<longleftrightarrow> IsLoopback a \<or> IsPrivate a \<or> IsLinkLocalUnicast a \<or> IsLinkLocalMulticast a \<or> IsUnspecified a \<or>
     IsMulticast a \<or> IsInterfaceLocalMulticast a"
  by (simp add: blockedIP_def)

lemma inNet4_row:
  assumes "q = [w, x, y, z]" "len \<le> 16" "d + 2 ^ (16 - len) \<le> 256"
  shows "inNet q (ipv4 c d, len) \<longleftrightarrow> unat w = c \<and> d \<le> unat x \<and> unat x < d + 2 ^ (16 - len)"
  unfolding inNet4[OF assms(1,2)] using block_in_row[OF byte_bound assms(3)] by simp

lemma blocked4:
  assumes "To4 a = Some q"
  shows "fst (blockedIP a) \<longleftrightarrow> list_ex (inNet q) blockedNets4"
proof -
  obtain w x y z where q: "q = [w, x, y, z]" using four_bytes To4_Some(1)[OF assms] by blast
  note bx = byte_bound[of x]
  have "IsLoopback a \<longleftrightarrow> inNet q (ipv4 127 0, 8)"
    using bx assms by (simp add: IsLoopback_def q inNet4_row byte_lits)
  moreover have "IsPrivate a \<longleftrightarrow> inNet q (ipv4 10 0, 8) \<or> inNet q (ipv4 172 16, 12) \<or> inNet q (ipv4 192 168, 16)"
    using bx assms by (simp add: IsPrivate_def q inNet4_row byte_lits byte_masks) linarith
  moreover have "IsLinkLocalUnicast a \<longleftrightarrow> inNet q (ipv4 169 254, 16)"
    using bx assms by (simp add: IsLinkLocalUnicast_def q inNet4_row byte_lits) linarith
  moreover have m: "IsMulticast a \<longleftrightarrow> inNet q (ipv4 224 0, 4)"
    using assms net_prefix[OF bx, of 224 "unat w" 16] by (simp add: IsMulticast_def q inNet4 byte_masks)
  moreover have "IsLinkLocalMulticast a \<Longrightarrow> IsMulticast a"
    using assms by (simp add: IsLinkLocalMulticast_def IsMulticast_def q)
  moreover have "IsUnspecified a \<longleftrightarrow> inNet q (0, 32)"
    using ipVal_inj[of q "[0, 0, 0, 0]"] To4_Some(1)[OF assms] unspecified4[OF assms] by (auto simp: inNet_def)
  ultimately show ?thesis using unspecified4(2)[OF assms] by (simp add: blockedIP_iff blockedNets4_def) blast
qed

text \<open>The guard on an address that is only IPv6.\<close>

lemma inNet6:
  assumes "a = w # x # rest" "length rest = 14" "len \<le> 16"
  shows "inNet a (ipv6 c d, len) \<longleftrightarrow> c * 256 + d \<le> unat w * 256 + unat x \<and> unat w * 256 + unat x < c * 256 + d + 2 ^ (16 - len)"
proof -
  have m: "(256::nat) ^ 14 = 2 ^ 112" by simp
  have "ipVal rest < 2 ^ 112" using ipVal_bound[of rest] assms(2) unfolding m[symmetric] by simp
  note P = net_prefix[OF this, of "c * 256 + d" "unat w * 256 + unat x" "2 ^ (16 - len)"]
  have "(128 - len) = (16 - len) + 112" using assms(3) by simp
  then have "(2::nat) ^ (128 - len) = 2 ^ (16 - len) * 2 ^ 112" by (simp only: power_add)
  moreover have "ipVal a = (unat w * 256 + unat x) * 256 ^ 14 + ipVal rest"
    using assms by (simp add: power_Suc[symmetric] add_mult_distrib del: power_Suc)
  moreover have "8 * length a = 128" by (simp add: assms)
  ultimately show ?thesis using P by (simp only: inNet_def prod.case ipv6_def m)
qed

lemma inNet6_row:
  assumes "a = w # x # rest" "length rest = 14" "len \<le> 16" "d + 2 ^ (16 - len) \<le> 256"
  shows "inNet a (ipv6 c d, len) \<longleftrightarrow> unat w = c \<and> d \<le> unat x \<and> unat x < d + 2 ^ (16 - len)"
  unfolding inNet6[OF assms(1-3)] using block_in_row[OF byte_bound assms(4)] by simp

lemma special6:
  assumes "length a = 16" "To4 a = None"
  shows "IsLoopback a \<longleftrightarrow> inNet a (1, 128)" "IsUnspecified a \<longleftrightarrow> inNet a (0, 128)"
proof -
  have v: "ipVal IPv6loopback = 1" "ipVal IPv6unspecified = 0"
    by (simp_all only: IPv6loopback_def IPv6unspecified_def ipVal_zeros) simp
  have l: "length IPv6loopback = 16" "length IPv6unspecified = 16" "length IPv4zero = 16"
    by (simp_all add: IPv6loopback_def IPv6unspecified_def IPv4zero_def v4InV6Prefix_def)
  have "a = IPv6loopback \<longleftrightarrow> ipVal a = 1" "a = IPv6unspecified \<longleftrightarrow> ipVal a = 0"
    using ipVal_inj[of a IPv6loopback] ipVal_inj[of a IPv6unspecified] assms(1) v l by auto
  moreover have "a \<noteq> IPv4zero" using assms(2) by (auto simp: To4_def IPv4zero_def v4InV6Prefix_def nth_append split: if_splits)
  ultimately show "IsLoopback a \<longleftrightarrow> inNet a (1, 128)" "IsUnspecified a \<longleftrightarrow> inNet a (0, 128)"
    using assms l by (auto simp: IsLoopback_def IsUnspecified_def IPEqual_def inNet_def)
qed

lemma blocked6:
  assumes "length a = 16" "To4 a = None"
  shows "fst (blockedIP a) \<longleftrightarrow> list_ex (inNet a) blockedNets6"
proof -
  obtain w x rest where a: "a = w # x # rest" "length rest = 14" using assms(1) by (auto simp: numeral_eq_Suc length_Suc_conv)
  note bx = byte_bound[of x] and len = assms(1) a(2)
  have "IsPrivate a \<longleftrightarrow> inNet a (ipv6 0xFC 0, 7)"
    using assms len(2) net_prefix[OF bx, of 252 "unat w" 2] by (simp add: IsPrivate_def inNet6[OF a] byte_masks) (simp add: a byte_masks)
  moreover have "IsLinkLocalUnicast a \<longleftrightarrow> inNet a (ipv6 0xFE 0x80, 10)"
    using assms len(2) by (simp add: IsLinkLocalUnicast_def inNet6_row[OF a]) (simp add: a byte_masks byte_lits)
  moreover have m: "IsMulticast a \<longleftrightarrow> inNet a (ipv6 0xFF 0, 8)"
    using assms len(2) bx by (simp add: IsMulticast_def inNet6_row[OF a]) (simp add: a byte_lits)
  moreover have "IsLinkLocalMulticast a \<Longrightarrow> IsMulticast a" "IsInterfaceLocalMulticast a \<Longrightarrow> IsMulticast a"
    using assms by (simp_all add: IsLinkLocalMulticast_def IsMulticast_def IsInterfaceLocalMulticast_def)
  ultimately show ?thesis using special6[OF assms] by (simp add: blockedIP_iff blockedNets6_def) blast
qed

lemma blocked_canon:
  assumes "length a = 4 \<or> length a = 16"
  shows "fst (blockedIP a) \<longleftrightarrow> inBlockedNet a"
proof (cases "To4 a")
  case None
  with assms have "length a = 16" by (auto simp: To4_def)
  with None show ?thesis using blocked6 by (simp add: inBlockedNet_def canonIP_def)
next
  case (Some q)
  then show ?thesis using blocked4[OF Some] To4_Some(1)[OF Some] by (simp add: inBlockedNet_def canonIP_def)
qed

section \<open>The allow-list by labels\<close>

abbreviation labels :: "string \<Rightarrow> string list" where
  "labels s \<equiv> splitOn (CHR ''.'') s"

text \<open>A pattern is the host itself, label by label, or a star in front of labels that the host ends with after at least one more label.\<close>

definition labelsCover :: "string list \<Rightarrow> string list \<Rightarrow> bool" where
  "labelsCover p h \<longleftrightarrow> p = h \<or> (hd p = ''*'' \<and> tl p \<noteq> [] \<and> length (tl p) < length h \<and> drop (length h - length (tl p)) h = tl p)"

lemma splitOn_append2: "splitOn c (r @ c # d) = splitOn c r @ splitOn c d"
proof (induction r)
  case (Cons x r)
  obtain y ys where "splitOn c r = y # ys" using splitOn_ne[of c r] by (cases "splitOn c r") blast+
  with Cons show ?case by simp
qed simp

lemma joinWith_append: "ls \<noteq> [] \<Longrightarrow> ms \<noteq> [] \<Longrightarrow> joinWith sep (ls @ ms) = joinWith sep ls @ sep @ joinWith sep ms"
proof (induction ls)
  case (Cons x ls)
  obtain m ms' where "ms = m # ms'" using Cons.prems(2) by (cases ms) auto
  with Cons show ?case by (cases ls) auto
qed simp

lemma splitOn_inj: "splitOn c a = splitOn c b \<longleftrightarrow> a = b"
proof
  assume "splitOn c a = splitOn c b"
  then have "joinWith [c] (splitOn c a) = joinWith [c] (splitOn c b)" by (rule arg_cong)
  then show "a = b" by (simp only: joinWith_splitOn)
qed simp

lemma suffix_labels:
  "hasSuffix host (''.'' @ d) \<longleftrightarrow> length (labels d) < length (labels host) \<and> drop (length (labels host) - length (labels d)) (labels host) = labels d"
proof
  assume "hasSuffix host (''.'' @ d)"
  then obtain r where "host = r @ CHR ''.'' # d" by (auto simp: hasSuffix_iff)
  then have "labels host = labels r @ labels d" by (simp add: splitOn_append2)
  then show "length (labels d) < length (labels host) \<and> drop (length (labels host) - length (labels d)) (labels host) = labels d" by simp
next
  assume A: "length (labels d) < length (labels host) \<and> drop (length (labels host) - length (labels d)) (labels host) = labels d"
  define ls where "ls = take (length (labels host) - length (labels d)) (labels host)"
  have "labels host = ls @ labels d" using A unfolding ls_def by (metis append_take_drop_id)
  moreover have "ls \<noteq> []" using A unfolding ls_def by (cases "labels host") auto
  ultimately have "joinWith ''.'' (labels host) = joinWith ''.'' ls @ ''.'' @ joinWith ''.'' (labels d)" by (simp add: joinWith_append)
  then have "host = joinWith ''.'' ls @ ''.'' @ d" by (simp only: joinWith_splitOn)
  then show "hasSuffix host (''.'' @ d)" unfolding hasSuffix_iff by blast
qed

lemma star_labels: "hd (labels p) = ''*'' \<and> tl (labels p) \<noteq> [] \<longleftrightarrow> hasPrefix p ''*.''"
proof
  assume "hasPrefix p ''*.''"
  then obtain d where "p = ''*.'' @ d" by (auto simp: hasPrefix_iff)
  then show "hd (labels p) = ''*'' \<and> tl (labels p) \<noteq> []" by simp
next
  assume A: "hd (labels p) = ''*'' \<and> tl (labels p) \<noteq> []"
  then have "labels p = [''*''] @ tl (labels p)" using splitOn_ne[of "CHR ''.''" p] by (cases "labels p") auto
  then have "joinWith ''.'' (labels p) = ''*'' @ ''.'' @ joinWith ''.'' (tl (labels p))"
    using A joinWith_append[of "[''*'']" "tl (labels p)" "''.''"] by (metis joinWith.simps(2) not_Cons_self2)
  then have "p = ''*.'' @ joinWith ''.'' (tl (labels p))" by (simp add: joinWith_splitOn)
  then show "hasPrefix p ''*.''" unfolding hasPrefix_iff by blast
qed

lemma star_tail: "hasPrefix p ''*.'' \<Longrightarrow> tl (labels p) = labels (trimPrefix p ''*.'')"
proof -
  assume "hasPrefix p ''*.''"
  then obtain d where "p = ''*.'' @ d" unfolding hasPrefix_iff by blast
  then show ?thesis using trimPrefix_append[of "''*.''" d] by simp
qed

lemma labelsCover_strings:
  "labelsCover (labels p) (labels host) \<longleftrightarrow> p = host \<or> (hasPrefix p ''*.'' \<and> hasSuffix host (''.'' @ trimPrefix p ''*.''))"
proof (cases "hasPrefix p ''*.''")
  case True
  note T = star_tail[OF True] suffix_labels[of host "trimPrefix p ''*.''"] star_labels[of p]
  show ?thesis using True T(3) unfolding labelsCover_def splitOn_inj T(1) T(2)[symmetric] by blast
next
  case False
  then show ?thesis using star_labels[of p] unfolding labelsCover_def splitOn_inj by blast
qed

lemma patternMatches_labels:
  "patternMatches host p0 \<longleftrightarrow> trimSpace p0 \<noteq> [] \<and> labelsCover (labels (toLower (trimSpace p0))) (labels host)"
  unfolding labelsCover_strings by (simp add: patternMatches_def Let_def toLower_def)

text \<open>The allow-list is decided label by label. A host is allowed exactly when, with the case folded and one trailing dot removed, its
  labels are those of some non-blank pattern, or the pattern begins with a star label and the host consists of at least one label followed by
  the pattern's other labels. So \<^verbatim>\<open>*.example.com\<close> admits neither \<^verbatim>\<open>example.com\<close> nor
  \<^verbatim>\<open>evilexample.com\<close>.
\<close>

theorem hostAllowed_labels:
  "hostAllowed host patterns \<longleftrightarrow>
     (\<exists>p \<in> set patterns. trimSpace p \<noteq> [] \<and> labelsCover (labels (toLower (trimSpace p))) (labels (toLower (trimSuffix host ''.''))))"
  by (simp add: hostAllowed_def list_ex_iff patternMatches_labels)

section \<open>Where a request goes\<close>

lemma dialLoop_tried: "set (snd (dialLoop nt port le as)) \<subseteq> {a \<in> set as. \<not> fst (blockedIP a)}"
proof (induction nt port le as rule: dialLoop.induct)
  case (2 nt port le a as)
  show ?case
  proof (cases "fst (blockedIP a)")
    case True
    then show ?thesis using 2(1) by auto
  next
    case False
    then show ?thesis using 2(2)[OF False] by (cases "nt_dial nt a port") (auto split: prod.splits)
  qed
qed simp

lemma guardedDial_tried:
  assumes "guardedDial nt addr = (r, tried)" "a \<in> set tried"
  shows "\<not> fst (blockedIP a) \<and> (\<exists>host port ips. SplitHostPort addr = Some (host, port) \<and> nt_lookup nt host = Inr ips \<and> a \<in> set ips)"
proof -
  obtain host port ips where S: "SplitHostPort addr = Some (host, port)" "nt_lookup nt host = Inr ips"
    using assms by (auto simp: guardedDial_def split: option.splits prod.splits sum.splits)
  obtain q tr where D: "dialLoop nt port None ips = (q, tr)" by (cases "dialLoop nt port None ips")
  then have "tr = tried" using assms(1) S by (auto simp: guardedDial_def split: option.splits sum.splits)
  then show ?thesis using dialLoop_tried[of nt port None ips] D assms(2) S by auto
qed

lemma clientDo_tried: "snd (clientDo nt u req) = snd (guardedDial nt (nt_dialAddr nt u))"
  by (auto simp: clientDo_def split: prod.splits sum.splits)

lemma parseTarget_Inr:
  "parseTarget nt raw = Inr u \<Longrightarrow> nt_parse nt raw = Inr u \<and> Scheme u \<in> {''http'', ''https''} \<and> Host u \<noteq> []"
  by (auto simp: parseTarget_def split: if_splits sum.splits)

lemma egressAudit_fields [simp]:
  "counts (egressAudit e k v u s err) = counts e" "RatePerMinute (egressAudit e k v u s err) = RatePerMinute e"
  "AllowFor (egressAudit e k v u s err) = AllowFor e" "MaxResponseBytes (egressAudit e k v u s err) = MaxResponseBytes e"
  "DefaultTimeout (egressAudit e k v u s err) = DefaultTimeout e" "OnRequest (egressAudit e k v u s err) = OnRequest e"
  by (simp_all add: egressAudit_def)

lemma allowRate_fields:
  assumes "allowRate now e k = (b, e1)"
  shows "RatePerMinute e1 = RatePerMinute e" "AllowFor e1 = AllowFor e" "MaxResponseBytes e1 = MaxResponseBytes e"
    "OnRequest e1 = OnRequest e" "trail e1 = trail e"
  using assms by (auto simp: allowRate_def split: option.splits if_splits)

text \<open>What a call did before it dialled, and the state it leaves.\<close>

lemma Fetch_dials:
  assumes "Fetch nt now e key req = (r, e', tried)" "tried \<noteq> []"
  obtains u e1 where "parseTarget nt (er_URL req) = Inr u" "hostAllowed (Hostname u) (AllowFor e key)"
    "allowRate now e key = (True, e1)" "counts e' = counts e1" "tried = snd (guardedDial nt (nt_dialAddr nt u))"
proof -
  obtain u where u: "parseTarget nt (er_URL req) = Inr u" "hostAllowed (Hostname u) (AllowFor e key)"
    using assms by (auto simp: Fetch_def Let_def split: sum.splits if_splits)
  obtain e1 where e1: "allowRate now e key = (True, e1)"
    using assms u by (auto simp: Fetch_def Let_def split: prod.splits bool.splits)
  let ?out = "outRequest e1 req"
  have "nt_newRequest nt (or_Method ?out) (er_URL req) = None"
    using assms u e1 by (auto simp: Fetch_def Let_def split: option.splits)
  moreover obtain q tr where q: "clientDo nt u ?out = (q, tr)" by (cases "clientDo nt u ?out")
  ultimately have "tried = tr \<and> counts e' = counts e1"
    using assms u e1 by (auto simp: Fetch_def Let_def split: sum.splits)
  then show ?thesis using that[OF u e1] q clientDo_tried[of nt u ?out] by simp
qed

lemma Fetch_counts:
  assumes "Fetch nt now e key req = (r, e', tried)"
  shows "RatePerMinute e' = RatePerMinute e"
    "(counts e' = counts e \<and> tried = []) \<or> (\<exists>e1. allowRate now e key = (True, e1) \<and> counts e' = counts e1)"
proof -
  obtain b e1 where A: "allowRate now e key = (b, e1)" by (cases "allowRate now e key")
  note F = allowRate_fields[OF A]
  have B: "\<not> b \<Longrightarrow> e1 = e" using A by (auto simp: allowRate_def split: option.splits if_splits)
  show "RatePerMinute e' = RatePerMinute e"
    using assms A F(1) by (auto simp: Fetch_def Let_def split: sum.splits if_splits bool.splits option.splits prod.splits)
  show "(counts e' = counts e \<and> tried = []) \<or> (\<exists>e1. allowRate now e key = (True, e1) \<and> counts e' = counts e1)"
    using assms A B by (auto simp: Fetch_def Let_def split: sum.splits if_splits bool.splits option.splits prod.splits)
qed

text \<open>C5: A plugin reaches only what it was granted. Whenever \<^verbatim>\<open>Fetch\<close> attempts a connection to an address, the request's
  URL parsed to an http or https URL whose host name some pattern of the plugin's own allow-list covers, the rate window admitted the call,
  the address is one the resolver gave for the dialled host, and it lies in none of the loopback, private, link-local, unspecified or
  multicast networks, in IPv4, IPv6 or IPv4-in-IPv6 form.
\<close>

theorem egress_confined:
  assumes "Fetch nt now e key req = (r, e', tried)" "a \<in> set tried" "length a = 4 \<or> length a = 16"
  shows "\<not> inBlockedNet a \<and>
    (\<exists>u. nt_parse nt (er_URL req) = Inr u \<and> Scheme u \<in> {''http'', ''https''} \<and>
       (\<exists>p \<in> set (AllowFor e key). trimSpace p \<noteq> [] \<and>
          labelsCover (labels (toLower (trimSpace p))) (labels (toLower (trimSuffix (Hostname u) ''.'')))) \<and>
       fst (allowRate now e key) \<and>
       (\<exists>host port ips. SplitHostPort (nt_dialAddr nt u) = Some (host, port) \<and> nt_lookup nt host = Inr ips \<and> a \<in> set ips))"
proof -
  have "tried \<noteq> []" using assms(2) by auto
  from Fetch_dials[OF assms(1) this] obtain u e1 where u: "parseTarget nt (er_URL req) = Inr u"
    "hostAllowed (Hostname u) (AllowFor e key)" "allowRate now e key = (True, e1)" "tried = snd (guardedDial nt (nt_dialAddr nt u))" .
  then obtain q where "guardedDial nt (nt_dialAddr nt u) = (q, tried)" by (metis prod.collapse)
  from guardedDial_tried[OF this assms(2)]
  have g: "\<not> fst (blockedIP a)" "\<exists>host port ips. SplitHostPort (nt_dialAddr nt u) = Some (host, port) \<and> nt_lookup nt host = Inr ips \<and> a \<in> set ips"
    by blast+
  have "\<not> inBlockedNet a" using g(1) blocked_canon[OF assms(3)] by blast
  then show ?thesis
    using parseTarget_Inr[OF u(1)] u(2,3) g(2)
    by (intro conjI exI[of _ u]) (simp_all add: hostAllowed_def list_ex_iff patternMatches_labels)
qed

definition sampleNet :: Net where
  "sampleNet =
     \<lparr>nt_parse = (\<lambda>raw. Inr \<lparr>Scheme = ''https'', Host = ''api.example.com:443''\<rparr>), nt_newRequest = (\<lambda>verb url. None),
      nt_dialAddr = (\<lambda>u. ''api.example.com:443''),
      nt_lookup = (\<lambda>h. Inr [[10, 0, 0, 7], [93, 184, 216, 34]]), nt_dial = (\<lambda>a port. None),
      nt_exchange = (\<lambda>a port req. Inr \<lparr>rp_Status = 302, rp_Headers = [], rp_Body = ''moved'', rp_ReadErr = None\<rparr>)\<rparr>"

definition sampleEgress :: HTTPEgress where
  "sampleEgress = (NewHTTPEgress (\<lambda>k. [''*.Example.com '']))\<lparr>MaxResponseBytes := 3, OnRequest := True\<rparr>"

definition sampleRequest :: EgressRequest where
  "sampleRequest = \<lparr>er_Method = '''', er_URL = ''https://api.example.com:443/'', er_Headers = [(''Host'', [''x'']), (''A'', [''b''])],
     er_Body = [], er_Timeout = 0\<rparr>"

lemma sample_fetch:
  "\<exists>e'. Fetch sampleNet 5 sampleEgress ''p'' sampleRequest =
     (Inr \<lparr>rs_StatusCode = 302, rs_Headers = [], rs_Body = ''mov''\<rparr>, e', [[93, 184, 216, 34]])"
proof -
  define c where "c = Fetch sampleNet 5 sampleEgress ''p'' sampleRequest"
  have "fst c = Inr \<lparr>rs_StatusCode = 302, rs_Headers = [], rs_Body = ''mov''\<rparr>" unfolding c_def by code_simp
  moreover have "snd (snd c) = [[93, 184, 216, 34]]" unfolding c_def by code_simp
  ultimately show ?thesis unfolding c_def[symmetric] by (metis prod.collapse)
qed

theorem egress_confined_witness: "\<exists>u. nt_parse sampleNet (er_URL sampleRequest) = Inr u \<and> Scheme u \<in> {''http'', ''https''}"
proof -
  obtain e' where "Fetch sampleNet 5 sampleEgress ''p'' sampleRequest =
     (Inr \<lparr>rs_StatusCode = 302, rs_Headers = [], rs_Body = ''mov''\<rparr>, e', [[93, 184, 216, 34]])" using sample_fetch by blast
  from egress_confined[OF this, of "[93, 184, 216, 34]"] show ?thesis by auto
qed

section \<open>The networks, exactly\<close>



section \<open>The rate window\<close>

lemma rateLimit_pos: "0 < rateLimit e"
  by (simp add: rateLimit_def defaultRatePerMinute_def)

text \<open>
  The log of a run of calls: who called, when, and the addresses dialled. \<open>winOk\<close> relates the number \<open>n\<close> of counted calls in
  the minute from \<open>t\<close> to the plugin's current window.
\<close>

type_synonym call = "Net \<times> int \<times> string \<times> EgressRequest"

fun fetches :: "HTTPEgress \<Rightarrow> call list \<Rightarrow> (string \<times> int \<times> ip list) list" where
  "fetches e [] = []"
| "fetches e ((nt, now, key, req) # cs) =
     (case Fetch nt now e key req of (r, e', tried) \<Rightarrow> (key, now, tried) # fetches e' cs)"

definition inMinute :: "string \<Rightarrow> int \<Rightarrow> string \<times> int \<times> ip list \<Rightarrow> bool" where
  "inMinute key t = (\<lambda>(k, now, tried). k = key \<and> t \<le> now \<and> now < t + Minute \<and> tried \<noteq> [])"

definition winRel :: "int \<Rightarrow> int \<Rightarrow> int \<Rightarrow> int \<Rightarrow> int \<Rightarrow> int \<Rightarrow> bool" where
  "winRel M L t ws cnt n \<longleftrightarrow> 1 \<le> cnt \<and> cnt \<le> L \<and>
     (if ws + M \<le> t then n \<le> 0 else if ws \<le> t then n \<le> cnt else if ws < t + M then n \<le> L + cnt else n \<le> 2 * L)"

definition winOk :: "string \<Rightarrow> int \<Rightarrow> int \<Rightarrow> HTTPEgress \<Rightarrow> int \<Rightarrow> bool" where
  "winOk key t T e n =
     (case map_of (counts e) key of
        None \<Rightarrow> n \<le> 0
      | Some w \<Rightarrow> windowStart w \<le> T \<and> winRel Minute (rateLimit e) t (windowStart w) (count w) n)"

lemma winRel_fresh:
  assumes "0 < M" "0 < L" "n \<le> 0" "c = 0 \<or> (c = 1 \<and> t \<le> now \<and> now < t + M)"
  shows "winRel M L t now 1 (n + c)"
  using assms unfolding winRel_def by (auto split: if_splits)

lemma winRel_new:
  assumes "0 < M" "winRel M L t ws cnt n" "now - ws \<ge> M" "c = 0 \<or> (c = 1 \<and> t \<le> now \<and> now < t + M)"
  shows "winRel M L t now 1 (n + c)"
proof -
  consider "ws + M \<le> t" | "t < ws + M" "ws \<le> t" | "t < ws" by linarith
  then show ?thesis
  proof cases
    case 1
    then have "0 < L" "n \<le> 0" using assms(2) by (auto simp: winRel_def)
    then show ?thesis using winRel_fresh[OF assms(1) _ _ assms(4)] by blast
  next
    case 2
    then have "t < now" "n \<le> cnt" "cnt \<le> L" "1 \<le> cnt" using assms(2,3) by (simp_all add: winRel_def)
    then show ?thesis using assms(1,4) unfolding winRel_def by auto
  next
    case 3
    then have "t + M < now" "n \<le> 2 * L" "1 \<le> L" using assms(2,3) by (auto simp: winRel_def split: if_splits)
    then show ?thesis using assms(1,4) unfolding winRel_def by auto
  qed
qed

lemma winRel_old:
  assumes "winRel M L t ws cnt n" "ws \<le> now" "now - ws < M" "cnt < L" "c = 0 \<or> (c = 1 \<and> t \<le> now \<and> now < t + M)"
  shows "winRel M L t ws (cnt + 1) (n + c)"
proof -
  consider "ws + M \<le> t" | "t < ws + M" "ws \<le> t" | "t < ws" "ws < t + M" | "t < ws" "t + M \<le> ws" by linarith
  then show ?thesis
  proof cases
    case 1
    then have "c = 0" using assms(3,5) by linarith
    then show ?thesis using 1 assms(1,4) by (simp add: winRel_def)
  next
    case 4
    then have "c = 0" using assms(2,5) by linarith
    then show ?thesis using 4 assms(1,4) by (simp add: winRel_def)
  qed (use assms in \<open>auto simp: winRel_def\<close>)
qed

lemma winOk_bound: "winOk key t T e n \<Longrightarrow> n \<le> 2 * rateLimit e"
  using rateLimit_pos[of e] by (auto simp: winOk_def winRel_def split: option.splits if_splits)

lemma winOk_cong: "counts e' = counts e \<Longrightarrow> rateLimit e' = rateLimit e \<Longrightarrow> winOk key t T e' n = winOk key t T e n"
  by (simp only: winOk_def)

lemma winOk_later: "winOk key t T e n \<Longrightarrow> T \<le> T' \<Longrightarrow> winOk key t T' e n"
  by (auto simp: winOk_def split: option.splits)

lemma allowRate_winOk:
  assumes "winOk key t T e n" "T \<le> now" "allowRate now e k = (True, e1)"
    "c = 0 \<or> (c = 1 \<and> k = key \<and> t \<le> now \<and> now < t + Minute)"
  shows "winOk key t now e1 (n + c)"
proof -
  have M: "0 < Minute" by (simp add: Minute_def second_def)
  have L: "rateLimit e1 = rateLimit e" using allowRate_fields(1)[OF assms(3)] by (simp add: rateLimit_def)
  have c: "c = 0 \<or> (c = 1 \<and> t \<le> now \<and> now < t + Minute)" using assms(4) by blast
  note W = winOk_later[OF assms(1,2)]
  show ?thesis
  proof (cases "k = key")
    case False
    then have "map_of (counts e1) key = map_of (counts e) key"
      using assms(3) by (auto simp: allowRate_def update_conv' split: option.splits if_splits)
    then show ?thesis using W assms(4) False by (auto simp: winOk_def L split: option.splits)
  next
    case True
    show ?thesis
    proof (cases "map_of (counts e) key")
      case None
      then have "map_of (counts e1) key = Some \<lparr>windowStart = now, count = 1\<rparr>"
        using assms(3) True by (auto simp: allowRate_def update_conv')
      then show ?thesis using winRel_fresh[OF M rateLimit_pos _ c] W None by (simp add: winOk_def)
    next
      case (Some w)
      then have w: "windowStart w \<le> now" "winRel Minute (rateLimit e) t (windowStart w) (count w) n" using W by (simp_all add: winOk_def)
      show ?thesis
      proof (cases "now - windowStart w \<ge> Minute")
        case new: True
        then have "map_of (counts e1) key = Some \<lparr>windowStart = now, count = 1\<rparr>"
          using assms(3) Some True by (auto simp: allowRate_def update_conv')
        then show ?thesis using winRel_new[OF M w(2) new c] by (simp add: winOk_def L)
      next
        case old: False
        then have "count w < rateLimit e" "map_of (counts e1) key = Some (w\<lparr>count := count w + 1\<rparr>)"
          using assms(3) Some True by (auto simp: allowRate_def update_conv' split: if_splits)
        then show ?thesis using winRel_old[OF w(2,1) _ _ c] w(1) old by (simp add: winOk_def L)
      qed
    qed
  qed
qed

abbreviation callTimes :: "call list \<Rightarrow> int list" where
  "callTimes cs \<equiv> map (\<lambda>c. fst (snd c)) cs"

lemma fetches_bound:
  "winOk key t T e n \<Longrightarrow> sorted (T # callTimes cs) \<Longrightarrow>
   n + int (length (filter (inMinute key t) (fetches e cs))) \<le> 2 * rateLimit e"
proof (induction cs arbitrary: T e n)
  case Nil
  then show ?case using winOk_bound by simp
next
  case (Cons c cs)
  obtain nt now k req where c: "c = (nt, now, k, req)" by (cases c)
  obtain r e' tried where F: "Fetch nt now e k req = (r, e', tried)" by (cases "Fetch nt now e k req")
  let ?d = "if inMinute key t (k, now, tried) then 1 else 0 :: int"
  have L: "rateLimit e' = rateLimit e" using Fetch_counts(1)[OF F] by (simp add: rateLimit_def)
  have T: "T \<le> now" "sorted (now # callTimes cs)" using Cons.prems(2) c by simp_all
  have "winOk key t now e' (n + ?d)"
    using Fetch_counts(2)[OF F]
  proof (elim disjE exE)
    assume "counts e' = counts e \<and> tried = []"
    then show ?thesis using winOk_later[OF Cons.prems(1) T(1)] L winOk_cong[of e' e] by (simp add: inMinute_def)
  next
    fix e1 assume A: "allowRate now e k = (True, e1) \<and> counts e' = counts e1"
    then have "winOk key t now e1 (n + ?d)" using Cons.prems(1) T(1) by (intro allowRate_winOk) (auto simp: inMinute_def)
    moreover have "rateLimit e1 = rateLimit e" using A allowRate_fields(1)[of now e k True e1] by (simp add: rateLimit_def)
    ultimately show ?thesis using winOk_cong[of e' e1] A L by simp
  qed
  from Cons.IH[OF this T(2)] show ?case using L F c by (auto split: if_splits)
qed

text \<open>C33: No plugin floods the network. In any run of calls by any plugins, at times of a clock that never goes back and with any answers from
  the outside, the calls of one plugin that dialled anything within one minute, whichever minute that is, number at most twice the
  configured limit: the fixed window lets through one full window on each side of its boundary and no more.
\<close>

theorem egress_rate_bounded:
  assumes "sorted (callTimes cs)"
  shows "int (length (filter (inMinute key t) (fetches (e\<lparr>counts := []\<rparr>) cs))) \<le> 2 * rateLimit e"
proof -
  have L: "rateLimit (e\<lparr>counts := []\<rparr>) = rateLimit e" by (simp add: rateLimit_def)
  obtain T where "sorted (T # callTimes cs)" using assms by (cases "callTimes cs") auto
  from fetches_bound[OF _ this, of key t "e\<lparr>counts := []\<rparr>" 0] show ?thesis by (simp add: winOk_def L)
qed

theorem egress_rate_bounded_witness:
  "int (length (filter (inMinute ''p'' 0) (fetches (sampleEgress\<lparr>RatePerMinute := 1, counts := []\<rparr>)
     [(sampleNet, 0, ''p'', sampleRequest), (sampleNet, 7, ''p'', sampleRequest)]))) \<le> 2 * rateLimit (sampleEgress\<lparr>RatePerMinute := 1\<rparr>)"
  using egress_rate_bounded[of "[(sampleNet, 0, ''p'', sampleRequest), (sampleNet, 7, ''p'', sampleRequest)]" "''p''" 0
    "sampleEgress\<lparr>RatePerMinute := 1\<rparr>"] by simp

section \<open>The audit trail and the answer\<close>

text \<open>Every attempt is audited once and truthfully. With the hook set, a call appends exactly one record: the calling plugin, its URL, the error
  the caller got (none on success) and on success the status the caller got; and a successful body is at most the response limit and a prefix
  of what the server sent.
\<close>

theorem fetch_audited:
  assumes "OnRequest e" "Fetch nt now e key req = (r, e', tried)"
  shows "\<exists>a. trail e' = trail e @ [a] \<and> au_Key a = key \<and> au_URL a = er_URL req \<and>
     (case r of Inl err \<Rightarrow> au_Err a = Some err
      | Inr resp \<Rightarrow> au_Err a = None \<and> au_Status a = rs_StatusCode resp \<and> int (length (rs_Body resp)) \<le> responseLimit e)"
proof -
  obtain b e1 where A: "allowRate now e key = (b, e1)" by (cases "allowRate now e key")
  note F = allowRate_fields[OF A]
  have l: "readLimited (responseLimit e1) rp = Inr p \<Longrightarrow> int (length p) \<le> responseLimit e" for rp p
    using F(3) by (auto simp: readLimited_def responseLimit_def defaultMaxResponse_def split: option.splits if_splits)
  show ?thesis
    using assms A F(4,5) l
    by (auto simp: Fetch_def Let_def egressAudit_def split: sum.splits if_splits bool.splits option.splits prod.splits)
qed

theorem fetch_audited_witness:
  "\<exists>(e' :: HTTPEgress) a. trail e' = trail sampleEgress @ [a] \<and> au_Key a = ''p'' \<and> au_Status a = 302"
proof -
  obtain e' where "Fetch sampleNet 5 sampleEgress ''p'' sampleRequest =
     (Inr \<lparr>rs_StatusCode = 302, rs_Headers = [], rs_Body = ''mov''\<rparr>, e', [[93, 184, 216, 34]])" using sample_fetch by blast
  moreover have "OnRequest sampleEgress" by (simp add: sampleEgress_def)
  ultimately obtain a where "trail e' = trail sampleEgress @ [a] \<and> au_Key a = ''p'' \<and> au_Status a = 302"
    using fetch_audited[of sampleEgress sampleNet 5 "''p''" sampleRequest] by auto
  then show ?thesis by blast
qed

section \<open>Requests of different plugins\<close>

definition fetchStep :: "call \<Rightarrow> HTTPEgress \<Rightarrow> HTTPEgress" where
  "fetchStep = (\<lambda>(nt, now, key, req) e. fst (snd (Fetch nt now e key req)))"

text \<open>Another plugin's requests use none of a plugin's rate window, add nothing to its audit trail and leave its allow-list alone.\<close>

definition egressKept :: "string \<Rightarrow> HTTPEgress \<Rightarrow> HTTPEgress \<Rightarrow> bool" where
  "egressKept k e e' \<longleftrightarrow> map_of (counts e') k = map_of (counts e) k \<and> AllowFor e' = AllowFor e \<and> RatePerMinute e' = RatePerMinute e \<and>
     filter (\<lambda>a. au_Key a = k) (trail e') = filter (\<lambda>a. au_Key a = k) (trail e)"

definition fetchForeign :: "string \<Rightarrow> call \<Rightarrow> bool" where
  "fetchForeign k = (\<lambda>(nt, now, key, req). key \<noteq> k)"

lemma egressAudit_kept: "key \<noteq> k \<Longrightarrow> egressKept k e e' \<Longrightarrow> egressKept k e (egressAudit e' key verb url status err)"
  by (simp add: egressKept_def egressAudit_def)

lemma allowRate_kept: "key \<noteq> k \<Longrightarrow> egressKept k e (snd (allowRate now e key))"
  by (simp add: egressKept_def allowRate_def update_conv' split: option.split)

lemma Fetch_kept:
  assumes "key \<noteq> k"
  shows "egressKept k e (fst (snd (Fetch nt now e key req)))"
proof -
  have r: "egressKept k e e" by (simp add: egressKept_def)
  have a: "allowRate now e key = (b, e1) \<Longrightarrow> egressKept k e e1" for b e1 using allowRate_kept[OF assms, of e now] by simp
  show ?thesis unfolding Fetch_def Let_def
    using a by (auto simp: egressAudit_kept[OF assms] r split: sum.split prod.split bool.split option.split)
qed

interpretation fetchTenants: tenant_backend "\<lambda>e. True" fetchForeign egressKept fetchStep
  by unfold_locales (auto simp: fetchForeign_def fetchStep_def Fetch_kept[unfolded egressKept_def] egressKept_def)

end
