(* ===== verification/Auth.thy ===== *)
theory Auth
  imports Prelude
begin

text \<open>
  Users and sessions: \<^verbatim>\<open>src/core/auth/auth.go\<close> and \<^verbatim>\<open>src/core/auth/users.go\<close> over the table
  \<^verbatim>\<open>system_users\<close>, and the HTTP handlers of \<^verbatim>\<open>src/core/gateway/auth_handler.go\<close> and
  \<^verbatim>\<open>users_handler.go\<close>. What a call draws from outside is the record \<open>AEnv\<close>: the clock, the token drawn, which statements
  the server fails, and bcrypt, whose two functions are parameters. A request body is what the JSON decoder made of it, or nothing. The in-memory
  sessions and the table are one state, \<open>AuthStore\<close>. Times are nanoseconds.
\<close>

section \<open>The table\<close>

record UserRow =
  us_id :: int
  us_name :: string
  us_hash :: string
  us_role :: string
  us_created :: "int option"

record Users =
  ut_rows :: "UserRow list"
  ut_next :: int

datatype uquery = GetUserByUsername | CountUsers | CreateUserQ | ListUsersQ | GetUserByID | UpdateUserPassword | UpdateUserRole
  | DeleteUserQ | CountAdmins

record AEnv =
  ae_now :: int
  ae_token :: "string option"
  ae_fault :: "uquery \<Rightarrow> string option"
  ae_hash :: "string \<Rightarrow> string option"
  ae_compare :: "string \<Rightarrow> string \<Rightarrow> bool"

datatype auth_err = ErrInvalidCredentials | ErrLastAdmin | ErrUserMissing | FieldRequired string | CountFailed string | AuthDb string
  | HashFailed | TokenFailed

definition dbRead :: "AEnv \<Rightarrow> uquery \<Rightarrow> 'a \<Rightarrow> auth_err + 'a" where
  "dbRead env q x = (case ae_fault env q of Some m \<Rightarrow> Inl (AuthDb m) | None \<Rightarrow> Inr x)"

definition rowById :: "int \<Rightarrow> Users \<Rightarrow> UserRow option" where
  "rowById i t = find (\<lambda>r. us_id r = i) (ut_rows t)"

definition rowByName :: "string \<Rightarrow> Users \<Rightarrow> UserRow option" where
  "rowByName n t = find (\<lambda>r. us_name r = n) (ut_rows t)"

definition oneRow :: "UserRow option \<Rightarrow> auth_err + UserRow" where
  "oneRow r = (case r of None \<Rightarrow> Inl (AuthDb ''no rows in result set'') | Some x \<Rightarrow> Inr x)"

definition isAdmin :: "UserRow \<Rightarrow> bool" where
  "isAdmin r = (us_role r = ''admin'')"

definition countAdmins :: "Users \<Rightarrow> nat" where
  "countAdmins t = length (filter isAdmin (ut_rows t))"

text \<open>
  The insert draws an id from the sequence whether or not the row goes in; it fails on a name that exists and on a name or role longer than its
  column. The updates touch the rows with the id, none if there is none.
\<close>

definition insertUser :: "AEnv \<Rightarrow> string \<Rightarrow> string \<Rightarrow> string \<Rightarrow> Users \<Rightarrow> (auth_err + unit) \<times> Users" where
  "insertUser env name hash role t =
     (case ae_fault env CreateUserQ of
        Some m \<Rightarrow> (Inl (AuthDb m), t)
      | None \<Rightarrow>
          if 50 < length name \<or> 50 < length role \<or> 255 < length hash then (Inl (AuthDb ''value too long''), t)
          else if rowByName name t \<noteq> None then (Inl (AuthDb ''duplicate key''), t\<lparr>ut_next := ut_next t + 1\<rparr>)
          else (Inr (), \<lparr>ut_rows = ut_rows t @ [\<lparr>us_id = ut_next t, us_name = name, us_hash = hash, us_role = role,
                            us_created = Some (ae_now env)\<rparr>],
                         ut_next = ut_next t + 1\<rparr>))"

definition updateRows :: "(UserRow \<Rightarrow> UserRow) \<Rightarrow> int \<Rightarrow> Users \<Rightarrow> Users" where
  "updateRows f i t = t\<lparr>ut_rows := map (\<lambda>r. if us_id r = i then f r else r) (ut_rows t)\<rparr>"

definition updateRole :: "AEnv \<Rightarrow> int \<Rightarrow> string \<Rightarrow> Users \<Rightarrow> (auth_err + unit) \<times> Users" where
  "updateRole env i role t =
     (case ae_fault env UpdateUserRole of
        Some m \<Rightarrow> (Inl (AuthDb m), t)
      | None \<Rightarrow> if 50 < length role \<and> rowById i t \<noteq> None then (Inl (AuthDb ''value too long''), t)
                else (Inr (), updateRows (\<lambda>r. r\<lparr>us_role := role\<rparr>) i t))"

definition updatePassword :: "AEnv \<Rightarrow> int \<Rightarrow> string \<Rightarrow> Users \<Rightarrow> (auth_err + unit) \<times> Users" where
  "updatePassword env i hash t =
     (case ae_fault env UpdateUserPassword of
        Some m \<Rightarrow> (Inl (AuthDb m), t)
      | None \<Rightarrow> if 255 < length hash \<and> rowById i t \<noteq> None then (Inl (AuthDb ''value too long''), t)
                else (Inr (), updateRows (\<lambda>r. r\<lparr>us_hash := hash\<rparr>) i t))"

definition deleteRow :: "AEnv \<Rightarrow> int \<Rightarrow> Users \<Rightarrow> (auth_err + unit) \<times> Users" where
  "deleteRow env i t =
     (case ae_fault env DeleteUserQ of
        Some m \<Rightarrow> (Inl (AuthDb m), t)
      | None \<Rightarrow> (Inr (), t\<lparr>ut_rows := filter (\<lambda>r. us_id r \<noteq> i) (ut_rows t)\<rparr>))"

section \<open>The store\<close>

record User =
  ur_ID :: int
  ur_Username :: string
  ur_Role :: string

record UserRecord =
  rec_ID :: int
  rec_Username :: string
  rec_Role :: string
  rec_CreatedAt :: "int option"

record session =
  se_user :: User
  se_expiresAt :: int

record AuthStore =
  as_users :: Users
  as_ttl :: int
  as_sessions :: "(string, session) gomap"

definition Hour :: int where "Hour = 3600 * 1000000000"

definition NewStore :: "Users \<Rightarrow> AuthStore" where
  "NewStore t = \<lparr>as_users = t, as_ttl = 24 * Hour, as_sessions = []\<rparr>"

definition onUsers :: "(Users \<Rightarrow> (auth_err + 'a) \<times> Users) \<Rightarrow> AuthStore \<Rightarrow> (auth_err + 'a) \<times> AuthStore" where
  "onUsers f s = (case f (as_users s) of (r, t) \<Rightarrow> (r, s\<lparr>as_users := t\<rparr>))"

definition Login :: "AEnv \<Rightarrow> string \<Rightarrow> string \<Rightarrow> AuthStore \<Rightarrow> (auth_err + string \<times> User) \<times> AuthStore" where
  "Login env username password s =
     (case bindRes (dbRead env GetUserByUsername (rowByName username (as_users s))) oneRow of
        Inl _ \<Rightarrow> (Inl ErrInvalidCredentials, s)
      | Inr row \<Rightarrow>
          if \<not> ae_compare env (us_hash row) password then (Inl ErrInvalidCredentials, s)
          else let user = \<lparr>ur_ID = us_id row, ur_Username = us_name row, ur_Role = us_role row\<rparr>
               in case ae_token env of
                    None \<Rightarrow> (Inl TokenFailed, s)
                  | Some token \<Rightarrow>
                      (Inr (token, user),
                       s\<lparr>as_sessions := AList.update token \<lparr>se_user = user, se_expiresAt = ae_now env + as_ttl s\<rparr> (as_sessions s)\<rparr>))"

definition Resolve :: "int \<Rightarrow> string \<Rightarrow> AuthStore \<Rightarrow> User option \<times> AuthStore" where
  "Resolve now token s =
     (if token = '''' then (None, s)
      else case map_of (as_sessions s) token of
        None \<Rightarrow> (None, s)
      | Some sess \<Rightarrow>
          if now > se_expiresAt sess then (None, s\<lparr>as_sessions := AList.delete token (as_sessions s)\<rparr>)
          else (Some (se_user sess), s))"

definition Logout :: "string \<Rightarrow> AuthStore \<Rightarrow> AuthStore" where
  "Logout token s = s\<lparr>as_sessions := AList.delete token (as_sessions s)\<rparr>"

definition SeedDefaultAdmin :: "AEnv \<Rightarrow> string \<Rightarrow> string \<Rightarrow> AuthStore \<Rightarrow> (auth_err + bool) \<times> AuthStore" where
  "SeedDefaultAdmin env username password s =
     (case dbRead env CountUsers (length (ut_rows (as_users s))) of
        Inl e \<Rightarrow> (Inl e, s)
      | Inr n \<Rightarrow>
          if n > 0 then (Inr False, s)
          else (case ae_hash env password of
            None \<Rightarrow> (Inl HashFailed, s)
          | Some hash \<Rightarrow>
              (case onUsers (insertUser env username hash ''admin'') s of
                 (Inl e, s1) \<Rightarrow> (Inl e, s1)
               | (Inr _, s1) \<Rightarrow> (Inr True, s1))))"

definition ListUsers :: "AEnv \<Rightarrow> AuthStore \<Rightarrow> auth_err + UserRecord list" where
  "ListUsers env s =
     bindRes (dbRead env ListUsersQ (sort_key us_id (ut_rows (as_users s))))
       (\<lambda>rows. Inr (map (\<lambda>r. \<lparr>rec_ID = us_id r, rec_Username = us_name r, rec_Role = us_role r, rec_CreatedAt = us_created r\<rparr>) rows))"

definition CreateUser :: "AEnv \<Rightarrow> string \<Rightarrow> string \<Rightarrow> string \<Rightarrow> AuthStore \<Rightarrow> (auth_err + unit) \<times> AuthStore" where
  "CreateUser env username password role s =
     (if username = '''' \<or> password = '''' then (Inl (FieldRequired ''username and password''), s)
      else let role1 = (if role = '''' then ''user'' else role)
           in case ae_hash env password of
                None \<Rightarrow> (Inl HashFailed, s)
              | Some hash \<Rightarrow> onUsers (insertUser env username hash role1) s)"

definition SetPassword :: "AEnv \<Rightarrow> int \<Rightarrow> string \<Rightarrow> AuthStore \<Rightarrow> (auth_err + unit) \<times> AuthStore" where
  "SetPassword env i password s =
     (if password = '''' then (Inl (FieldRequired ''password''), s)
      else case ae_hash env password of
        None \<Rightarrow> (Inl HashFailed, s)
      | Some hash \<Rightarrow> onUsers (updatePassword env i hash) s)"

definition ensureNotLastAdmin :: "AEnv \<Rightarrow> int \<Rightarrow> Users \<Rightarrow> auth_err + unit" where
  "ensureNotLastAdmin env i t =
     (case bindRes (dbRead env GetUserByID (rowById i t)) oneRow of
        Inl _ \<Rightarrow> Inl ErrUserMissing
      | Inr row \<Rightarrow>
          if us_role row \<noteq> ''admin'' then Inr ()
          else (case ae_fault env CountAdmins of
            Some m \<Rightarrow> Inl (CountFailed m)
          | None \<Rightarrow> if countAdmins t \<le> 1 then Inl ErrLastAdmin else Inr ()))"

definition SetRole :: "AEnv \<Rightarrow> int \<Rightarrow> string \<Rightarrow> AuthStore \<Rightarrow> (auth_err + unit) \<times> AuthStore" where
  "SetRole env i role s =
     (if role = '''' then (Inl (FieldRequired ''role''), s)
      else case (if role \<noteq> ''admin'' then ensureNotLastAdmin env i (as_users s) else Inr ()) of
        Inl e \<Rightarrow> (Inl e, s)
      | Inr _ \<Rightarrow> onUsers (updateRole env i role) s)"

definition DeleteUser :: "AEnv \<Rightarrow> int \<Rightarrow> AuthStore \<Rightarrow> (auth_err + unit) \<times> AuthStore" where
  "DeleteUser env i s =
     (case ensureNotLastAdmin env i (as_users s) of
        Inl e \<Rightarrow> (Inl e, s)
      | Inr _ \<Rightarrow> onUsers (deleteRow env i) s)"

definition ChangePassword :: "AEnv \<Rightarrow> int \<Rightarrow> string \<Rightarrow> string \<Rightarrow> AuthStore \<Rightarrow> (auth_err + unit) \<times> AuthStore" where
  "ChangePassword env i old new s =
     (case bindRes (dbRead env GetUserByID (rowById i (as_users s))) oneRow of
        Inl _ \<Rightarrow> (Inl ErrUserMissing, s)
      | Inr row \<Rightarrow>
          if \<not> ae_compare env (us_hash row) old then (Inl ErrInvalidCredentials, s)
          else SetPassword env i new s)"

section \<open>The handlers\<close>

text \<open>A request: method, path, the Authorization header (empty when absent), the session cookie, and the decoded body.\<close>

datatype body = BLogin string string | BCreate string string string | BUpdate "string option" "string option" | BChange string string

record HReq =
  hq_Method :: string
  hq_Path :: string
  hq_Authorization :: string
  hq_Cookie :: "string option"
  hq_Body :: "body option"

datatype payload = PError string | PAuthErr auth_err | PStatus string | PUsers "UserRecord list" | PUser User | PToken string User | PNone

type_synonym resp = "int \<times> payload"

definition BearerToken :: "HReq \<Rightarrow> string" where
  "BearerToken r = (let h = hq_Authorization r in
     if hasPrefix h ''Bearer '' then trimSpace (trimPrefix h ''Bearer '') else '''')"

definition SessionToken :: "HReq \<Rightarrow> string" where
  "SessionToken r = (let t = BearerToken r in
     if t \<noteq> '''' then t else case hq_Cookie r of Some c \<Rightarrow> c | None \<Rightarrow> '''')"

definition handleLogin :: "AEnv \<Rightarrow> HReq \<Rightarrow> AuthStore \<Rightarrow> resp \<times> AuthStore" where
  "handleLogin env r s =
     (if hq_Method r \<noteq> ''POST'' then ((405, PError ''method not allowed''), s)
      else case hq_Body r of
        Some (BLogin u p) \<Rightarrow>
          (case Login env u p s of
             (Inl _, s1) \<Rightarrow> ((401, PError ''invalid username or password''), s1)
           | (Inr (token, user), s1) \<Rightarrow> ((200, PToken token user), s1))
      | _ \<Rightarrow> ((400, PError ''invalid request body''), s))"

definition handleMe :: "int \<Rightarrow> HReq \<Rightarrow> AuthStore \<Rightarrow> resp \<times> AuthStore" where
  "handleMe now r s =
     (case Resolve now (SessionToken r) s of
        (None, s1) \<Rightarrow> ((401, PError ''unauthenticated''), s1)
      | (Some user, s1) \<Rightarrow> ((200, PUser user), s1))"

definition handleLogout :: "HReq \<Rightarrow> AuthStore \<Rightarrow> resp \<times> AuthStore" where
  "handleLogout r s = ((204, PNone), Logout (SessionToken r) s)"

definition userIDFromPath :: "string \<Rightarrow> int option" where
  "userIDFromPath path = map_option wrap32 (atoi (beforeByte (CHR ''/'') (trimPrefix path ''/api/system/users/'')))"

definition statusForUserErr :: "auth_err \<Rightarrow> int" where
  "statusForUserErr e = (case e of ErrLastAdmin \<Rightarrow> 409 | ErrUserMissing \<Rightarrow> 404 | _ \<Rightarrow> 400)"

definition handleList :: "AEnv \<Rightarrow> AuthStore \<Rightarrow> resp \<times> AuthStore" where
  "handleList env s = (case ListUsers env s of Inl e \<Rightarrow> ((500, PAuthErr e), s) | Inr us \<Rightarrow> ((200, PUsers us), s))"

definition handleCreate :: "AEnv \<Rightarrow> HReq \<Rightarrow> AuthStore \<Rightarrow> resp \<times> AuthStore" where
  "handleCreate env r s =
     (case hq_Body r of
        Some (BCreate u p role) \<Rightarrow>
          (case CreateUser env u p role s of
             (Inl e, s1) \<Rightarrow> ((400, PAuthErr e), s1)
           | (Inr _, s1) \<Rightarrow> ((201, PStatus ''created''), s1))
      | _ \<Rightarrow> ((400, PError ''invalid request body''), s))"

definition updatePasswordStep :: "AEnv \<Rightarrow> int \<Rightarrow> string option \<Rightarrow> AuthStore \<Rightarrow> resp \<times> AuthStore" where
  "updatePasswordStep env i pw s =
     (case pw of
        None \<Rightarrow> ((200, PStatus ''updated''), s)
      | Some p \<Rightarrow>
          (case SetPassword env i p s of
             (Inl e, s1) \<Rightarrow> ((400, PAuthErr e), s1)
           | (Inr _, s1) \<Rightarrow> ((200, PStatus ''updated''), s1)))"

definition handleUpdate :: "AEnv \<Rightarrow> HReq \<Rightarrow> User \<Rightarrow> AuthStore \<Rightarrow> resp \<times> AuthStore" where
  "handleUpdate env r caller s =
     (case userIDFromPath (hq_Path r) of
        None \<Rightarrow> ((400, PError ''invalid user id''), s)
      | Some i \<Rightarrow>
          (case hq_Body r of
             Some (BUpdate role pw) \<Rightarrow>
               (case role of
                  None \<Rightarrow> updatePasswordStep env i pw s
                | Some rl \<Rightarrow>
                    if i = ur_ID caller \<and> rl \<noteq> ''admin'' then ((400, PError ''cannot change your own role''), s)
                    else (case SetRole env i rl s of
                      (Inl e, s1) \<Rightarrow> ((statusForUserErr e, PAuthErr e), s1)
                    | (Inr _, s1) \<Rightarrow> updatePasswordStep env i pw s1))
           | _ \<Rightarrow> ((400, PError ''invalid request body''), s)))"

definition handleRemove :: "AEnv \<Rightarrow> HReq \<Rightarrow> User \<Rightarrow> AuthStore \<Rightarrow> resp \<times> AuthStore" where
  "handleRemove env r caller s =
     (case userIDFromPath (hq_Path r) of
        None \<Rightarrow> ((400, PError ''invalid user id''), s)
      | Some i \<Rightarrow>
          if i = ur_ID caller then ((400, PError ''cannot delete your own account''), s)
          else (case DeleteUser env i s of
            (Inl e, s1) \<Rightarrow> ((statusForUserErr e, PAuthErr e), s1)
          | (Inr _, s1) \<Rightarrow> ((200, PStatus ''deleted''), s1)))"

definition changeOwnPassword :: "AEnv \<Rightarrow> HReq \<Rightarrow> AuthStore \<Rightarrow> resp \<times> AuthStore" where
  "changeOwnPassword env r s =
     (case Resolve (ae_now env) (SessionToken r) s of
        (None, s1) \<Rightarrow> ((401, PError ''unauthenticated''), s1)
      | (Some caller, s1) \<Rightarrow>
          (case hq_Body r of
             Some (BChange old new) \<Rightarrow>
               (case ChangePassword env (ur_ID caller) old new s1 of
                  (Inl e, s2) \<Rightarrow> ((400, PAuthErr e), s2)
                | (Inr _, s2) \<Rightarrow> ((200, PStatus ''updated''), s2))
           | _ \<Rightarrow> ((400, PError ''invalid request body''), s1)))"

definition Serve :: "AEnv \<Rightarrow> HReq \<Rightarrow> AuthStore \<Rightarrow> resp \<times> AuthStore" where
  "Serve env r s =
     (let path = hq_Path r in
      if path = ''/api/system/users/me/password'' then changeOwnPassword env r s
      else case Resolve (ae_now env) (SessionToken r) s of
        (None, s1) \<Rightarrow> ((403, PError ''admin privileges required''), s1)
      | (Some caller, s1) \<Rightarrow>
          if ur_Role caller \<noteq> ''admin'' then ((403, PError ''admin privileges required''), s1)
          else if path = ''/api/system/users'' \<and> hq_Method r = ''GET'' then handleList env s1
          else if path = ''/api/system/users'' \<and> hq_Method r = ''POST'' then handleCreate env r s1
          else if hasPrefix path ''/api/system/users/'' \<and> hq_Method r = ''PUT'' then handleUpdate env r caller s1
          else if hasPrefix path ''/api/system/users/'' \<and> hq_Method r = ''DELETE'' then handleRemove env r caller s1
          else ((404, PError ''not found''), s1))"

section \<open>The table stays well formed and keeps an administrator\<close>

definition usersInv :: "Users \<Rightarrow> bool" where
  "usersInv t \<longleftrightarrow> distinct (map us_id (ut_rows t)) \<and> distinct (map us_name (ut_rows t)) \<and> (\<forall>r \<in> set (ut_rows t). us_id r < ut_next t)"

definition adminsInv :: "Users \<Rightarrow> bool" where
  "adminsInv t \<longleftrightarrow> usersInv t \<and> 0 < countAdmins t"

lemma countAdmins_pos: "0 < countAdmins t \<longleftrightarrow> (\<exists>r \<in> set (ut_rows t). isAdmin r)"
  by (auto simp: countAdmins_def filter_empty_conv)

lemma rowById_Some: "rowById i t = Some r \<Longrightarrow> r \<in> set (ut_rows t) \<and> us_id r = i"
  by (auto simp: rowById_def find_Some_iff in_set_conv_nth)

lemma same_id:
  "usersInv t \<Longrightarrow> r \<in> set (ut_rows t) \<Longrightarrow> x \<in> set (ut_rows t) \<Longrightarrow> us_id r = us_id x \<Longrightarrow> r = x"
  by (auto simp: usersInv_def distinct_map dest: inj_onD)

text \<open>What a passed check means: some administrator has another id.\<close>

lemma two_admins:
  assumes "usersInv t" "1 < countAdmins t"
  shows "\<exists>x \<in> set (ut_rows t). isAdmin x \<and> us_id x \<noteq> i"
proof (rule ccontr)
  assume A: "\<not> ?thesis"
  let ?f = "filter isAdmin (ut_rows t)"
  have "distinct (map us_id ?f)" using assms(1) by (simp add: usersInv_def distinct_map_filter)
  moreover have "set (map us_id ?f) \<subseteq> {i}" using A by auto
  ultimately have "length (map us_id ?f) \<le> 1" by (metis card_mono distinct_card finite.emptyI finite.insertI is_singletonI is_singleton_altdef)
  with assms(2) show False by (simp add: countAdmins_def)
qed

lemma ensureNotLastAdmin_other:
  assumes "adminsInv t" "ensureNotLastAdmin env i t = Inr ()"
  shows "\<exists>x \<in> set (ut_rows t). isAdmin x \<and> us_id x \<noteq> i"
proof -
  have inv: "usersInv t" and pos: "0 < countAdmins t" using assms(1) by (auto simp: adminsInv_def)
  obtain row where row: "rowById i t = Some row"
    using assms(2) by (auto simp: ensureNotLastAdmin_def bindRes_def dbRead_def oneRow_def split: option.splits sum.splits)
  show ?thesis
  proof (cases "isAdmin row")
    case True
    then have "1 < countAdmins t"
      using assms(2) row by (auto simp: ensureNotLastAdmin_def bindRes_def dbRead_def oneRow_def isAdmin_def split: option.splits if_splits)
    then show ?thesis by (rule two_admins[OF inv])
  next
    case False
    obtain x where x: "x \<in> set (ut_rows t)" "isAdmin x" using pos by (auto simp: countAdmins_pos)
    then have "us_id x \<noteq> i" using same_id[OF inv x(1)] rowById_Some[OF row] False by auto
    then show ?thesis using x by blast
  qed
qed

lemma updateRows_inv: "usersInv t \<Longrightarrow> (\<And>r. us_id (f r) = us_id r \<and> us_name (f r) = us_name r) \<Longrightarrow> usersInv (updateRows f i t)"
  by (auto simp: usersInv_def updateRows_def comp_def if_distrib[of us_id] if_distrib[of us_name] cong: if_cong)

lemma updateRows_keeps: "x \<in> set (ut_rows t) \<Longrightarrow> us_id x \<noteq> i \<Longrightarrow> x \<in> set (ut_rows (updateRows f i t))"
  by (force simp: updateRows_def)

lemma updateRole_admins:
  assumes "adminsInv t" "updateRole env i role t = (r, t')" "role = ''admin'' \<or> ensureNotLastAdmin env i t = Inr ()"
  shows "adminsInv t'"
proof (cases "t' = t")
  case False
  then have t': "t' = updateRows (\<lambda>r. r\<lparr>us_role := role\<rparr>) i t"
    using assms(2) by (auto simp: updateRole_def split: option.splits if_splits)
  obtain x where x: "x \<in> set (ut_rows t)" "isAdmin x" "us_id x \<noteq> i \<or> role = ''admin''"
    using assms(1,3) ensureNotLastAdmin_other[OF assms(1)] by (auto simp: adminsInv_def countAdmins_pos)
  have "(if us_id x = i then x\<lparr>us_role := role\<rparr> else x) \<in> set (ut_rows t')" using x(1) by (force simp: t' updateRows_def)
  moreover have "isAdmin (if us_id x = i then x\<lparr>us_role := role\<rparr> else x)" using x(2,3) by (auto simp: isAdmin_def)
  moreover have "usersInv t'" using assms(1) updateRows_inv[of t] by (simp add: t' adminsInv_def)
  ultimately show ?thesis unfolding adminsInv_def countAdmins_pos by blast
qed (use assms in simp)

lemma updatePassword_admins:
  assumes "adminsInv t" "updatePassword env i h t = (r, t')"
  shows "adminsInv t'"
proof (cases "t' = t")
  case False
  then have t': "t' = updateRows (\<lambda>r. r\<lparr>us_hash := h\<rparr>) i t"
    using assms(2) by (auto simp: updatePassword_def split: option.splits if_splits)
  obtain x where x: "x \<in> set (ut_rows t)" "isAdmin x" using assms(1) by (auto simp: adminsInv_def countAdmins_pos)
  have "(if us_id x = i then x\<lparr>us_hash := h\<rparr> else x) \<in> set (ut_rows t')" using x(1) by (force simp: t' updateRows_def)
  moreover have "isAdmin (if us_id x = i then x\<lparr>us_hash := h\<rparr> else x)" using x(2) by (simp add: isAdmin_def)
  moreover have "usersInv t'" using assms(1) updateRows_inv[of t] by (simp add: t' adminsInv_def)
  ultimately show ?thesis unfolding adminsInv_def countAdmins_pos by blast
qed (use assms in simp)

lemma deleteRow_admins:
  assumes "adminsInv t" "deleteRow env i t = (r, t')" "ensureNotLastAdmin env i t = Inr ()"
  shows "adminsInv t'"
proof (cases "t' = t")
  case False
  then have t': "t' = t\<lparr>ut_rows := filter (\<lambda>r. us_id r \<noteq> i) (ut_rows t)\<rparr>"
    using assms(2) by (auto simp: deleteRow_def split: option.splits)
  have "usersInv t'" using assms(1) by (auto simp: adminsInv_def usersInv_def t' distinct_map_filter)
  moreover obtain x where "x \<in> set (ut_rows t)" "isAdmin x" "us_id x \<noteq> i" using ensureNotLastAdmin_other[OF assms(1,3)] by blast
  ultimately show ?thesis by (auto simp: adminsInv_def countAdmins_pos t')
qed (use assms in simp)

lemma insertUser_admins:
  assumes "adminsInv t" "insertUser env n h role t = (r, t')"
  shows "adminsInv t'"
proof -
  have "usersInv t'"
    using assms
    by (auto simp: adminsInv_def usersInv_def insertUser_def rowByName_def find_None_iff split: option.splits if_splits)
      (meson less_imp_le less_irrefl)+
  moreover have "set (ut_rows t) \<subseteq> set (ut_rows t')" using assms(2) by (auto simp: insertUser_def split: option.splits if_splits)
  ultimately show ?thesis using assms(1) by (auto simp: adminsInv_def countAdmins_pos)
qed

section \<open>Runs of requests\<close>

text \<open>What reaches the store: the seeding at start-up and the handlers, in any order and each with its own environment.\<close>

datatype aop = OSeed AEnv string string | OLogin AEnv HReq | OMe AEnv HReq | OLogout HReq | OUsers AEnv HReq

fun astep :: "aop \<Rightarrow> AuthStore \<Rightarrow> AuthStore" where
  "astep (OSeed env u p) s = snd (SeedDefaultAdmin env u p s)"
| "astep (OLogin env r) s = snd (handleLogin env r s)"
| "astep (OMe env r) s = snd (handleMe (ae_now env) r s)"
| "astep (OLogout r) s = snd (handleLogout r s)"
| "astep (OUsers env r) s = snd (Serve env r s)"

lemma onUsers_step: "snd (onUsers f s) = s\<lparr>as_users := snd (f (as_users s))\<rparr>"
  by (simp add: onUsers_def split: prod.splits)

lemma Resolve_users [simp]: "as_users (snd (Resolve now tok s)) = as_users s"
  by (auto simp: Resolve_def split: option.splits)

lemma Login_users [simp]: "as_users (snd (Login env u p s)) = as_users s"
  by (auto simp: Login_def Let_def split: option.splits sum.splits)

lemma SetPassword_admins: "adminsInv (as_users s) \<Longrightarrow> adminsInv (as_users (snd (SetPassword env i p s)))"
  using updatePassword_admins[of "as_users s" env i] by (auto simp: SetPassword_def onUsers_step split: option.splits) (metis prod.collapse)

lemma ChangePassword_admins: "adminsInv (as_users s) \<Longrightarrow> adminsInv (as_users (snd (ChangePassword env i a b s)))"
  using SetPassword_admins by (auto simp: ChangePassword_def split: sum.splits)

lemma SetRole_admins: "adminsInv (as_users s) \<Longrightarrow> adminsInv (as_users (snd (SetRole env i role s)))"
  using updateRole_admins[of "as_users s" env i role] by (auto simp: SetRole_def onUsers_step split: sum.splits if_splits) (metis prod.collapse)+

lemma DeleteUser_admins: "adminsInv (as_users s) \<Longrightarrow> adminsInv (as_users (snd (DeleteUser env i s)))"
  using deleteRow_admins[of "as_users s" env i] by (auto simp: DeleteUser_def onUsers_step split: sum.splits) (metis prod.collapse)

lemma CreateUser_admins: "adminsInv (as_users s) \<Longrightarrow> adminsInv (as_users (snd (CreateUser env u p role s)))"
  using insertUser_admins[of "as_users s" env u] by (auto simp: CreateUser_def Let_def onUsers_step split: option.splits) (metis prod.collapse)+

lemma updatePasswordStep_admins: "adminsInv (as_users s) \<Longrightarrow> adminsInv (as_users (snd (updatePasswordStep env i pw s)))"
  using SetPassword_admins by (auto simp: updatePasswordStep_def split: option.splits prod.splits sum.splits) (metis snd_conv)+

lemmas admins_ops = SetPassword_admins ChangePassword_admins SetRole_admins DeleteUser_admins CreateUser_admins updatePasswordStep_admins

text \<open>Each handler leaves the store that its operation leaves.\<close>

lemma handler_state:
  "snd (handleList env s) = s"
  "snd (handleCreate env r s) = (case hq_Body r of Some (BCreate u p role) \<Rightarrow> snd (CreateUser env u p role s) | _ \<Rightarrow> s)"
  "snd (handleRemove env r caller s) = (case userIDFromPath (hq_Path r) of None \<Rightarrow> s
     | Some i \<Rightarrow> if i = ur_ID caller then s else snd (DeleteUser env i s))"
  by (auto simp: handleList_def handleCreate_def handleRemove_def split: sum.splits option.splits body.splits prod.splits)

lemma handleUpdate_admins: "adminsInv (as_users s) \<Longrightarrow> adminsInv (as_users (snd (handleUpdate env r caller s)))"
  using updatePasswordStep_admins[of s] SetRole_admins[of s] updatePasswordStep_admins
  by (auto simp: handleUpdate_def split: option.splits body.splits prod.splits sum.splits) (metis snd_conv)+

lemma changeOwnPassword_state:
  "snd (changeOwnPassword env r s) =
     (case Resolve (ae_now env) (SessionToken r) s of
        (None, s1) \<Rightarrow> s1
      | (Some caller, s1) \<Rightarrow>
          (case hq_Body r of Some (BChange old new) \<Rightarrow> snd (ChangePassword env (ur_ID caller) old new s1) | _ \<Rightarrow> s1))"
  by (auto simp: changeOwnPassword_def split: option.splits body.splits prod.splits sum.splits)

lemma Serve_admins:
  assumes "adminsInv (as_users s)"
  shows "adminsInv (as_users (snd (Serve env r s)))"
proof -
  obtain c s1 where R: "Resolve (ae_now env) (SessionToken r) s = (c, s1)" by (cases "Resolve (ae_now env) (SessionToken r) s")
  have s1: "adminsInv (as_users s1)" using assms Resolve_users[of "ae_now env" "SessionToken r" s] R by simp
  show ?thesis
    using s1 admins_ops[OF s1] handleUpdate_admins[OF s1] R
    by (auto simp: Serve_def Let_def changeOwnPassword_state handler_state split: option.splits body.splits)
qed

lemma session_handler_state:
  "snd (handleLogin env r s) = (if hq_Method r \<noteq> ''POST'' then s
     else case hq_Body r of Some (BLogin u p) \<Rightarrow> snd (Login env u p s) | _ \<Rightarrow> s)"
  "snd (handleMe now r s) = snd (Resolve now (SessionToken r) s)"
  by (auto simp: handleLogin_def handleMe_def split: option.splits body.splits prod.splits sum.splits)

lemma Seed_state:
  "snd (SeedDefaultAdmin env u p s) = s \<or> (\<exists>h. snd (SeedDefaultAdmin env u p s) = snd (onUsers (insertUser env u h ''admin'') s))"
  by (auto simp: SeedDefaultAdmin_def split: sum.splits option.splits prod.splits) (metis snd_conv)+

lemma astep_admins:
  assumes "adminsInv (as_users s)"
  shows "adminsInv (as_users (astep op s))"
proof (cases op)
  case (OSeed env u p)
  have "adminsInv (snd (insertUser env u h ''admin'' (as_users s)))" for h
    by (rule insertUser_admins[OF assms prod.collapse[symmetric]])
  then show ?thesis using assms Seed_state[of env u p s] OSeed by (auto simp: onUsers_step)
qed (use assms Serve_admins in \<open>auto simp: handleLogout_def Logout_def session_handler_state split: option.splits body.splits\<close>)

text \<open>C10: The installation never loses its last administrator to requests handled one after another. From a table with distinct ids and names and at
  least one administrator, any sequence of logins, logouts, user listings, creations, role changes, deletions and password changes, with any failures of
  the database, leaves such a table.
\<close>

theorem admins_survive:
  assumes "adminsInv (as_users s)"
  shows "adminsInv (as_users (fold astep ops s))"
  using assms by (induction ops arbitrary: s) (auto simp: astep_admins)

section \<open>Two requests at once\<close>

text \<open>The guard does not hold between concurrent requests. The check and the statement are separate queries outside a transaction: when exactly two
  administrators are left, the checks of two deletions, one for each, both pass on the same table, and the two deletes then leave no administrator.
\<close>

theorem last_admin_race:
  assumes "usersInv t" "filter isAdmin (ut_rows t) = [a, b]" "\<forall>q. ae_fault env q = None"
  shows "ensureNotLastAdmin env (us_id a) t = Inr () \<and> ensureNotLastAdmin env (us_id b) t = Inr () \<and>
    countAdmins (snd (deleteRow env (us_id b) (snd (deleteRow env (us_id a) t)))) = 0"
proof -
  have mem: "a \<in> set (ut_rows t)" "b \<in> set (ut_rows t)" "isAdmin a" "isAdmin b"
    using arg_cong[OF assms(2), of set] by auto
  have row: "rowById (us_id x) t = Some x" if "x \<in> set (ut_rows t)" for x
  proof -
    have "rowById (us_id x) t \<noteq> None" using that by (auto simp: rowById_def find_None_iff)
    then obtain y where "rowById (us_id x) t = Some y" by blast
    then show ?thesis using rowById_Some[of "us_id x" t y] same_id[OF assms(1), of y x] that by simp
  qed
  have "countAdmins t = 2" by (simp add: countAdmins_def assms(2))
  then have "ensureNotLastAdmin env (us_id x) t = Inr ()" if "x \<in> set (ut_rows t)" for x
    using row[OF that] assms(3) by (simp add: ensureNotLastAdmin_def bindRes_def dbRead_def oneRow_def)
  moreover have "\<not> isAdmin x" if "x \<in> set (ut_rows t)" "us_id x \<noteq> us_id a" "us_id x \<noteq> us_id b" for x
  proof
    assume "isAdmin x"
    then have "x \<in> set (filter isAdmin (ut_rows t))" using that(1) by simp
    then show False using assms(2) that by auto
  qed
  ultimately show ?thesis using mem assms(3) by (auto simp: deleteRow_def countAdmins_def filter_empty_conv)
qed

section \<open>Who may change the table\<close>

lemma Resolve_Some:
  "fst (Resolve now tok s) = Some u \<longleftrightarrow> tok \<noteq> [] \<and> (\<exists>sess. map_of (as_sessions s) tok = Some sess \<and> now \<le> se_expiresAt sess \<and> u = se_user sess)"
  by (auto simp: Resolve_def split: option.splits)

lemma Resolve_Some_same: "fst (Resolve now tok s) = Some u \<Longrightarrow> snd (Resolve now tok s) = s"
  by (auto simp: Resolve_def split: option.splits if_splits)

lemma ChangePassword_users:
  assumes "as_users (snd (ChangePassword env i old new s)) \<noteq> as_users s"
  shows "\<exists>h row. as_users (snd (ChangePassword env i old new s)) = updateRows (\<lambda>x. x\<lparr>us_hash := h\<rparr>) i (as_users s) \<and>
    rowById i (as_users s) = Some row \<and> ae_compare env (us_hash row) old"
proof -
  obtain row where row: "rowById i (as_users s) = Some row" "ae_compare env (us_hash row) old"
    and eq: "snd (ChangePassword env i old new s) = snd (SetPassword env i new s)"
    using assms by (auto simp: ChangePassword_def bindRes_def dbRead_def oneRow_def split: option.splits if_splits sum.splits)
  have "\<exists>h. as_users (snd (SetPassword env i new s)) = updateRows (\<lambda>x. x\<lparr>us_hash := h\<rparr>) i (as_users s)"
    using assms unfolding eq by (auto simp: SetPassword_def onUsers_step updatePassword_def split: option.splits if_splits)
  then show ?thesis using row eq by simp
qed


section \<open>Sessions\<close>

lemma onUsers_sessions [simp]: "as_sessions (snd (onUsers f s)) = as_sessions s" "as_ttl (snd (onUsers f s)) = as_ttl s"
  by (simp_all add: onUsers_step)

lemma user_ops_sessions [simp]:
  "as_sessions (snd (SetPassword env i p s)) = as_sessions s" "as_ttl (snd (SetPassword env i p s)) = as_ttl s"
  "as_sessions (snd (SetRole env i role s)) = as_sessions s" "as_ttl (snd (SetRole env i role s)) = as_ttl s"
  "as_sessions (snd (DeleteUser env i s)) = as_sessions s" "as_ttl (snd (DeleteUser env i s)) = as_ttl s"
  "as_sessions (snd (CreateUser env u p role s)) = as_sessions s" "as_ttl (snd (CreateUser env u p role s)) = as_ttl s"
  by (auto simp: SetPassword_def SetRole_def DeleteUser_def CreateUser_def Let_def split: option.splits sum.splits)

lemma user_ops_sessions2 [simp]:
  "as_sessions (snd (ChangePassword env i a b s)) = as_sessions s" "as_ttl (snd (ChangePassword env i a b s)) = as_ttl s"
  "as_sessions (snd (updatePasswordStep env i pw s)) = as_sessions s" "as_ttl (snd (updatePasswordStep env i pw s)) = as_ttl s"
  by (auto simp: ChangePassword_def updatePasswordStep_def split: option.splits sum.splits prod.splits)
    (metis snd_conv user_ops_sessions(1,2))+

lemma handleUpdate_sessions [simp]:
  "as_sessions (snd (handleUpdate env r c s)) = as_sessions s" "as_ttl (snd (handleUpdate env r c s)) = as_ttl s"
  by (auto simp: handleUpdate_def split: option.splits body.splits prod.splits sum.splits) (metis snd_conv user_ops_sessions(3,4))+

lemma Serve_sessions:
  "as_sessions (snd (Serve env r s)) = as_sessions (snd (Resolve (ae_now env) (SessionToken r) s))"
  "as_ttl (snd (Serve env r s)) = as_ttl (snd (Resolve (ae_now env) (SessionToken r) s))"
  by (auto simp: Serve_def Let_def changeOwnPassword_state handler_state split: option.splits body.splits prod.splits)

text \<open>A login request that succeeded in a state, the token it gave and the session it made.\<close>

definition rowUser :: "UserRow \<Rightarrow> User" where
  "rowUser row = \<lparr>ur_ID = us_id row, ur_Username = us_name row, ur_Role = us_role row\<rparr>"

definition loggedIn :: "AEnv \<Rightarrow> HReq \<Rightarrow> AuthStore \<Rightarrow> string \<Rightarrow> UserRow \<Rightarrow> bool" where
  "loggedIn env r s tok row \<longleftrightarrow> hq_Method r = ''POST'' \<and> ae_token env = Some tok \<and>
     (\<exists>name pw. hq_Body r = Some (BLogin name pw) \<and> rowByName name (as_users s) = Some row \<and> ae_compare env (us_hash row) pw)"

lemma Login_Inr:
  assumes "Login env u p s = (Inr (tok, user), s')"
  shows "\<exists>row. rowByName u (as_users s) = Some row \<and> ae_compare env (us_hash row) p \<and> user = rowUser row \<and> ae_token env = Some tok \<and>
    s' = s\<lparr>as_sessions := AList.update tok \<lparr>se_user = user, se_expiresAt = ae_now env + as_ttl s\<rparr> (as_sessions s)\<rparr>"
  using assms
  by (auto simp: Login_def Let_def bindRes_def dbRead_def oneRow_def rowUser_def split: option.splits if_splits sum.splits)

lemma Login_Inl: "Login env u p s = (Inl e, s') \<Longrightarrow> s' = s"
  by (auto simp: Login_def Let_def split: option.splits if_splits sum.splits)

lemma Resolve_sessions:
  "map_of (as_sessions (snd (Resolve now t s))) tok = Some sess \<Longrightarrow> map_of (as_sessions s) tok = Some sess"
  by (auto simp: Resolve_def delete_conv' split: option.splits if_splits)

lemma Seed_sessions [simp]: "as_sessions (snd (SeedDefaultAdmin env u p s)) = as_sessions s" "as_ttl (snd (SeedDefaultAdmin env u p s)) = as_ttl s"
  using Seed_state[of env u p s] by auto

lemma astep_ttl: "as_ttl (astep op s) = as_ttl s"
proof (cases op)
  case (OLogin env r)
  have "as_ttl (snd (Login env u p s)) = as_ttl s" for u p
    by (auto simp: Login_def Let_def split: option.splits sum.splits)
  then show ?thesis using OLogin by (auto simp: session_handler_state split: option.splits body.splits)
qed (auto simp: session_handler_state Serve_sessions handleLogout_def Logout_def Resolve_def split: option.splits)

lemma astep_session:
  assumes "map_of (as_sessions (astep op s)) tok = Some sess"
  shows "(map_of (as_sessions s) tok = Some sess \<and> (\<forall>rq. op = OLogout rq \<longrightarrow> SessionToken rq \<noteq> tok)) \<or>
    (\<exists>env r row. op = OLogin env r \<and> loggedIn env r s tok row \<and> sess = \<lparr>se_user = rowUser row, se_expiresAt = ae_now env + as_ttl s\<rparr>)"
proof (cases op)
  case (OLogin env r)
  show ?thesis
  proof (cases "map_of (as_sessions s) tok = Some sess")
    case False
    then obtain n p where L: "hq_Method r = ''POST''" "hq_Body r = Some (BLogin n p)" "astep op s = snd (Login env n p s)"
      using assms OLogin by (auto simp: session_handler_state split: if_splits option.splits body.splits)
    obtain q s1 where q: "Login env n p s = (q, s1)" by (cases "Login env n p s")
    have "q \<noteq> Inl e" for e
    proof
      assume "q = Inl e"
      with q have "s1 = s" using Login_Inl by blast
      then show False using q False assms L(3) by simp
    qed
    then obtain t u where t: "Login env n p s = (Inr (t, u), s1)" using q by (cases q) auto
    obtain row where row: "rowByName n (as_users s) = Some row" "ae_compare env (us_hash row) p" "u = rowUser row" "ae_token env = Some t"
      "s1 = s\<lparr>as_sessions := AList.update t \<lparr>se_user = u, se_expiresAt = ae_now env + as_ttl s\<rparr> (as_sessions s)\<rparr>"
      using Login_Inr[OF t] by blast
    have "t = tok" "sess = \<lparr>se_user = u, se_expiresAt = ae_now env + as_ttl s\<rparr>"
      using assms L(3) t row(5) False by (auto simp: update_conv' split: if_splits)
    then show ?thesis using OLogin L row by (auto simp: loggedIn_def)
  qed (use OLogin in simp)
next
  case (OMe env r)
  then show ?thesis using assms Resolve_sessions[of "ae_now env" "SessionToken r" s tok sess] by (simp add: session_handler_state)
next
  case (OUsers env r)
  then show ?thesis using assms Resolve_sessions[of "ae_now env" "SessionToken r" s tok sess] by (simp add: Serve_sessions)
next
  case (OLogout r)
  then show ?thesis using assms by (simp add: handleLogout_def Logout_def delete_conv' split: if_splits)
qed (use assms in simp)

lemma session_origin:
  "map_of (as_sessions (fold astep ops (NewStore t))) tok = Some sess \<Longrightarrow>
   \<exists>pre env r post row. ops = pre @ OLogin env r # post \<and> loggedIn env r (fold astep pre (NewStore t)) tok row \<and>
     sess = \<lparr>se_user = rowUser row, se_expiresAt = ae_now env + 24 * Hour\<rparr> \<and> list_all (\<lambda>x. \<forall>rq. x = OLogout rq \<longrightarrow> SessionToken rq \<noteq> tok) post"
proof (induction ops rule: rev_induct)
  case Nil
  then show ?case by (simp add: NewStore_def)
next
  case (snoc op ops)
  let ?s = "fold astep ops (NewStore t)"
  have ttl: "as_ttl ?s = 24 * Hour" by (induction ops rule: rev_induct) (simp_all add: NewStore_def astep_ttl)
  have "map_of (as_sessions (astep op ?s)) tok = Some sess" using snoc.prems by simp
  from astep_session[OF this] show ?case
  proof (elim disjE)
    assume A: "map_of (as_sessions ?s) tok = Some sess \<and> (\<forall>rq. op = OLogout rq \<longrightarrow> SessionToken rq \<noteq> tok)"
    then obtain pre env r post row where "ops = pre @ OLogin env r # post" "loggedIn env r (fold astep pre (NewStore t)) tok row"
      "sess = \<lparr>se_user = rowUser row, se_expiresAt = ae_now env + 24 * Hour\<rparr>"
      "list_all (\<lambda>x. \<forall>rq. x = OLogout rq \<longrightarrow> SessionToken rq \<noteq> tok) post" using snoc.IH by blast
    then show ?thesis using A
      by (intro exI[of _ pre] exI[of _ env] exI[of _ r] exI[of _ "post @ [op]"] exI[of _ row]) simp
  next
    assume "\<exists>env r row. op = OLogin env r \<and> loggedIn env r ?s tok row \<and> sess = \<lparr>se_user = rowUser row, se_expiresAt = ae_now env + as_ttl ?s\<rparr>"
    then obtain env r row where "op = OLogin env r" "loggedIn env r ?s tok row"
      "sess = \<lparr>se_user = rowUser row, se_expiresAt = ae_now env + as_ttl ?s\<rparr>" by blast
    then show ?thesis using ttl
      by (intro exI[of _ ops] exI[of _ env] exI[of _ r] exI[of _ "[]"] exI[of _ row]) simp
  qed
qed

text \<open>C11: A token resolves only to the user who logged in with it. After any run of requests from a fresh store, if a token resolves at a time, then some
  login request of the run drew that token after its password matched the row of the name it gave, the result is that row's id, name and role as they
  were then, at most 24 hours have passed on the clock, and no later request of the run logged that token out.
\<close>

theorem session_sound:
  assumes "fst (Resolve now tok (fold astep ops (NewStore t))) = Some u"
  shows "\<exists>pre env r post row. ops = pre @ OLogin env r # post \<and> loggedIn env r (fold astep pre (NewStore t)) tok row \<and>
    u = rowUser row \<and> now \<le> ae_now env + 24 * Hour \<and>
    filter (\<lambda>x. \<exists>rq. x = OLogout rq \<and> SessionToken rq = tok) post = []"
proof -
  obtain sess where "map_of (as_sessions (fold astep ops (NewStore t))) tok = Some sess" "now \<le> se_expiresAt sess" "u = se_user sess"
    using assms by (auto simp: Resolve_Some)
  from session_origin[OF this(1)] this(2,3) show ?thesis by (fastforce simp: filter_empty_conv list_all_iff)
qed

text \<open>A session outlives the account it was made for. Deleting a user or changing their role leaves their sessions as they were: until a day after the
  login the token still resolves to the user with the role of the login, which is what the handlers check.
\<close>

theorem stale_session:
  assumes "tok \<noteq> []" "map_of (as_sessions s) tok = Some sess" "now \<le> se_expiresAt sess"
  shows "fst (Resolve now tok (snd (DeleteUser env (ur_ID (se_user sess)) s))) = Some (se_user sess) \<and>
    fst (Resolve now tok (snd (SetRole env (ur_ID (se_user sess)) role s))) = Some (se_user sess)"
  using assms by (simp add: Resolve_Some)

section \<open>Samples\<close>

text \<open>A stand-in for bcrypt that keeps the password in the hash, and a table with two administrators.\<close>

definition sampleAEnv :: "int \<Rightarrow> string \<Rightarrow> AEnv" where
  "sampleAEnv now tok = \<lparr>ae_now = now, ae_token = Some tok, ae_fault = (\<lambda>q. None), ae_hash = (\<lambda>p. Some (''h'' @ p)),
     ae_compare = (\<lambda>h p. h = ''h'' @ p)\<rparr>"

definition sampleUsers :: Users where
  "sampleUsers = \<lparr>ut_rows =
     [\<lparr>us_id = 1, us_name = ''ann'', us_hash = ''hpw'', us_role = ''admin'', us_created = None\<rparr>,
      \<lparr>us_id = 2, us_name = ''bob'', us_hash = ''hpw'', us_role = ''admin'', us_created = None\<rparr>], ut_next = 3\<rparr>"

definition loginReq :: HReq where
  "loginReq = \<lparr>hq_Method = ''POST'', hq_Path = ''/api/system/auth/login'', hq_Authorization = [], hq_Cookie = None, hq_Body = Some (BLogin ''ann'' ''pw'')\<rparr>"

definition deleteReq :: HReq where
  "deleteReq = \<lparr>hq_Method = ''DELETE'', hq_Path = ''/api/system/users/2'', hq_Authorization = ''Bearer k'', hq_Cookie = None, hq_Body = None\<rparr>"

definition sampleRun :: "aop list" where
  "sampleRun = [OLogin (sampleAEnv 5 ''k'') loginReq]"

theorem admins_survive_witness:
  "adminsInv (as_users (fold astep (sampleRun @ [OUsers (sampleAEnv 6 ''x'') deleteReq]) (NewStore sampleUsers)))"
proof (rule admins_survive)
  show "adminsInv (as_users (NewStore sampleUsers))" by code_simp
qed

theorem last_admin_race_witness:
  "ensureNotLastAdmin (sampleAEnv 5 ''k'') 1 sampleUsers = Inr () \<and> ensureNotLastAdmin (sampleAEnv 5 ''k'') 2 sampleUsers = Inr () \<and>
   countAdmins (snd (deleteRow (sampleAEnv 5 ''k'') 2 (snd (deleteRow (sampleAEnv 5 ''k'') 1 sampleUsers)))) = 0"
proof -
  have "usersInv sampleUsers" by code_simp
  moreover have "filter isAdmin (ut_rows sampleUsers) = [ut_rows sampleUsers ! 0, ut_rows sampleUsers ! 1]"
    "us_id (ut_rows sampleUsers ! 0) = 1" "us_id (ut_rows sampleUsers ! 1) = 2"
    by (simp_all add: sampleUsers_def isAdmin_def)
  ultimately show ?thesis using last_admin_race[of sampleUsers _ _ "sampleAEnv 5 ''k''"] by (simp add: sampleAEnv_def)
qed


theorem session_sound_witness:
  "\<exists>env r row. sampleRun = [OLogin env r] \<and> loggedIn env r (NewStore sampleUsers) ''k'' row"
proof -
  have "fst (Resolve 6 ''k'' (fold astep sampleRun (NewStore sampleUsers))) = Some \<lparr>ur_ID = 1, ur_Username = ''ann'', ur_Role = ''admin''\<rparr>"
    by code_simp
  from session_sound[OF this] obtain pre env r post row where "sampleRun = pre @ OLogin env r # post"
    "loggedIn env r (fold astep pre (NewStore sampleUsers)) ''k'' row" by blast
  then show ?thesis by (cases pre) (auto simp: sampleRun_def)
qed

theorem stale_session_witness:
  "fst (Resolve 7 ''k'' (snd (DeleteUser (sampleAEnv 6 ''x'') 1 (fold astep sampleRun (NewStore sampleUsers))))) =
     Some \<lparr>ur_ID = 1, ur_Username = ''ann'', ur_Role = ''admin''\<rparr>"
proof -
  let ?s = "fold astep sampleRun (NewStore sampleUsers)"
  let ?sess = "\<lparr>se_user = \<lparr>ur_ID = 1, ur_Username = ''ann'', ur_Role = ''admin''\<rparr>, se_expiresAt = 5 + 24 * Hour\<rparr>"
  have "map_of (as_sessions ?s) ''k'' = Some ?sess" by code_simp
  moreover have "7 \<le> se_expiresAt ?sess" by (simp add: Hour_def)
  ultimately show ?thesis using stale_session[of "''k''" ?s ?sess 7 "sampleAEnv 6 ''x''"] by simp
qed

end
