(* ===== verification/Files.thy ===== *)
theory Files
  imports Auth
begin

text \<open>
  Files: \<^verbatim>\<open>src/core/hostsvc/files.go\<close>, what a plugin can do with files, and \<^verbatim>\<open>src/core/gateway/file_handler.go\<close>,
  the upload and download endpoints, over the tables \<^verbatim>\<open>system_files\<close> and \<^verbatim>\<open>file_download_tokens\<close> and an object
  store. The clocks, the drawn UUID and random bytes and the failures of the database and the object store come from \<open>FEnv\<close>. The reader of an
  upload is the bytes it yields and whether it then fails.
\<close>

section \<open>Tables and store\<close>

record FileRow =
  fr_ID :: string
  fr_Filename :: string
  fr_Size :: int
  fr_MimeType :: string
  fr_StorageKey :: string
  fr_UploaderID :: string
  fr_OwnerPluginKey :: string

record TokenRow =
  tk_Token :: string
  tk_FileID :: string
  tk_UserID :: string
  tk_ExpiresAt :: int

record FileTables =
  fs_files :: "FileRow list"
  fs_tokens :: "TokenRow list"
  fs_objects :: "(string, bytes) gomap"

datatype fquery = InsertFileQ | GetFileOwnerQ | GetFileQ | DeleteFileQ | InsertTokenQ | VerifyTokenQ

record FEnv =
  fe_now :: int
  fe_dbnow :: int
  fe_uuid :: string
  fe_rand :: "nat list option"
  fe_fault :: "fquery \<Rightarrow> string option"
  fe_putFault :: "string option"
  fe_getFault :: "string option"

datatype file_err = NotConfigured | ErrFileNotFound string | ErrFileTooLarge int | ReadUpload string | StoreObject string
  | RecordFile string | OwnerLookup string | DeleteRecord string | IssueToken string | NoRandom

definition fileById :: "string \<Rightarrow> FileTables \<Rightarrow> FileRow option" where
  "fileById i t = find (\<lambda>r. fr_ID r = i) (fs_files t)"

definition insertFile :: "FEnv \<Rightarrow> FileRow \<Rightarrow> FileTables \<Rightarrow> (string + unit) \<times> FileTables" where
  "insertFile env r t =
     (case fe_fault env InsertFileQ of
        Some m \<Rightarrow> (Inl m, t)
      | None \<Rightarrow>
          if 100 < length (fr_ID r) \<or> 255 < length (fr_Filename r) \<or> 100 < length (fr_MimeType r) \<or> 255 < length (fr_StorageKey r) \<or>
             100 < length (fr_UploaderID r) \<or> 100 < length (fr_OwnerPluginKey r) then (Inl ''value too long'', t)
          else if fileById (fr_ID r) t \<noteq> None then (Inl ''duplicate key'', t)
          else (Inr (), t\<lparr>fs_files := fs_files t @ [r]\<rparr>))"

definition insertToken :: "FEnv \<Rightarrow> TokenRow \<Rightarrow> FileTables \<Rightarrow> (string + unit) \<times> FileTables" where
  "insertToken env r t =
     (case fe_fault env InsertTokenQ of
        Some m \<Rightarrow> (Inl m, t)
      | None \<Rightarrow>
          if 255 < length (tk_Token r) \<or> 100 < length (tk_FileID r) \<or> 100 < length (tk_UserID r) then (Inl ''value too long'', t)
          else if find (\<lambda>x. tk_Token x = tk_Token r) (fs_tokens t) \<noteq> None then (Inl ''duplicate key'', t)
          else (Inr (), t\<lparr>fs_tokens := fs_tokens t @ [r]\<rparr>))"

definition VerifyDownloadToken :: "FEnv \<Rightarrow> string \<Rightarrow> FileTables \<Rightarrow> string + string" where
  "VerifyDownloadToken env token t =
     (case fe_fault env VerifyTokenQ of
        Some m \<Rightarrow> Inl m
      | None \<Rightarrow> (case find (\<lambda>r. tk_Token r = token \<and> tk_ExpiresAt r > fe_dbnow env) (fs_tokens t) of
                   None \<Rightarrow> Inl ''no rows in result set'' | Some r \<Rightarrow> Inr (tk_FileID r)))"

definition GetFile :: "FEnv \<Rightarrow> string \<Rightarrow> FileTables \<Rightarrow> string + FileRow" where
  "GetFile env i t =
     (case fe_fault env GetFileQ of
        Some m \<Rightarrow> Inl m
      | None \<Rightarrow> (case fileById i t of None \<Rightarrow> Inl ''no rows in result set'' | Some r \<Rightarrow> Inr r))"

section \<open>The plugin side\<close>

record Files =
  fi_store :: bool
  fi_q :: bool
  fi_conn :: bool
  fi_MaxUploadBytes :: int
  fi_PublicBaseURL :: string

definition DefaultMaxUploadBytes :: int where "DefaultMaxUploadBytes = 64 * 2 ^ 20"

definition NewFiles :: "bool \<Rightarrow> bool \<Rightarrow> bool \<Rightarrow> Files" where
  "NewFiles conn q store = \<lparr>fi_store = store, fi_q = q, fi_conn = conn, fi_MaxUploadBytes = DefaultMaxUploadBytes, fi_PublicBaseURL = []\<rparr>"

definition maxUpload :: "Files \<Rightarrow> int" where
  "maxUpload f = (if fi_MaxUploadBytes f > 0 then fi_MaxUploadBytes f else DefaultMaxUploadBytes)"

definition PutFile :: "FEnv \<Rightarrow> Files \<Rightarrow> string \<Rightarrow> string \<Rightarrow> string \<Rightarrow> bytes \<times> string option \<Rightarrow> FileTables \<Rightarrow> (file_err + string \<times> int) \<times> FileTables" where
  "PutFile env f pluginKey filename0 mime0 reader t =
     (if \<not> fi_store f \<or> \<not> fi_q f then (Inl NotConfigured, t)
      else let filename = (if filename0 = [] then ''untitled'' else filename0);
               mimeType = (if mime0 = [] then ''application/octet-stream'' else mime0);
               buf = take (nat (maxUpload f + 1)) (fst reader);
               size = int (length buf)
           in case (if int (length (fst reader)) < maxUpload f + 1 then snd reader else None) of
                Some m \<Rightarrow> (Inl (ReadUpload m), t)
              | None \<Rightarrow>
                  if size > maxUpload f then (Inl (ErrFileTooLarge (maxUpload f)), t)
                  else let fileID = fe_uuid env; storageKey = ''plugins/'' @ pluginKey @ ''/'' @ fileID
                       in case fe_putFault env of
                            Some m \<Rightarrow> (Inl (StoreObject m), t)
                          | None \<Rightarrow>
                              (case insertFile env \<lparr>fr_ID = fileID, fr_Filename = filename, fr_Size = size, fr_MimeType = mimeType,
                                       fr_StorageKey = storageKey, fr_UploaderID = [], fr_OwnerPluginKey = pluginKey\<rparr>
                                     (t\<lparr>fs_objects := AList.update storageKey buf (fs_objects t)\<rparr>) of
                                 (Inl m, t1) \<Rightarrow> (Inl (RecordFile m), t1)
                               | (Inr _, t1) \<Rightarrow> (Inr (fileID, size), t1)))"

definition checkOwnership :: "FEnv \<Rightarrow> string \<Rightarrow> string \<Rightarrow> FileTables \<Rightarrow> file_err + unit" where
  "checkOwnership env pluginKey fileID t =
     (case fe_fault env GetFileOwnerQ of
        Some m \<Rightarrow> Inl (OwnerLookup m)
      | None \<Rightarrow>
          (case fileById fileID t of
             None \<Rightarrow> Inl (ErrFileNotFound fileID)
           | Some r \<Rightarrow>
               if fr_OwnerPluginKey r \<noteq> [] \<and> fr_OwnerPluginKey r \<noteq> pluginKey then Inl (ErrFileNotFound fileID) else Inr ()))"

definition DeleteFile :: "FEnv \<Rightarrow> Files \<Rightarrow> string \<Rightarrow> string \<Rightarrow> FileTables \<Rightarrow> (file_err + unit) \<times> FileTables" where
  "DeleteFile env f pluginKey fileID t =
     (if \<not> fi_q f then (Inl NotConfigured, t)
      else case checkOwnership env pluginKey fileID t of
        Inl e \<Rightarrow> (Inl e, t)
      | Inr _ \<Rightarrow>
          (case GetFile env fileID t of
             Inl _ \<Rightarrow> (Inl (ErrFileNotFound fileID), t)
           | Inr _ \<Rightarrow>
               if \<not> fi_conn f then (Inl NotConfigured, t)
               else (case fe_fault env DeleteFileQ of
                       Some m \<Rightarrow> (Inl (DeleteRecord m), t)
                     | None \<Rightarrow> (Inr (), t\<lparr>fs_files := filter (\<lambda>r. fr_ID r \<noteq> fileID) (fs_files t)\<rparr>))))"

definition hexDigit :: "nat \<Rightarrow> char" where
  "hexDigit n = (if n < 10 then char_of (48 + n) else char_of (87 + n))"

definition hexEncode :: "nat list \<Rightarrow> string" where
  "hexEncode bs = concat (map (\<lambda>b. [hexDigit (b div 16), hexDigit (b mod 16)]) bs)"

definition fiveMinutes :: int where "fiveMinutes = 5 * 60 * 1000000000"

definition GenerateDownloadToken ::
  "FEnv \<Rightarrow> Files \<Rightarrow> string \<Rightarrow> string \<Rightarrow> string \<Rightarrow> int \<Rightarrow> FileTables \<Rightarrow> (file_err + string \<times> int) \<times> FileTables" where
  "GenerateDownloadToken env f pluginKey fileID userID expiry0 t =
     (if \<not> fi_q f then (Inl NotConfigured, t)
      else case checkOwnership env pluginKey fileID t of
        Inl e \<Rightarrow> (Inl e, t)
      | Inr _ \<Rightarrow>
          let expiry = (if expiry0 \<le> 0 then fiveMinutes else expiry0)
          in case fe_rand env of
               None \<Rightarrow> (Inl NoRandom, t)
             | Some b \<Rightarrow>
                 let token = hexEncode b; expiresAt = fe_now env + expiry
                 in (case insertToken env \<lparr>tk_Token = token, tk_FileID = fileID, tk_UserID = userID, tk_ExpiresAt = expiresAt\<rparr> t of
                       (Inl m, t1) \<Rightarrow> (Inl (IssueToken m), t1)
                     | (Inr _, t1) \<Rightarrow>
                         (Inr (fi_PublicBaseURL f @ ''/api/system/files/download/'' @ fileID @ ''/'' @ token, expiresAt), t1)))"

record FileMeta =
  fm_FileID :: string
  fm_Filename :: string
  fm_Size :: int
  fm_MimeType :: string
  fm_Found :: bool

definition noMeta :: FileMeta where
  "noMeta = \<lparr>fm_FileID = [], fm_Filename = [], fm_Size = 0, fm_MimeType = [], fm_Found = False\<rparr>"

definition Metadata :: "FEnv \<Rightarrow> Files \<Rightarrow> string \<Rightarrow> string \<Rightarrow> FileTables \<Rightarrow> file_err + FileMeta" where
  "Metadata env f pluginKey fileID t =
     (if \<not> fi_q f then Inl NotConfigured
      else case checkOwnership env pluginKey fileID t of
        Inl _ \<Rightarrow> Inr noMeta
      | Inr _ \<Rightarrow>
          (case GetFile env fileID t of
             Inl _ \<Rightarrow> Inr noMeta
           | Inr r \<Rightarrow> Inr \<lparr>fm_FileID = fr_ID r, fm_Filename = fr_Filename r, fm_Size = fr_Size r, fm_MimeType = fr_MimeType r, fm_Found = True\<rparr>))"

section \<open>The browser side\<close>

text \<open>An upload: method, length of the body, the session (none when no resolver is configured), and the form file with its declared type.\<close>

record Upload =
  up_Method :: string
  up_Length :: int
  up_Form :: "(string \<times> string \<times> bytes) option"

datatype hbody = HText string | HFileID string | HFile string string bytes

definition uploader :: "User option option \<Rightarrow> string" where
  "uploader auth = (case auth of Some (Some u) \<Rightarrow> itoa (ur_ID u) | _ \<Rightarrow> ''anonymous'')"

definition maxUploadBytes :: int where "maxUploadBytes = 100 * 2 ^ 20"

definition UploadHandler :: "FEnv \<Rightarrow> User option option \<Rightarrow> Upload \<Rightarrow> FileTables \<Rightarrow> (int \<times> hbody) \<times> FileTables" where
  "UploadHandler env auth r t =
     (if up_Method r \<noteq> ''POST'' then ((405, HText ''method not allowed''), t)
      else case (if up_Length r > maxUploadBytes then None else up_Form r) of
        None \<Rightarrow> ((400, HText ''invalid file''), t)
      | Some (filename, mime0, content) \<Rightarrow>
          let fileID = fe_uuid env; mime = (if mime0 = [] then ''application/octet-stream'' else mime0)
          in case fe_putFault env of
               Some m \<Rightarrow> ((500, HText (''storage upload failed: '' @ m)), t)
             | None \<Rightarrow>
                 (case insertFile env \<lparr>fr_ID = fileID, fr_Filename = filename, fr_Size = int (length content), fr_MimeType = mime,
                          fr_StorageKey = fileID, fr_UploaderID = uploader auth, fr_OwnerPluginKey = []\<rparr>
                        (t\<lparr>fs_objects := AList.update fileID content (fs_objects t)\<rparr>) of
                    (Inl _, t1) \<Rightarrow> ((500, HText ''database insert failed''), t1)
                  | (Inr _, t1) \<Rightarrow> ((200, HFileID fileID), t1)))"

definition Download :: "FEnv \<Rightarrow> string \<Rightarrow> string \<Rightarrow> FileTables \<Rightarrow> int \<times> hbody" where
  "Download env path rawQuery t =
     (if rawQuery \<noteq> [] then (400, HText ''query parameters are not allowed on download'')
      else case splitOn (CHR ''/'') (trimPrefix path ''/api/system/files/download/'') of
        [fileID, tempToken] \<Rightarrow>
          if fileID = [] \<or> tempToken = [] then (400, HText ''invalid request path'')
          else (case VerifyDownloadToken env tempToken t of
                  Inl _ \<Rightarrow> (401, HText ''unauthorized or expired token'')
                | Inr tokenFileID \<Rightarrow>
                    if tokenFileID \<noteq> fileID then (401, HText ''unauthorized or expired token'')
                    else (case GetFile env fileID t of
                      Inl _ \<Rightarrow> (404, HText ''404 page not found'')
                    | Inr m \<Rightarrow>
                        (case (case fe_getFault env of Some _ \<Rightarrow> None | None \<Rightarrow> map_of (fs_objects t) (fr_StorageKey m)) of
                           None \<Rightarrow> (500, HText ''failed to retrieve file'')
                         | Some content \<Rightarrow>
                             (200, HFile (fr_MimeType m) (''attachment; filename=\"'' @ fr_Filename m @ ''\"'') content))))
      | _ \<Rightarrow> (400, HText ''invalid request path''))"

section \<open>One plugin's files are invisible to another\<close>

definition withoutFile :: "string \<Rightarrow> FileTables \<Rightarrow> FileTables" where
  "withoutFile i t = t\<lparr>fs_files := filter (\<lambda>r. fr_ID r \<noteq> i) (fs_files t)\<rparr>"

lemma fileById_without [simp]: "fileById i (withoutFile i t) = None"
  by (auto simp: fileById_def withoutFile_def find_None_iff)

text \<open>C12: A plugin cannot use, change or even detect another plugin's file. For a file owned by another plugin, deleting it, asking for a download token
  and asking for its metadata answer exactly what they would answer if the file did not exist, whatever the failures of the database, and leave
  the tables and the store as they were.
\<close>

theorem files_isolated:
  assumes "fileById i t = Some r" "fr_OwnerPluginKey r \<noteq> []" "fr_OwnerPluginKey r \<noteq> key"
  shows "fst (DeleteFile env f key i t) = fst (DeleteFile env f key i (withoutFile i t)) \<and> snd (DeleteFile env f key i t) = t \<and>
    fst (GenerateDownloadToken env f key i user expiry t) = fst (GenerateDownloadToken env f key i user expiry (withoutFile i t)) \<and>
    snd (GenerateDownloadToken env f key i user expiry t) = t \<and>
    Metadata env f key i t = Metadata env f key i (withoutFile i t)"
proof -
  have "checkOwnership env key i t = checkOwnership env key i (withoutFile i t)" "\<exists>e. checkOwnership env key i t = Inl e"
    using assms by (auto simp: checkOwnership_def split: option.splits)
  then show ?thesis by (auto simp: DeleteFile_def GenerateDownloadToken_def Metadata_def)
qed

section \<open>Every download was granted\<close>

datatype fop = FPut FEnv Files string string string "bytes \<times> string option" | FDelete FEnv Files string string
  | FToken FEnv Files string string string int | FUpload FEnv "User option option" Upload

fun fstep :: "fop \<Rightarrow> FileTables \<Rightarrow> FileTables" where
  "fstep (FPut env f key name mime reader) t = snd (PutFile env f key name mime reader t)"
| "fstep (FDelete env f key i) t = snd (DeleteFile env f key i t)"
| "fstep (FToken env f key i user expiry) t = snd (GenerateDownloadToken env f key i user expiry t)"
| "fstep (FUpload env auth r) t = snd (UploadHandler env auth r t)"

lemma insertFile_tokens [simp]: "fs_tokens (snd (insertFile env r t)) = fs_tokens t"
  by (simp add: insertFile_def split: option.split)

lemma snd_case_result [simp]:
  "snd (case x of (Inl m, t1) \<Rightarrow> (f m, t1) | (Inr u, t1) \<Rightarrow> (g u, t1)) = snd x"
  by (simp split: prod.split sum.split)

lemma fstep_tokens_other:
  "fs_tokens (snd (PutFile env f key name mime reader t)) = fs_tokens t"
  "fs_tokens (snd (DeleteFile env f key i t)) = fs_tokens t"
  "fs_tokens (snd (UploadHandler env auth r t)) = fs_tokens t"
proof -
  show "fs_tokens (snd (PutFile env f key name mime reader t)) = fs_tokens t"
    unfolding PutFile_def Let_def by (simp split: option.split)
  show "fs_tokens (snd (DeleteFile env f key i t)) = fs_tokens t"
    unfolding DeleteFile_def by (simp split: option.split sum.split)
  show "fs_tokens (snd (UploadHandler env auth r t)) = fs_tokens t"
    unfolding UploadHandler_def Let_def by (simp split: option.split prod.split)
qed

text \<open>A token request that was granted in a state, and the row it wrote.\<close>

definition grants :: "FEnv \<Rightarrow> string \<Rightarrow> string \<Rightarrow> int \<Rightarrow> FileTables \<Rightarrow> TokenRow \<Rightarrow> bool" where
  "grants env key i expiry t k \<longleftrightarrow> tk_FileID k = i \<and> tk_ExpiresAt k = fe_now env + (if expiry \<le> 0 then fiveMinutes else expiry) \<and>
     map_option hexEncode (fe_rand env) = Some (tk_Token k) \<and>
     (\<exists>r. fileById i t = Some r \<and> (fr_OwnerPluginKey r = [] \<or> fr_OwnerPluginKey r = key))"

lemma token_granted:
  assumes "k \<in> set (fs_tokens (snd (GenerateDownloadToken env f key i user expiry t)))" "k \<notin> set (fs_tokens t)"
  shows "grants env key i expiry t k"
  using assms
  by (auto simp: GenerateDownloadToken_def Let_def insertToken_def checkOwnership_def grants_def
    split: option.splits sum.splits prod.splits if_splits)

lemma token_origin:
  "k \<in> set (fs_tokens (fold fstep ops t)) \<Longrightarrow> fs_tokens t = [] \<Longrightarrow>
   \<exists>pre env f key i user expiry post. ops = pre @ FToken env f key i user expiry # post \<and> grants env key i expiry (fold fstep pre t) k"
proof (induction ops rule: rev_induct)
  case (snoc op ops)
  show ?case
  proof (cases "k \<in> set (fs_tokens (fold fstep ops t))")
    case True
    then obtain pre env f key i user expiry post where "ops = pre @ FToken env f key i user expiry # post"
      "grants env key i expiry (fold fstep pre t) k" using snoc.IH snoc.prems(2) by blast
    then have "ops @ [op] = pre @ FToken env f key i user expiry # (post @ [op])" by simp
    then show ?thesis using \<open>grants env key i expiry (fold fstep pre t) k\<close> by blast
  next
    case False
    then obtain env f key i user expiry where op: "op = FToken env f key i user expiry"
      using snoc.prems(1) by (cases op) (auto simp: fstep_tokens_other)
    then have "grants env key i expiry (fold fstep ops t) k" using snoc.prems(1) False token_granted by simp
    then show ?thesis using op by blast
  qed
qed simp

text \<open>C13: Every download was granted. If, after any run of plugin calls and uploads from tables without tokens, a download succeeds, then it names a file and a
  token, and earlier in the run a plugin asked for a download of exactly that file and drew that token when the file belonged to that plugin or
  to no plugin, and the token has not expired by the database's clock.
\<close>

theorem download_granted:
  assumes "fs_tokens t = []" "Download env path query (fold fstep ops t) = (200, b)"
  shows "\<exists>i token pre e f key user expiry post k. splitOn (CHR ''/'') (trimPrefix path ''/api/system/files/download/'') = [i, token] \<and>
    ops = pre @ FToken e f key i user expiry # post \<and> grants e key i expiry (fold fstep pre t) k \<and> tk_Token k = token \<and>
    fe_dbnow env < tk_ExpiresAt k"
proof -
  let ?t = "fold fstep ops t"
  obtain i token where p: "splitOn (CHR ''/'') (trimPrefix path ''/api/system/files/download/'') = [i, token]"
    and v: "VerifyDownloadToken env token ?t = Inr i"
    using assms(2) by (auto simp: Download_def split: if_splits list.splits sum.splits)
  then obtain k where k: "k \<in> set (fs_tokens ?t)" "tk_Token k = token" "tk_ExpiresAt k > fe_dbnow env" "tk_FileID k = i"
    by (auto simp: VerifyDownloadToken_def find_Some_iff split: option.splits) (metis nth_mem)
  from token_origin[OF k(1) assms(1)] obtain pre e f key i' user expiry post where
    g: "ops = pre @ FToken e f key i' user expiry # post" "grants e key i' expiry (fold fstep pre t) k" by blast
  then have "i' = i" using k(4) by (simp add: grants_def)
  then show ?thesis using p g k by blast
qed

section \<open>A file comes back as it was written\<close>

lemma hexDigit_char: "n < 16 \<Longrightarrow> hexDigit n \<noteq> CHR ''/''"
proof -
  assume "n < 16"
  then have n: "n \<in> set [0..<16]" by simp
  have "list_all (\<lambda>n. hexDigit n \<noteq> CHR ''/'') [0..<16]" by code_simp
  from bspec[OF this[unfolded list_all_iff] n] show ?thesis .
qed

lemma hexEncode_slash: "list_all (\<lambda>b. b < 256) bs \<Longrightarrow> CHR ''/'' \<notin> set (hexEncode bs)"
proof (induction bs)
  case (Cons b bs)
  then have "b div 16 < 16" "b mod 16 < 16" by auto
  from this[THEN hexDigit_char] Cons show ?case by (simp add: hexEncode_def)
qed (simp add: hexEncode_def)

lemma find_snoc: "find P xs = None \<Longrightarrow> P x \<Longrightarrow> find P (xs @ [x]) = Some x"
  by (induction xs) (auto split: if_splits)

lemma hexEncode_Nil [simp]: "hexEncode bs = [] \<longleftrightarrow> bs = []"
  by (cases bs) (auto simp: hexEncode_def)

text \<open>The row and the object a plugin's upload writes.\<close>

definition putRow :: "FEnv \<Rightarrow> string \<Rightarrow> string \<Rightarrow> string \<Rightarrow> bytes \<Rightarrow> FileRow" where
  "putRow env key name mime content =
     \<lparr>fr_ID = fe_uuid env, fr_Filename = (if name = [] then ''untitled'' else name), fr_Size = int (length content),
      fr_MimeType = (if mime = [] then ''application/octet-stream'' else mime), fr_StorageKey = ''plugins/'' @ key @ ''/'' @ fe_uuid env,
      fr_UploaderID = [], fr_OwnerPluginKey = key\<rparr>"

lemma PutFile_ok:
  assumes "int (length content) \<le> maxUpload f"
  shows "PutFile env f key name mime (content, None) t =
    (if \<not> fi_store f \<or> \<not> fi_q f then (Inl NotConfigured, t)
     else case fe_putFault env of
       Some m \<Rightarrow> (Inl (StoreObject m), t)
     | None \<Rightarrow>
         (case insertFile env (putRow env key name mime content)
                 (t\<lparr>fs_objects := AList.update (fr_StorageKey (putRow env key name mime content)) content (fs_objects t)\<rparr>) of
            (Inl m, t1) \<Rightarrow> (Inl (RecordFile m), t1)
          | (Inr _, t1) \<Rightarrow> (Inr (fe_uuid env, int (length content)), t1)))"
proof -
  have T: "take (nat (maxUpload f + 1)) content = content" using assms by simp
  show ?thesis using assms unfolding PutFile_def putRow_def Let_def fst_conv snd_conv T by (cases "fe_putFault env") simp_all
qed

lemma PutFile_long:
  "maxUpload f < int (length content) \<Longrightarrow> fi_store f \<Longrightarrow> fi_q f \<Longrightarrow>
   PutFile env f key name mime (content, None) t = (Inl (ErrFileTooLarge (maxUpload f)), t)"
  by (simp add: PutFile_def)

lemma insertFile_Inr:
  assumes "insertFile env r t = (Inr (), t1)"
  shows "fileById (fr_ID r) t1 = Some r" "fs_objects t1 = fs_objects t"
  using assms by (auto simp: insertFile_def fileById_def find_snoc split: option.splits if_splits)

lemma PutFile_Inr:
  assumes "PutFile env f key name mime (content, None) t = (Inr (i, n), t1)"
  shows "i = fe_uuid env" "n = int (length content)" "n \<le> maxUpload f" "fileById i t1 = Some (putRow env key name mime content)"
    "map_of (fs_objects t1) (fr_StorageKey (putRow env key name mime content)) = Some content"
proof -
  have short: "int (length content) \<le> maxUpload f"
  proof (rule ccontr)
    assume "\<not> ?thesis"
    then show False using assms PutFile_long[of f content env key name mime t] by (auto simp: PutFile_def split: if_splits)
  qed
  let ?r = "putRow env key name mime content"
  obtain q t2 where q: "insertFile env ?r (t\<lparr>fs_objects := AList.update (fr_StorageKey ?r) content (fs_objects t)\<rparr>) = (q, t2)"
    by (cases "insertFile env ?r (t\<lparr>fs_objects := AList.update (fr_StorageKey ?r) content (fs_objects t)\<rparr>)")
  with assms short have "q = Inr ()" "t2 = t1" "i = fe_uuid env" "n = int (length content)"
    by (auto simp: PutFile_ok split: if_splits option.splits sum.splits)
  moreover have "fr_ID ?r = fe_uuid env" by (simp add: putRow_def)
  ultimately show "i = fe_uuid env" "n = int (length content)" "n \<le> maxUpload f" "fileById i t1 = Some ?r"
    "map_of (fs_objects t1) (fr_StorageKey ?r) = Some content"
    using short insertFile_Inr[of env ?r _ t1] q by (auto simp: update_conv')
qed

text \<open>A file comes back as it was written. When a plugin has stored content and then asked for a download of it, and both succeeded, the path in the
  link it got is accepted by the download endpoint before the link expires, and the answer is exactly the content with the type it was stored with; and a
  file over the ceiling is never stored.
\<close>

theorem file_roundtrip:
  assumes "PutFile env f key name mime (content, None) t = (Inr (i, n), t1)"
    "GenerateDownloadToken env' f key i user expiry t1 = (Inr (url, expires), t2)"
    "i \<noteq> []" "CHR ''/'' \<notin> set i" "fe_rand env' = Some bs" "bs \<noteq> []" "list_all (\<lambda>b. b < 256) bs"
    "fi_PublicBaseURL f = []" "\<forall>q. fe_fault env'' q = None" "fe_getFault env'' = None" "fe_dbnow env'' < expires"
  shows "n = int (length content) \<and> n \<le> maxUpload f \<and>
    Download env'' url [] t2 = (200, HFile (if mime = [] then ''application/octet-stream'' else mime)
      (''attachment; filename=\"'' @ (if name = [] then ''untitled'' else name) @ ''\"'') content)"
proof -
  note P = PutFile_Inr[OF assms(1)]
  let ?tok = "hexEncode bs"
  let ?row = "\<lparr>tk_Token = ?tok, tk_FileID = i, tk_UserID = user, tk_ExpiresAt = expires\<rparr>"
  have g: "url = ''/api/system/files/download/'' @ i @ ''/'' @ ?tok"
    "t2 = t1\<lparr>fs_tokens := fs_tokens t1 @ [?row]\<rparr>" "find (\<lambda>x. tk_Token x = ?tok) (fs_tokens t1) = None"
    using assms(2,5,8)
    by (auto simp: GenerateDownloadToken_def Let_def insertToken_def split: if_splits sum.splits option.splits)
  have "trimPrefix url ''/api/system/files/download/'' = i @ ''/'' @ ?tok" unfolding g(1) by (rule trimPrefix_append)
  moreover have "splitOn (CHR ''/'') (i @ ''/'' @ ?tok) = [i, ?tok]"
    using splitOn_append[OF assms(4), of ?tok] hexEncode_slash[OF assms(7)] by simp
  moreover have "?tok \<noteq> []" using assms(6) by simp
  moreover have "VerifyDownloadToken env'' ?tok t2 = Inr i"
  proof -
    have "find (\<lambda>r. tk_Token r = ?tok \<and> tk_ExpiresAt r > fe_dbnow env'') (fs_tokens t1) = None"
      using g(3) by (auto simp: find_None_iff)
    from find_snoc[OF this, of ?row] show ?thesis using assms(9,11) by (simp add: VerifyDownloadToken_def g(2))
  qed
  moreover have "GetFile env'' i t2 = Inr (putRow env key name mime content)"
    using P(4) assms(9) by (simp add: GetFile_def g(2) fileById_def)
  moreover have "map_of (fs_objects t2) (fr_StorageKey (putRow env key name mime content)) = Some content" using P(5) by (simp add: g(2))
  ultimately have "Download env'' url [] t2 = (200, HFile (fr_MimeType (putRow env key name mime content))
      (''attachment; filename=\"'' @ fr_Filename (putRow env key name mime content) @ ''\"'') content)"
    using assms(3,10) unfolding Download_def by simp
  then show ?thesis using P(2,3) by (simp add: putRow_def)
qed

section \<open>A link is not used up\<close>

text \<open>A download link works more than once. The download endpoint reads the tables and writes nothing, so the link that worked at one time works again,
  with the same answer, at every time up to its expiry; the comment of the function that makes the link calls it single-use.
\<close>

theorem link_reusable:
  assumes "Download env path query t = (200, b)" "\<forall>q. fe_fault env' q = None" "fe_getFault env' = None"
    "distinct (map tk_Token (fs_tokens t))" "splitOn (CHR ''/'') (trimPrefix path ''/api/system/files/download/'') = [i, tok]"
    "k \<in> set (fs_tokens t)" "tk_Token k = tok" "fe_dbnow env' < tk_ExpiresAt k"
  shows "Download env' path query t = (200, b)"
proof -
  have p: "query = []" "i \<noteq> []" "tok \<noteq> []" and v: "VerifyDownloadToken env tok t = Inr i"
    using assms(1,5) by (auto simp: Download_def split: if_splits sum.splits)
  have unique: "x = k" if "x \<in> set (fs_tokens t)" "tk_Token x = tok" for x
    using that assms(4,6,7) by (auto simp: distinct_map dest: inj_onD)
  obtain k1 where "find (\<lambda>r. tk_Token r = tok \<and> tk_ExpiresAt r > fe_dbnow env) (fs_tokens t) = Some k1" "tk_FileID k1 = i"
    using v by (auto simp: VerifyDownloadToken_def split: option.splits)
  then have i: "tk_FileID k = i" using unique[of k1] by (auto simp: find_Some_iff)
  obtain k2 where k2: "find (\<lambda>r. tk_Token r = tok \<and> tk_ExpiresAt r > fe_dbnow env') (fs_tokens t) = Some k2"
    using assms(6-8) by (cases "find (\<lambda>r. tk_Token r = tok \<and> tk_ExpiresAt r > fe_dbnow env') (fs_tokens t)") (auto simp: find_None_iff)
  then have "k2 = k" using unique[of k2] by (auto simp: find_Some_iff)
  then have v': "VerifyDownloadToken env' tok t = Inr i" using k2 i assms(2) by (simp add: VerifyDownloadToken_def)
  obtain m where m: "GetFile env i t = Inr m" using assms(1,5) p v by (auto simp: Download_def split: sum.splits)
  then have m': "GetFile env' i t = Inr m" using assms(2) by (auto simp: GetFile_def split: option.splits)
  show ?thesis using assms(1,3,5) p v v' m m' by (auto simp: Download_def split: option.splits)
qed

section \<open>Samples\<close>

definition sampleFEnv :: "int \<Rightarrow> FEnv" where
  "sampleFEnv now = \<lparr>fe_now = now, fe_dbnow = now, fe_uuid = ''u1'', fe_rand = Some [171, 5], fe_fault = (\<lambda>q. None), fe_putFault = None,
     fe_getFault = None\<rparr>"

definition sampleFiles :: Files where
  "sampleFiles = (NewFiles True True True)\<lparr>fi_MaxUploadBytes := 8\<rparr>"

definition noFiles :: FileTables where
  "noFiles = \<lparr>fs_files = [], fs_tokens = [], fs_objects = []\<rparr>"

definition sampleFOps :: "fop list" where
  "sampleFOps = [FPut (sampleFEnv 1) sampleFiles ''crm'' ''a.txt'' [] (''hello'', None),
     FToken (sampleFEnv 2) sampleFiles ''crm'' ''u1'' ''7'' 10]"

definition samplePath :: string where
  "samplePath = ''/api/system/files/download/u1/ab05''"

lemma sample_download: "Download (sampleFEnv 5) samplePath [] (fold fstep sampleFOps noFiles) =
    (200, HFile ''application/octet-stream'' ''attachment; filename=\"a.txt\"'' ''hello'')"
  by code_simp

theorem files_isolated_witness:
  "snd (DeleteFile (sampleFEnv 9) sampleFiles ''evil'' ''u1'' (fold fstep sampleFOps noFiles)) = fold fstep sampleFOps noFiles"
proof -
  define t where "t = fold fstep sampleFOps noFiles"
  obtain r where "fileById ''u1'' t = Some r" "fr_OwnerPluginKey r = ''crm''"
  proof -
    have "map_option fr_OwnerPluginKey (fileById ''u1'' t) = Some ''crm''" unfolding t_def by code_simp
    then show ?thesis using that by auto
  qed
  then show ?thesis using files_isolated[of "''u1''" t r "''evil''"] unfolding t_def[symmetric] by simp
qed

theorem download_granted_witness:
  "\<exists>pre e f key i user expiry post. sampleFOps = pre @ FToken e f key i user expiry # post"
proof -
  have "fs_tokens noFiles = []" by (simp add: noFiles_def)
  from download_granted[OF this sample_download] show ?thesis by blast
qed

theorem file_roundtrip_witness:
  "\<exists>t2. Download (sampleFEnv 5) samplePath [] t2 =
     (200, HFile ''application/octet-stream'' ''attachment; filename=\"a.txt\"'' ''hello'')"
proof -
  let ?f = "sampleFiles"
  define p where "p = PutFile (sampleFEnv 1) ?f ''crm'' ''a.txt'' [] (''hello'', None) noFiles"
  define g where "g = GenerateDownloadToken (sampleFEnv 2) ?f ''crm'' ''u1'' ''7'' 10 (snd p)"
  have p: "PutFile (sampleFEnv 1) ?f ''crm'' ''a.txt'' [] (''hello'', None) noFiles = (Inr (''u1'', 5), snd p)"
    unfolding p_def by code_simp
  have "fst g = Inr (samplePath, 12)" unfolding g_def p_def by code_simp
  then have g: "GenerateDownloadToken (sampleFEnv 2) ?f ''crm'' ''u1'' ''7'' 10 (snd p) = (Inr (samplePath, 12), snd g)"
    by (simp add: g_def[symmetric] prod_eq_iff)
  show ?thesis using file_roundtrip[OF p g, of "[171, 5]" "sampleFEnv 5"] by (auto simp: sampleFEnv_def sampleFiles_def NewFiles_def)
qed

theorem link_reusable_witness:
  "Download (sampleFEnv 11) samplePath [] (fold fstep sampleFOps noFiles) =
    (200, HFile ''application/octet-stream'' ''attachment; filename=\"a.txt\"'' ''hello'')"
proof -
  let ?k = "\<lparr>tk_Token = ''ab05'', tk_FileID = ''u1'', tk_UserID = ''7'', tk_ExpiresAt = 12\<rparr>"
  have "distinct (map tk_Token (fs_tokens (fold fstep sampleFOps noFiles)))" by code_simp
  moreover have "splitOn (CHR ''/'') (trimPrefix samplePath ''/api/system/files/download/'') = [''u1'', ''ab05'']" by code_simp
  moreover have "fs_tokens (fold fstep sampleFOps noFiles) = [?k]" by code_simp
  ultimately show ?thesis using link_reusable[OF sample_download, of "sampleFEnv 11" "''u1''" "''ab05''" ?k] by (simp add: sampleFEnv_def)
qed

section \<open>Files of different plugins\<close>

text \<open>A plugin's rows in the file table and its objects in the store. Keys contain no slash, and neither does a generated id.\<close>

definition otherOwner :: "string \<Rightarrow> string \<Rightarrow> bool" where
  "otherOwner k p \<longleftrightarrow> p \<noteq> k \<and> k \<noteq> [] \<and> CHR ''/'' \<notin> set p \<and> CHR ''/'' \<notin> set k"

fun fileForeign :: "string \<Rightarrow> fop \<Rightarrow> bool" where
  "fileForeign k (FPut env f p name mime reader) = otherOwner k p"
| "fileForeign k (FDelete env f p i) = otherOwner k p"
| "fileForeign k (FToken env f p i user expiry) = otherOwner k p"
| "fileForeign k (FUpload env auth r) = (k \<noteq> [] \<and> CHR ''/'' \<notin> set (fe_uuid env))"

definition objectKey :: "string \<Rightarrow> string \<Rightarrow> string" where
  "objectKey k i = ''plugins/'' @ k @ ''/'' @ i"

definition filesKept :: "string \<Rightarrow> FileTables \<Rightarrow> FileTables \<Rightarrow> bool" where
  "filesKept k t t' \<longleftrightarrow> filter (\<lambda>r. fr_OwnerPluginKey r = k) (fs_files t') = filter (\<lambda>r. fr_OwnerPluginKey r = k) (fs_files t) \<and>
     (\<forall>i. map_of (fs_objects t') (objectKey k i) = map_of (fs_objects t) (objectKey k i))"

definition filesInv :: "FileTables \<Rightarrow> bool" where
  "filesInv t \<longleftrightarrow> distinct (map fr_ID (fs_files t))"

lemma filesKept_refl: "filesKept k t t"
  by (simp add: filesKept_def)

lemma objectKey_other: "otherOwner k p \<Longrightarrow> objectKey k i \<noteq> objectKey p j"
  using sep_injective[of "CHR ''/''" k p i j] by (auto simp: objectKey_def otherOwner_def)

lemma objectKey_slash: "CHR ''/'' \<notin> set u \<Longrightarrow> objectKey k i \<noteq> u"
  by (auto simp: objectKey_def)

lemma insertFile_facts:
  "fs_files (snd (insertFile env r t)) = fs_files t \<or>
     fs_files (snd (insertFile env r t)) = fs_files t @ [r] \<and> fr_ID r \<notin> fr_ID ` set (fs_files t)"
  "fs_objects (snd (insertFile env r t)) = fs_objects t"
  by (auto simp: insertFile_def fileById_def find_None_iff split: option.split)

lemma insertFile_kept:
  "filesInv t \<Longrightarrow> filesInv (snd (insertFile env r (t\<lparr>fs_objects := x\<rparr>)))"
  "fr_OwnerPluginKey r \<noteq> k \<Longrightarrow> (\<And>i. map_of x (objectKey k i) = map_of (fs_objects t) (objectKey k i)) \<Longrightarrow>
     filesKept k t (snd (insertFile env r (t\<lparr>fs_objects := x\<rparr>)))"
  using insertFile_facts[of env r "t\<lparr>fs_objects := x\<rparr>"] by (auto simp: filesInv_def filesKept_def)

lemma PutFile_tenant:
  "filesInv t \<Longrightarrow> filesInv (snd (PutFile env f p name mime reader t))"
  "otherOwner k p \<Longrightarrow> filesKept k t (snd (PutFile env f p name mime reader t))"
proof -
  show "filesInv t \<Longrightarrow> filesInv (snd (PutFile env f p name mime reader t))"
    unfolding PutFile_def Let_def by (simp add: insertFile_kept(1) split: option.split)
  assume o: "otherOwner k p"
  then have "p \<noteq> k" by (simp add: otherOwner_def)
  moreover have "map_of (AList.update (objectKey p j) b (fs_objects t)) (objectKey k i) = map_of (fs_objects t) (objectKey k i)" for b i j
    using objectKey_other[OF o, of i j] by (simp add: update_conv')
  ultimately show "filesKept k t (snd (PutFile env f p name mime reader t))"
    unfolding PutFile_def Let_def objectKey_def[symmetric] by (simp add: insertFile_kept(2) filesKept_refl split: option.split)
qed

lemma UploadHandler_tenant:
  "filesInv t \<Longrightarrow> filesInv (snd (UploadHandler env auth r t))"
  "k \<noteq> [] \<Longrightarrow> CHR ''/'' \<notin> set (fe_uuid env) \<Longrightarrow> filesKept k t (snd (UploadHandler env auth r t))"
proof -
  show "filesInv t \<Longrightarrow> filesInv (snd (UploadHandler env auth r t))"
    unfolding UploadHandler_def Let_def by (simp add: insertFile_kept(1) split: option.split prod.split)
  assume k: "k \<noteq> []" and u: "CHR ''/'' \<notin> set (fe_uuid env)"
  have "map_of (AList.update (fe_uuid env) b (fs_objects t)) (objectKey k i) = map_of (fs_objects t) (objectKey k i)" for b i
    using objectKey_slash[OF u, of k i] by (simp add: update_conv')
  then show "filesKept k t (snd (UploadHandler env auth r t))"
    unfolding UploadHandler_def Let_def using k by (simp add: insertFile_kept(2) filesKept_refl split: option.split prod.split)
qed

lemma DeleteFile_tenant:
  "filesInv t \<Longrightarrow> filesInv (snd (DeleteFile env f p i t))"
  "filesInv t \<Longrightarrow> otherOwner k p \<Longrightarrow> filesKept k t (snd (DeleteFile env f p i t))"
proof -
  show "filesInv t \<Longrightarrow> filesInv (snd (DeleteFile env f p i t))"
    unfolding DeleteFile_def by (simp add: filesInv_def distinct_map_filter split: option.split sum.split)
  assume inv: "filesInv t" and o: "otherOwner k p"
  show "filesKept k t (snd (DeleteFile env f p i t))"
  proof (cases "checkOwnership env p i t")
    case (Inr u)
    then obtain r where r: "fileById i t = Some r" "fr_OwnerPluginKey r = [] \<or> fr_OwnerPluginKey r = p"
      by (auto simp: checkOwnership_def split: option.splits if_splits)
    then have m: "r \<in> set (fs_files t)" "fr_ID r = i" by (auto simp: fileById_def find_Some_iff)
    have "fr_OwnerPluginKey x = k \<Longrightarrow> x \<in> set (fs_files t) \<Longrightarrow> fr_ID x \<noteq> i" for x
      using inv o m r(2) by (auto simp: filesInv_def otherOwner_def distinct_map inj_on_def)
    then have "filter (\<lambda>x. fr_OwnerPluginKey x = k) (filter (\<lambda>x. fr_ID x \<noteq> i) (fs_files t)) = filter (\<lambda>x. fr_OwnerPluginKey x = k) (fs_files t)"
      by (auto intro: filter_cong)
    then show ?thesis unfolding DeleteFile_def by (simp add: filesKept_def split: option.split sum.split)
  qed (simp add: DeleteFile_def filesKept_refl)
qed

lemma GenerateDownloadToken_files:
  "fs_files (snd (GenerateDownloadToken env f p i user expiry t)) = fs_files t"
  "fs_objects (snd (GenerateDownloadToken env f p i user expiry t)) = fs_objects t"
  unfolding GenerateDownloadToken_def Let_def insertToken_def by (simp_all split: option.split sum.split)

lemma fstep_tenant:
  "filesInv t \<Longrightarrow> filesInv (fstep op t)"
  "filesInv t \<Longrightarrow> fileForeign k op \<Longrightarrow> filesKept k t (fstep op t)"
proof -
  show "filesInv t \<Longrightarrow> filesInv (fstep op t)"
    by (cases op) (simp_all add: PutFile_tenant DeleteFile_tenant UploadHandler_tenant filesInv_def GenerateDownloadToken_files
      PutFile_tenant(1)[unfolded filesInv_def] DeleteFile_tenant(1)[unfolded filesInv_def] UploadHandler_tenant(1)[unfolded filesInv_def])
  show "filesInv t \<Longrightarrow> fileForeign k op \<Longrightarrow> filesKept k t (fstep op t)"
  proof (cases op)
    case (FToken env f p i user expiry)
    then show ?thesis by (simp add: filesKept_def GenerateDownloadToken_files)
  qed (simp_all add: PutFile_tenant DeleteFile_tenant UploadHandler_tenant)
qed

interpretation fileTenants: tenant_backend filesInv fileForeign filesKept fstep
  by unfold_locales (simp_all add: filesKept_refl fstep_tenant, simp add: filesKept_def)

end
