(* ===== verification/Query.thy ===== *)
theory Query
  imports Documents
begin

text \<open>
  Reading documents: \<^verbatim>\<open>src/core/db/query.go\<close> (predicates, sorting, keyset pagination, aggregation) and \<^verbatim>\<open>Find\<close> of
  \<^verbatim>\<open>src/core/db/cmds.go\<close>. The code formats SQL text; here it builds a \<open>Select\<close> or an \<open>Agg\<close> whose clauses carry the
  placeholder numbers, \<open>selectText\<close>, \<open>findText\<close> and \<open>aggText\<close> give the text the code sends, and \<open>runSelect\<close> gives the
  meaning of that text on a table with the bound arguments. What belongs to the server is the record \<open>QDb\<close>: the text a JSON path has in a document
  (none for SQL's NULL), the collation as a sort key, \<^verbatim>\<open>LIKE\<close>, the creation times, and which queries fail. The JSON decoder
  and the cursor's encoding are the record \<open>QCodec\<close>.
\<close>

section \<open>Requests\<close>

definition OpEq :: string where "OpEq = ''=''"
definition OpNe :: string where "OpNe = ''!=''"
definition OpGt :: string where "OpGt = ''>''"
definition OpGte :: string where "OpGte = ''>=''"
definition OpLt :: string where "OpLt = ''<''"
definition OpLte :: string where "OpLte = ''<=''"
definition OpLike :: string where "OpLike = ''LIKE''"
definition OpIn :: string where "OpIn = ''IN''"
definition OpBetween :: string where "OpBetween = ''BETWEEN''"
definition OpIsNull :: string where "OpIsNull = ''IS NULL''"
definition OpIsNotNull :: string where "OpIsNotNull = ''IS NOT NULL''"

definition binaryOps :: "string list" where
  "binaryOps = [OpEq, OpNe, OpGt, OpGte, OpLt, OpLte, OpLike]"

record Predicate =
  pr_Field :: string
  pr_Op :: string
  pr_Values :: "string list"

record SortField =
  sf_Field :: string
  sf_Descending :: bool

record QueryOptions =
  qo_Predicates :: "Predicate list"
  qo_Sort :: "SortField list"
  qo_Limit :: int
  qo_Cursor :: string

record QueryResult =
  qr_Documents :: "bytes list"
  qr_IDs :: "string list"
  qr_NextCursor :: string
  qr_HasMore :: bool

definition DefaultQueryLimit :: int where "DefaultQueryLimit = 100"
definition MaxQueryLimit :: int where "MaxQueryLimit = 1000"

datatype qry_err =
    QName doc_err | FieldRequired | FieldInvalid string doc_err | NeedsOne string | NeedsTwo | UnsupportedOp string | MixedDirections
  | MalformedCursor | CursorMismatch | QueryFailed string | DecodeFailed | UnsupportedFunc string | AggregateField qry_err | GroupBy qry_err

section \<open>Expressions and clauses\<close>

datatype expr = Path "string list"

fun exprText :: "expr \<Rightarrow> string" where
  "exprText (Path [p]) = ''(data->>'' @ [CHR 0x27] @ p @ [CHR 0x27] @ '')''"
| "exprText (Path ps) = ''(data#>>'' @ [CHR 0x27] @ ''{'' @ joinWith '','' ps @ ''}'' @ [CHR 0x27] @ '')''"

definition jsonPath :: "string \<Rightarrow> qry_err + expr" where
  "jsonPath field =
     (if field = [] then Inl FieldRequired
      else let parts = splitOn (CHR ''.'') field
           in case foldRes (\<lambda>u p. ValidateIdentifier p) () parts of
                Inl e \<Rightarrow> Inl (FieldInvalid field e)
              | Inr _ \<Rightarrow> Inr (Path parts))"

text \<open>The numbers are those of the placeholders.\<close>

datatype clause =
    CCmp expr string nat
  | CFalse
  | CIn expr "nat list"
  | CBetween expr nat nat
  | CIsNull expr
  | CIsNotNull expr
  | CKeyset "expr list" bool "nat list"

definition ph :: "nat \<Rightarrow> string" where "ph n = ''$'' @ digitsOf n"

fun clauseText :: "clause \<Rightarrow> string" where
  "clauseText (CCmp e op n) = exprText e @ '' '' @ op @ '' '' @ ph n"
| "clauseText CFalse = ''FALSE''"
| "clauseText (CIn e ns) = exprText e @ '' IN ('' @ joinWith '', '' (map ph ns) @ '')''"
| "clauseText (CBetween e n m) = exprText e @ '' BETWEEN '' @ ph n @ '' AND '' @ ph m"
| "clauseText (CIsNull e) = exprText e @ '' IS NULL''"
| "clauseText (CIsNotNull e) = exprText e @ '' IS NOT NULL''"
| "clauseText (CKeyset es desc ns) =
     ''('' @ joinWith '', '' (map exprText es @ [''id'']) @ '') '' @ (if desc then ''<'' else ''>'') @ '' ('' @ joinWith '', '' (map ph ns) @ '')''"

definition whereText :: "clause list \<Rightarrow> string" where
  "whereText cs = (if cs = [] then [] else '' WHERE '' @ joinWith '' AND '' (map clauseText cs))"

definition predClause :: "nat \<Rightarrow> Predicate \<Rightarrow> qry_err + (clause \<times> string list)" where
  "predClause n p =
     (case jsonPath (pr_Field p) of
        Inl e \<Rightarrow> Inl e
      | Inr e \<Rightarrow>
          let op0 = toUpper (trimSpace (pr_Op p)); op = (if op0 = [] then OpEq else op0); vs = pr_Values p
          in if op \<in> set binaryOps then (if length vs \<noteq> 1 then Inl (NeedsOne op) else Inr (CCmp e op (n + 1), vs))
             else if op = OpIn then (if vs = [] then Inr (CFalse, []) else Inr (CIn e [n + 1 ..< n + 1 + length vs], vs))
             else if op = OpBetween then (if length vs \<noteq> 2 then Inl NeedsTwo else Inr (CBetween e (n + 1) (n + 2), vs))
             else if op = OpIsNull then Inr (CIsNull e, [])
             else if op = OpIsNotNull then Inr (CIsNotNull e, [])
             else Inl (UnsupportedOp (pr_Op p)))"

fun buildWhere :: "Predicate list \<Rightarrow> nat \<Rightarrow> qry_err + (clause list \<times> string list)" where
  "buildWhere [] n = Inr ([], [])"
| "buildWhere (p # ps) n =
     (case predClause n p of
        Inl e \<Rightarrow> Inl e
      | Inr (c, args) \<Rightarrow>
          (case buildWhere ps (n + length args) of
             Inl e \<Rightarrow> Inl e
           | Inr (cs, args') \<Rightarrow> Inr (c # cs, args @ args')))"

section \<open>A page\<close>

record Select =
  se_table :: string
  se_where :: "clause list"
  se_order :: "expr list"
  se_desc :: bool
  se_limitPh :: nat

definition dirText :: "bool \<Rightarrow> string" where "dirText desc = (if desc then '' DESC'' else '' ASC'')"

definition selectText :: "Select \<Rightarrow> string" where
  "selectText q = ''SELECT id, data FROM '' @ se_table q @ whereText (se_where q) @ '' ORDER BY '' @
     joinWith '', '' (map (\<lambda>e. exprText e @ dirText (se_desc q)) (se_order q) @ [''id'' @ dirText (se_desc q)]) @ '' LIMIT '' @ ph (se_limitPh q)"

text \<open>The sort expressions and the common direction: the second argument is the direction once it is fixed.\<close>

fun sortExprs :: "bool option \<Rightarrow> SortField list \<Rightarrow> qry_err + (expr list \<times> bool)" where
  "sortExprs dir [] = Inr ([], (case dir of None \<Rightarrow> False | Some d \<Rightarrow> d))"
| "sortExprs dir (s # ss) =
     (case jsonPath (sf_Field s) of
        Inl e \<Rightarrow> Inl e
      | Inr e \<Rightarrow>
          if dir \<noteq> None \<and> dir \<noteq> Some (sf_Descending s) then Inl MixedDirections
          else (case sortExprs (Some (sf_Descending s)) ss of
                  Inl er \<Rightarrow> Inl er
                | Inr (es, d) \<Rightarrow> Inr (e # es, d)))"

record cursorPayload =
  cu_Keys :: "string list"
  cu_ID :: string

datatype json = JNull | JBool bool | JNum "int option" string | JStr string | JOther string | JObj "(string \<times> json) list"

text \<open>A decoded number is its value as an integer when it has one, and its Go rendering; a decoded array is its encoding.\<close>

record QCodec =
  qc_json :: "bytes \<Rightarrow> (string \<times> json) list option"
  qc_marshal :: "(string \<times> json) list \<Rightarrow> string"
  qc_encode :: "cursorPayload \<Rightarrow> string"
  qc_decode :: "string \<Rightarrow> cursorPayload option"

fun renderJson :: "QCodec \<Rightarrow> json \<Rightarrow> string" where
  "renderJson qc JNull = []"
| "renderJson qc (JBool b) = (if b then ''true'' else ''false'')"
| "renderJson qc (JNum i t) = (case i of Some n \<Rightarrow> itoa n | None \<Rightarrow> t)"
| "renderJson qc (JStr s) = s"
| "renderJson qc (JOther t) = t"
| "renderJson qc (JObj kvs) = qc_marshal qc kvs"

fun lookupPath :: "QCodec \<Rightarrow> json \<Rightarrow> string list \<Rightarrow> string" where
  "lookupPath qc cur [] = renderJson qc cur"
| "lookupPath qc cur (seg # segs) =
     (case cur of
        JObj kvs \<Rightarrow> lookupPath qc (case map_of kvs seg of None \<Rightarrow> JNull | Some v \<Rightarrow> v) segs
      | _ \<Rightarrow> [])"

definition sortKeysOf :: "QCodec \<Rightarrow> bytes \<Rightarrow> SortField list \<Rightarrow> qry_err + string list" where
  "sortKeysOf qc doc sorts =
     (if sorts = [] then Inr []
      else case qc_json qc doc of
        None \<Rightarrow> Inl DecodeFailed
      | Some parsed \<Rightarrow> Inr (map (\<lambda>s. lookupPath qc (JObj parsed) (splitOn (CHR ''.'') (sf_Field s))) sorts))"

record QDb =
  qd_text :: "bytes \<Rightarrow> string list \<Rightarrow> string option"
  qd_coll :: "string \<Rightarrow> string"
  qd_like :: "string \<Rightarrow> string \<Rightarrow> bool"
  qd_created :: "string \<Rightarrow> int \<times> int"
  qd_fault :: "string \<Rightarrow> string option"

type_synonym docRow = "string \<times> Row"

definition valOf :: "QDb \<Rightarrow> docRow \<Rightarrow> expr \<Rightarrow> string option" where
  "valOf db r e = (case e of Path ps \<Rightarrow> qd_text db (rw_data (snd r)) ps)"

definition argAt :: "string list \<Rightarrow> nat \<Rightarrow> string" where
  "argAt args n = args ! (n - 1)"

definition cmpVals :: "QDb \<Rightarrow> string \<Rightarrow> string \<Rightarrow> string \<Rightarrow> bool" where
  "cmpVals db op a b =
     (if op = OpEq then a = b else if op = OpNe then a \<noteq> b else if op = OpGt then qd_coll db a > qd_coll db b
      else if op = OpGte then qd_coll db a \<ge> qd_coll db b else if op = OpLt then qd_coll db a < qd_coll db b
      else if op = OpLte then qd_coll db a \<le> qd_coll db b else qd_like db b a)"

text \<open>Row comparison: the first pair that differs decides, and a NULL met before that makes the comparison unknown.\<close>

fun rowCmp :: "QDb \<Rightarrow> bool \<Rightarrow> string option list \<Rightarrow> string list \<Rightarrow> bool option" where
  "rowCmp db desc (a # as) (b # bs) =
     (case a of None \<Rightarrow> None
      | Some x \<Rightarrow> if x = b then rowCmp db desc as bs
                  else Some (if desc then qd_coll db x < qd_coll db b else qd_coll db x > qd_coll db b))"
| "rowCmp db desc as bs = Some False"

fun holdsClause :: "QDb \<Rightarrow> string list \<Rightarrow> docRow \<Rightarrow> clause \<Rightarrow> bool option" where
  "holdsClause db args r (CCmp e op n) = map_option (\<lambda>x. cmpVals db op x (argAt args n)) (valOf db r e)"
| "holdsClause db args r CFalse = Some False"
| "holdsClause db args r (CIn e ns) = map_option (\<lambda>x. x \<in> set (map (argAt args) ns)) (valOf db r e)"
| "holdsClause db args r (CBetween e n m) =
     map_option (\<lambda>x. qd_coll db (argAt args n) \<le> qd_coll db x \<and> qd_coll db x \<le> qd_coll db (argAt args m)) (valOf db r e)"
| "holdsClause db args r (CIsNull e) = Some (valOf db r e = None)"
| "holdsClause db args r (CIsNotNull e) = Some (valOf db r e \<noteq> None)"
| "holdsClause db args r (CKeyset es desc ns) = rowCmp db desc (map (valOf db r) es @ [Some (fst r)]) (map (argAt args) ns)"

definition keepsRow :: "QDb \<Rightarrow> string list \<Rightarrow> clause list \<Rightarrow> docRow \<Rightarrow> bool" where
  "keepsRow db args cs r = list_all (\<lambda>c. holdsClause db args r c = Some True) cs"

text \<open>Ascending order puts NULL last and descending order puts it first.\<close>

definition nullKey :: "QDb \<Rightarrow> string option \<Rightarrow> nat \<times> string" where
  "nullKey db v = (case v of None \<Rightarrow> (1, []) | Some x \<Rightarrow> (0, qd_coll db x))"

definition orderKey :: "QDb \<Rightarrow> expr list \<Rightarrow> docRow \<Rightarrow> (nat \<times> string) list" where
  "orderKey db es r = map (\<lambda>e. nullKey db (valOf db r e)) es @ [nullKey db (Some (fst r))]"

definition runSelect :: "QDb \<Rightarrow> Select \<Rightarrow> string list \<Rightarrow> nat \<Rightarrow> docRow list \<Rightarrow> docRow list" where
  "runSelect db q args lim rows =
     (let asc = sort_key (orderKey db (se_order q)) (filter (keepsRow db args (se_where q)) rows)
      in take lim (if se_desc q then rev asc else asc))"

definition queryTable :: "Pg \<Rightarrow> QDb \<Rightarrow> string \<Rightarrow> string \<Rightarrow> Store \<Rightarrow> qry_err + docRow list" where
  "queryTable pg db text table s =
     (case qd_fault db text of
        Some m \<Rightarrow> Inl (QueryFailed m)
      | None \<Rightarrow> (case map_of (st_tables s) (pg_ident pg table) of
                   None \<Rightarrow> Inl (QueryFailed ''relation does not exist'') | Some tb \<Rightarrow> Inr tb))"

definition clampLimit :: "int \<Rightarrow> int" where
  "clampLimit n = (let l = (if n \<le> 0 then DefaultQueryLimit else n) in if l > MaxQueryLimit then MaxQueryLimit else l)"

text \<open>The statement and its arguments, without the limit, which is the last one.\<close>

definition compileQuery :: "QCodec \<Rightarrow> string \<Rightarrow> QueryOptions \<Rightarrow> qry_err + (Select \<times> string list)" where
  "compileQuery qc table opts =
     (case buildWhere (qo_Predicates opts) 0 of
        Inl e \<Rightarrow> Inl e
      | Inr (cs, args) \<Rightarrow>
          (case sortExprs None (qo_Sort opts) of
             Inl e \<Rightarrow> Inl e
           | Inr (es, desc) \<Rightarrow>
               if qo_Cursor opts = [] then
                 Inr (\<lparr>se_table = table, se_where = cs, se_order = es, se_desc = desc, se_limitPh = length args + 1\<rparr>, args)
               else (case qc_decode qc (qo_Cursor opts) of
                 None \<Rightarrow> Inl MalformedCursor
               | Some cur \<Rightarrow>
                   if length (cu_Keys cur) \<noteq> length es then Inl CursorMismatch
                   else let args' = args @ cu_Keys cur @ [cu_ID cur];
                            c = CKeyset es desc [length args + 1 ..< length args + 1 + length (cu_Keys cur) + 1]
                        in Inr (\<lparr>se_table = table, se_where = cs @ [c], se_order = es, se_desc = desc, se_limitPh = length args' + 1\<rparr>, args'))))"

definition Query :: "Pg \<Rightarrow> QDb \<Rightarrow> QCodec \<Rightarrow> string \<Rightarrow> string \<Rightarrow> QueryOptions \<Rightarrow> Store \<Rightarrow> qry_err + QueryResult" where
  "Query pg db qc extKey collection opts s =
     (case tableName extKey collection of
        Inl e \<Rightarrow> Inl (QName e)
      | Inr table \<Rightarrow>
          let limit = nat (clampLimit (qo_Limit opts))
          in case compileQuery qc table opts of
               Inl e \<Rightarrow> Inl e
             | Inr (q, args) \<Rightarrow>
                 (case queryTable pg db (selectText q) table s of
                    Inl e \<Rightarrow> Inl e
                  | Inr tb \<Rightarrow>
                      let rows = runSelect db q args (limit + 1) tb;
                          page = take limit rows;
                          hasMore = (limit < length rows);
                          res = \<lparr>qr_Documents = map (\<lambda>r. rw_data (snd r)) page, qr_IDs = map fst page, qr_NextCursor = [], qr_HasMore = hasMore\<rparr>
                      in if hasMore \<and> fst (last page) \<noteq> []
                         then (case sortKeysOf qc (rw_data (snd (last page))) (qo_Sort opts) of
                                 Inl e \<Rightarrow> Inl e
                               | Inr keys \<Rightarrow> Inr (res\<lparr>qr_NextCursor := qc_encode qc \<lparr>cu_Keys = keys, cu_ID = fst (last page)\<rparr>\<rparr>))
                         else Inr res))"

section \<open>Find\<close>

record FindFilter =
  ff_Field :: string
  ff_Operator :: string
  ff_Value :: string

definition normalizeOperator :: "string \<Rightarrow> string" where
  "normalizeOperator op = (if op \<in> set [OpGt, OpLt, OpGte, OpLte, OpLike, OpNe] then op else OpEq)"

fun findClauses :: "nat \<Rightarrow> FindFilter list \<Rightarrow> doc_err + (clause list \<times> string list)" where
  "findClauses n [] = Inr ([], [])"
| "findClauses n (f # fs) =
     (case jsonPathExpr (ff_Field f) of
        Inl e \<Rightarrow> Inl e
      | Inr _ \<Rightarrow>
          (case findClauses (n + 1) fs of
             Inl e \<Rightarrow> Inl e
           | Inr (cs, args) \<Rightarrow> Inr (CCmp (Path [ff_Field f]) (normalizeOperator (ff_Operator f)) n # cs, ff_Value f # args)))"

definition findText :: "string \<Rightarrow> clause list \<Rightarrow> nat \<Rightarrow> string" where
  "findText table cs n =
     ''SELECT data FROM '' @ table @ '' '' @ (if cs = [] then [] else ''WHERE '' @ joinWith '' AND '' (map clauseText cs)) @
     '' ORDER BY created_at LIMIT '' @ ph n @ '' OFFSET '' @ ph (n + 1) @ '';''"

definition Find :: "Pg \<Rightarrow> QDb \<Rightarrow> string \<Rightarrow> string \<Rightarrow> FindFilter list \<Rightarrow> int \<Rightarrow> int \<Rightarrow> Store \<Rightarrow> qry_err + bytes list" where
  "Find pg db extKey collection filters limit0 offset0 s =
     (case tableName extKey collection of
        Inl e \<Rightarrow> Inl (QName e)
      | Inr table \<Rightarrow>
          (case findClauses 1 filters of
             Inl e \<Rightarrow> Inl (QName e)
           | Inr (cs, args) \<Rightarrow>
               let limit = (if limit0 \<le> 0 then 100 else limit0); offset = (if offset0 < 0 then 0 else offset0)
               in case queryTable pg db (findText table cs (length args + 1)) table s of
                    Inl e \<Rightarrow> Inl e
                  | Inr tb \<Rightarrow>
                      Inr (map (\<lambda>r. rw_data (snd r)) (take (nat limit) (drop (nat offset)
                             (sort_key (\<lambda>r. qd_created db (fst r)) (filter (keepsRow db args cs) tb)))))))"

section \<open>Aggregation\<close>

definition AggCount :: string where "AggCount = ''COUNT''"
definition AggSum :: string where "AggSum = ''SUM''"
definition AggAvg :: string where "AggAvg = ''AVG''"
definition AggMin :: string where "AggMin = ''MIN''"
definition AggMax :: string where "AggMax = ''MAX''"

record AggregateOptions =
  ag_Predicates :: "Predicate list"
  ag_Func :: string
  ag_Field :: string
  ag_GroupBy :: "string list"

record 'v AggregateBucket =
  ab_Keys :: "(string, string) gomap"
  ab_Value :: 'v

definition aggFunc :: "string \<Rightarrow> qry_err + string" where
  "aggFunc f = (let fn = toUpper (trimSpace f)
     in if fn \<in> set [AggCount, AggSum, AggAvg, AggMin, AggMax] then Inr fn
        else if fn = [] then Inr AggCount else Inl (UnsupportedFunc f))"

definition aggExpr :: "string \<Rightarrow> string \<Rightarrow> qry_err + string" where
  "aggExpr fn field =
     (if fn = AggCount then Inr ''*''
      else case jsonPath field of Inl e \<Rightarrow> Inl (AggregateField e) | Inr e \<Rightarrow> Inr (''('' @ exprText e @ '')::numeric''))"

definition groupExpr :: "string \<Rightarrow> qry_err + expr" where
  "groupExpr g = (case jsonPath g of Inl e \<Rightarrow> Inl (GroupBy e) | Inr e \<Rightarrow> Inr e)"

definition aggText :: "string \<Rightarrow> string \<Rightarrow> string \<Rightarrow> expr list \<Rightarrow> clause list \<Rightarrow> string" where
  "aggText table fn ex groups cs =
     ''SELECT '' @ joinWith '', '' (map exprText groups @ [fn @ ''('' @ ex @ '')::float8'']) @ '' FROM '' @ table @ whereText cs @
     (if groups = [] then [] else '' GROUP BY '' @ joinWith '', '' (map exprText groups))"

definition compileAggregate :: "string \<Rightarrow> AggregateOptions \<Rightarrow> qry_err + (string \<times> string list)" where
  "compileAggregate table opts =
     bindRes (aggFunc (ag_Func opts)) (\<lambda>fn.
     bindRes (aggExpr fn (ag_Field opts)) (\<lambda>ex.
     bindRes (mapRes groupExpr (ag_GroupBy opts)) (\<lambda>groups.
     bindRes (buildWhere (ag_Predicates opts) 0) (\<lambda>(cs, args).
       Inr (aggText table fn ex groups cs, args)))))"

text \<open>The rows the server answers with are a function of the statement and its arguments.\<close>

definition Aggregate ::
  "(string \<Rightarrow> string list \<Rightarrow> string + (string option list \<times> ('v :: zero) option) list) \<Rightarrow> string \<Rightarrow> string \<Rightarrow> AggregateOptions \<Rightarrow>
   qry_err + 'v AggregateBucket list" where
  "Aggregate ask extKey collection opts =
     (case tableName extKey collection of
        Inl e \<Rightarrow> Inl (QName e)
      | Inr table \<Rightarrow>
          (case compileAggregate table opts of
             Inl e \<Rightarrow> Inl e
           | Inr (text, args) \<Rightarrow>
               (case ask text args of
                  Inl m \<Rightarrow> Inl (QueryFailed m)
                | Inr rows \<Rightarrow>
                    Inr (map (\<lambda>(vals, v).
                       \<lparr>ab_Keys = fold (\<lambda>(g, x) m. AList.update g (case x of None \<Rightarrow> [] | Some t \<Rightarrow> t) m) (zip (ag_GroupBy opts) vals) [],
                        ab_Value = (case v of None \<Rightarrow> 0 | Some x \<Rightarrow> x)\<rparr>) rows))))"

section \<open>The compiled condition means the predicates\<close>

definition normOp :: "string \<Rightarrow> string" where
  "normOp op = (let u = toUpper (trimSpace op) in if u = [] then OpEq else u)"

definition predMeans :: "QDb \<Rightarrow> Predicate \<Rightarrow> docRow \<Rightarrow> bool" where
  "predMeans db p r =
     (let v = qd_text db (rw_data (snd r)) (splitOn (CHR ''.'') (pr_Field p)); op = normOp (pr_Op p); vs = pr_Values p
      in if op = OpIsNull then v = None
         else case v of
           None \<Rightarrow> False
         | Some x \<Rightarrow>
             if op = OpIsNotNull then True
             else if op = OpIn then x \<in> set vs
             else if op = OpBetween then qd_coll db (vs ! 0) \<le> qd_coll db x \<and> qd_coll db x \<le> qd_coll db (vs ! 1)
             else cmpVals db op x (vs ! 0))"

fun placeholders :: "clause \<Rightarrow> nat list" where
  "placeholders (CCmp e op n) = [n]"
| "placeholders CFalse = []"
| "placeholders (CIn e ns) = ns"
| "placeholders (CBetween e n m) = [n, m]"
| "placeholders (CIsNull e) = []"
| "placeholders (CIsNotNull e) = []"
| "placeholders (CKeyset es desc ns) = ns"

lemma jsonPath_Inr: "jsonPath f = Inr e \<Longrightarrow> e = Path (splitOn (CHR ''.'') f)"
  by (auto simp: jsonPath_def Let_def split: if_splits sum.splits)

lemmas op_defs = OpEq_def OpNe_def OpGt_def OpGte_def OpLt_def OpLte_def OpLike_def OpIn_def OpBetween_def OpIsNull_def OpIsNotNull_def
  binaryOps_def

lemma ops_distinct:
  "OpIn \<notin> set binaryOps" "OpBetween \<notin> set binaryOps" "OpIsNull \<notin> set binaryOps" "OpIsNotNull \<notin> set binaryOps"
  "OpIn \<noteq> OpBetween" "OpIn \<noteq> OpIsNull" "OpIn \<noteq> OpIsNotNull" "OpBetween \<noteq> OpIsNull" "OpBetween \<noteq> OpIsNotNull" "OpIsNull \<noteq> OpIsNotNull"
  by (simp_all add: op_defs)

text \<open>The five shapes of a compiled predicate.\<close>

lemma predClause_cases:
  assumes "predClause n p = Inr (c, args)"
  obtains (cmp) e v where "jsonPath (pr_Field p) = Inr e" "normOp (pr_Op p) \<in> set binaryOps" "pr_Values p = [v]"
      "c = CCmp e (normOp (pr_Op p)) (n + 1)" "args = [v]"
  | (empty_in) e where "jsonPath (pr_Field p) = Inr e" "normOp (pr_Op p) = OpIn" "pr_Values p = []" "c = CFalse" "args = []"
  | (in_list) e where "jsonPath (pr_Field p) = Inr e" "normOp (pr_Op p) = OpIn" "c = CIn e [n + 1 ..< n + 1 + length args]" "args = pr_Values p"
  | (between) e v w where "jsonPath (pr_Field p) = Inr e" "normOp (pr_Op p) = OpBetween" "pr_Values p = [v, w]" "c = CBetween e (n + 1) (n + 2)" "args = [v, w]"
  | (is_null) e where "jsonPath (pr_Field p) = Inr e" "normOp (pr_Op p) = OpIsNull" "c = CIsNull e" "args = []"
  | (not_null) e where "jsonPath (pr_Field p) = Inr e" "normOp (pr_Op p) = OpIsNotNull" "c = CIsNotNull e" "args = []"
proof -
  obtain e where e: "jsonPath (pr_Field p) = Inr e" using assms by (auto simp: predClause_def split: sum.splits)
  let ?op = "normOp (pr_Op p)" and ?vs = "pr_Values p"
  have F: "predClause n p =
     (if ?op \<in> set binaryOps then (if length ?vs \<noteq> 1 then Inl (NeedsOne ?op) else Inr (CCmp e ?op (n + 1), ?vs))
      else if ?op = OpIn then (if ?vs = [] then Inr (CFalse, []) else Inr (CIn e [n + 1 ..< n + 1 + length ?vs], ?vs))
      else if ?op = OpBetween then (if length ?vs \<noteq> 2 then Inl NeedsTwo else Inr (CBetween e (n + 1) (n + 2), ?vs))
      else if ?op = OpIsNull then Inr (CIsNull e, [])
      else if ?op = OpIsNotNull then Inr (CIsNotNull e, [])
      else Inl (UnsupportedOp (pr_Op p)))"
    unfolding predClause_def normOp_def Let_def e sum.case by simp
  consider "?op \<in> set binaryOps" | "?op = OpIn" "?op \<notin> set binaryOps" | "?op = OpBetween" "?op \<notin> set binaryOps" "?op \<noteq> OpIn"
    | "?op = OpIsNull" "?op \<notin> set binaryOps" "?op \<noteq> OpIn" "?op \<noteq> OpBetween"
    | "?op = OpIsNotNull" "?op \<notin> set binaryOps" "?op \<noteq> OpIn" "?op \<noteq> OpBetween" "?op \<noteq> OpIsNull"
    | "?op \<notin> set binaryOps" "?op \<noteq> OpIn" "?op \<noteq> OpBetween" "?op \<noteq> OpIsNull" "?op \<noteq> OpIsNotNull" by blast
  then show thesis
  proof cases
    case 1
    then have "length ?vs = 1" "c = CCmp e ?op (n + 1)" "args = ?vs" using assms unfolding F by (simp_all split: if_splits)
    moreover obtain v where "?vs = [v]" using \<open>length ?vs = 1\<close> by (cases ?vs) auto
    ultimately show ?thesis using cmp[OF e 1, of v] by simp
  next
    case 2
    show ?thesis
    proof (cases "?vs = []")
      case True
      then have "c = CFalse" "args = []" using assms 2 unfolding F by simp_all
      then show ?thesis using empty_in[OF e 2(1) True] by simp
    next
      case False
      then have "c = CIn e [n + 1 ..< n + 1 + length ?vs]" "args = ?vs" using assms 2 unfolding F by (auto simp del: upt_Suc)
      then show ?thesis using in_list[OF e 2(1)] by (simp del: upt_Suc)
    qed
  next
    case 3
    then have "length ?vs = 2" "c = CBetween e (n + 1) (n + 2)" "args = ?vs" using assms unfolding F by (simp_all split: if_splits)
    moreover obtain v w where "?vs = [v, w]" using \<open>length ?vs = 2\<close> by (auto simp: numeral_eq_Suc length_Suc_conv)
    ultimately show ?thesis using between[OF e 3(1), of v w] by simp
  next
    case 4
    then have "c = CIsNull e" "args = []" using assms unfolding F by simp_all
    then show ?thesis using is_null[OF e 4(1)] by simp
  next
    case 5
    then have "c = CIsNotNull e" "args = []" using assms unfolding F by simp_all
    then show ?thesis using not_null[OF e 5(1)] by simp
  next
    case 6
    then show ?thesis using assms unfolding F by simp
  qed
qed

lemma argAt_mid: "length pre = n \<Longrightarrow> i < length args \<Longrightarrow> argAt (pre @ args @ post) (Suc (n + i)) = args ! i"
  by (auto simp: argAt_def nth_append)

lemma argAt_range: "length pre = n \<Longrightarrow> map (argAt (pre @ args @ post)) [n + 1 ..< n + 1 + length args] = args"
  by (rule nth_equalityI) (auto simp: argAt_mid simp del: upt_Suc)

lemma predClause_means:
  assumes "predClause n p = Inr (c, args)" "length pre = n"
  shows "holdsClause db (pre @ args @ post) r c = Some True \<longleftrightarrow> predMeans db p r" "placeholders c = [n + 1 ..< n + 1 + length args]"
proof -
  have a0: "args \<noteq> [] \<Longrightarrow> argAt (pre @ args @ post) (n + 1) = args ! 0" using argAt_mid[OF assms(2), of 0 args post] by simp
  have a1: "length args = 2 \<Longrightarrow> argAt (pre @ args @ post) (n + 2) = args ! 1" using argAt_mid[OF assms(2), of 1 args post] by simp
  show "holdsClause db (pre @ args @ post) r c = Some True \<longleftrightarrow> predMeans db p r"
    using assms(1)
  proof (cases rule: predClause_cases)
    case (cmp e v)
    then have "normOp (pr_Op p) \<notin> {OpIn, OpBetween, OpIsNull, OpIsNotNull}" using ops_distinct by auto
    then show ?thesis using cmp a0 jsonPath_Inr[OF cmp(1)]
      by (auto simp: predMeans_def Let_def valOf_def split: option.splits)
  next
    case (empty_in e)
    then show ?thesis using ops_distinct by (auto simp: predMeans_def Let_def split: option.splits)
  next
    case (in_list e)
    then show ?thesis using ops_distinct argAt_range[OF assms(2), of args post] jsonPath_Inr[OF in_list(1)]
      by (auto simp: predMeans_def Let_def valOf_def split: option.splits simp del: upt_Suc)
  next
    case (between e v w)
    then show ?thesis using ops_distinct a0 a1 jsonPath_Inr[OF between(1)]
      by (auto simp: predMeans_def Let_def valOf_def split: option.splits)
  next
    case (is_null e)
    then show ?thesis using jsonPath_Inr[OF is_null(1)] by (auto simp: predMeans_def Let_def valOf_def)
  next
    case (not_null e)
    then show ?thesis using ops_distinct jsonPath_Inr[OF not_null(1)]
      by (auto simp: predMeans_def Let_def valOf_def split: option.splits)
  qed
  show "placeholders c = [n + 1 ..< n + 1 + length args]"
    using assms(1) by (cases rule: predClause_cases) (simp_all add: upt_rec)
qed

lemma buildWhere_means:
  "buildWhere ps n = Inr (cs, args) \<Longrightarrow> length pre = n \<Longrightarrow>
   (keepsRow db (pre @ args @ post) cs r \<longleftrightarrow> (\<forall>p \<in> set ps. predMeans db p r)) \<and>
   concat (map placeholders cs) = [n + 1 ..< n + 1 + length args]"
proof (induction ps arbitrary: n cs args pre)
  case (Cons p ps)
  obtain c a cs' a' where c: "predClause n p = Inr (c, a)" and b: "buildWhere ps (n + length a) = Inr (cs', a')"
    and eq: "cs = c # cs'" "args = a @ a'"
    using Cons.prems(1) by (auto split: sum.splits prod.splits)
  note P = predClause_means(1)[OF c Cons.prems(2), of db "a' @ post" r] predClause_means(2)[OF c Cons.prems(2)]
  have ih: "(keepsRow db ((pre @ a) @ a' @ post) cs' r \<longleftrightarrow> (\<forall>p \<in> set ps. predMeans db p r)) \<and>
      concat (map placeholders cs') = [n + length a + 1 ..< n + length a + 1 + length a']"
    using Cons.IH[OF b, of "pre @ a"] Cons.prems(2) by simp
  have "[n + 1 ..< n + 1 + length args] = [n + 1 ..< n + 1 + length a] @ [n + length a + 1 ..< n + length a + 1 + length a']"
    using upt_add_eq_append[of "n + 1" "n + 1 + length a" "length a'"] unfolding eq by (simp add: ac_simps del: upt_Suc)
  then show ?case using P ih eq by (simp add: keepsRow_def del: upt_Suc)
qed (simp add: keepsRow_def)

text \<open>C25: The condition the store sends means the predicates it was given. When a list of predicates compiles, its placeholders are numbered from one without
  gaps in the order of the bound arguments, and the server keeps a row under the text and arguments exactly when every predicate holds of the document, with
  SQL's treatment of a missing field: only an is-null test accepts it.
\<close>

theorem where_correct:
  assumes "buildWhere ps 0 = Inr (cs, args)"
  shows "concat (map placeholders cs) = [1 ..< 1 + length args] \<and> (keepsRow db args cs r \<longleftrightarrow> (\<forall>p \<in> set ps. predMeans db p r))"
  using buildWhere_means[OF assms, of "[]" db "[]" r] by simp

definition sampleQDb :: QDb where
  "sampleQDb = \<lparr>qd_text = (\<lambda>d ps. if ps = [''f''] \<and> d \<noteq> [] then Some d else None), qd_coll = (\<lambda>x. x), qd_like = (\<lambda>p x. p = x),
     qd_created = (\<lambda>i. (0, 0)), qd_fault = (\<lambda>t. None)\<rparr>"

definition samplePreds :: "Predicate list" where
  "samplePreds = [\<lparr>pr_Field = ''f'', pr_Op = ''in'', pr_Values = [''x'', ''y'']\<rparr>, \<lparr>pr_Field = ''f'', pr_Op = ''<='', pr_Values = [''x'']\<rparr>]"

theorem where_correct_witness:
  "keepsRow sampleQDb [''x'', ''y'', ''x''] [CIn (Path [''f'']) [1, 2], CCmp (Path [''f'']) ''<='' 3] (''1'', \<lparr>rw_data = ''x'', rw_version = 1\<rparr>)"
proof -
  have "buildWhere samplePreds 0 = Inr ([CIn (Path [''f'']) [1, 2], CCmp (Path [''f'']) ''<='' 3], [''x'', ''y'', ''x''])" by code_simp
  from where_correct[OF this, of sampleQDb "(''1'', \<lparr>rw_data = ''x'', rw_version = 1\<rparr>)"]
  have "keepsRow sampleQDb [''x'', ''y'', ''x''] [CIn (Path [''f'']) [1, 2], CCmp (Path [''f'']) ''<='' 3] (''1'', \<lparr>rw_data = ''x'', rw_version = 1\<rparr>) \<longleftrightarrow>
    (\<forall>p \<in> set samplePreds. predMeans sampleQDb p (''1'', \<lparr>rw_data = ''x'', rw_version = 1\<rparr>))" by blast
  moreover have "list_all (\<lambda>p. predMeans sampleQDb p (''1'', \<lparr>rw_data = ''x'', rw_version = 1\<rparr>)) samplePreds" by code_simp
  ultimately show ?thesis by (simp only: list_all_iff)
qed

section \<open>Nothing a plugin sends becomes SQL\<close>

text \<open>What of a request may shape the text: fields, operators, directions and how many values there are.\<close>

definition predShape :: "Predicate \<Rightarrow> string \<times> string \<times> nat" where
  "predShape p = (pr_Field p, pr_Op p, length (pr_Values p))"

definition textOf :: "(qry_err + Select \<times> string list) \<Rightarrow> string option" where
  "textOf r = (case r of Inl _ \<Rightarrow> None | Inr (q, _) \<Rightarrow> Some (selectText q))"

definition safeByte :: "char \<Rightarrow> bool" where
  "safeByte c = (identByte c \<or> c \<in> set '' (),$<>=!{}#-'' \<or> c = CHR 0x27)"

lemma predClause_shape:
  assumes "predShape p = predShape p'"
  shows "map_sum id (\<lambda>(c, args). (c, length args)) (predClause n p) = map_sum id (\<lambda>(c, args). (c, length args)) (predClause n p')"
  using assms by (auto simp: predShape_def predClause_def Let_def split: sum.splits)

lemma buildWhere_shape:
  "map predShape ps = map predShape ps' \<Longrightarrow>
   map_sum id (\<lambda>(cs, args). (cs, length args)) (buildWhere ps n) = map_sum id (\<lambda>(cs, args). (cs, length args)) (buildWhere ps' n)"
proof (induction ps arbitrary: ps' n)
  case (Cons p ps)
  then obtain p' qs where ps': "ps' = p' # qs" "predShape p = predShape p'" "map predShape ps = map predShape qs" by (cases ps') auto
  note S = predClause_shape[OF ps'(2), of n]
  show ?case
  proof (cases "predClause n p")
    case (Inl e)
    then show ?thesis using S ps'(1) by (cases "predClause n p'") auto
  next
    case (Inr y)
    obtain c a where y: "y = (c, a)" by (cases y)
    obtain a' where p': "predClause n p' = Inr (c, a')" "length a' = length a"
      using S Inr y by (cases "predClause n p'") auto
    from Cons.IH[OF ps'(3), of "n + length a"] show ?thesis
      using Inr y p' ps'(1) by (auto split: sum.splits prod.splits)
  qed
qed auto

lemma compileQuery_shape:
  assumes "map predShape (qo_Predicates o1) = map predShape (qo_Predicates o2)" "qo_Sort o1 = qo_Sort o2"
    "qo_Cursor o1 = [] \<longleftrightarrow> qo_Cursor o2 = []" "compileQuery qc t o1 = Inr (q1, a1)" "compileQuery qc t o2 = Inr (q2, a2)"
  shows "q1 = q2"
proof -
  obtain cs args1 where b1: "buildWhere (qo_Predicates o1) 0 = Inr (cs, args1)"
    using assms(4) by (auto simp: compileQuery_def split: sum.splits)
  obtain args2 where b2: "buildWhere (qo_Predicates o2) 0 = Inr (cs, args2)" "length args2 = length args1"
    using buildWhere_shape[OF assms(1), of 0] b1 by (cases "buildWhere (qo_Predicates o2) 0") auto
  obtain es d where s: "sortExprs None (qo_Sort o2) = Inr (es, d)"
    using assms(5) b2 by (auto simp: compileQuery_def split: sum.splits)
  show ?thesis
    using assms(2-5) b1 b2 s by (auto simp: compileQuery_def Let_def split: if_splits option.splits)
qed

lemma list_all_join: "list_all P sep \<Longrightarrow> (\<And>x. x \<in> set xs \<Longrightarrow> list_all P x) \<Longrightarrow> list_all P (joinWith sep xs)"
  by (induction sep xs rule: joinWith.induct) auto

lemma digitsOf_ident: "list_all identByte (digitsOf n)"
proof (induction n rule: digitsOf.induct)
  case (1 n)
  have d: "identByte (char_of (48 + m :: nat))" if "m < 10" for m
    using that by (simp add: identByte_def isDigit_def)
  show ?case
  proof (cases "n < 10")
    case True
    then show ?thesis using d[of n] by (simp add: digitsOf.simps[of n])
  next
    case False
    then show ?thesis using 1 d[of "n mod 10"] by (simp add: digitsOf.simps[of n])
  qed
qed

lemma identifierRE_bytes: "identifierRE s \<Longrightarrow> list_all identByte s"
  by (auto simp: identifierRE_def identByte_def split: list.splits)

definition pathOk :: "expr \<Rightarrow> bool" where
  "pathOk e = (case e of Path ps \<Rightarrow> ps \<noteq> [] \<and> list_all identifierRE ps)"

lemma foldRes_validate: "foldRes (\<lambda>u p. ValidateIdentifier p) u ps = Inr v \<Longrightarrow> list_all identifierRE ps"
  by (induction ps arbitrary: u) (auto simp: ValidateIdentifier_def split: sum.splits if_splits)

lemma jsonPath_ok: "jsonPath f = Inr e \<Longrightarrow> pathOk e"
  by (auto simp: jsonPath_def Let_def pathOk_def dest: foldRes_validate split: if_splits sum.splits)

fun clauseOk :: "clause \<Rightarrow> bool" where
  "clauseOk (CCmp e op n) = (pathOk e \<and> op \<in> set binaryOps)"
| "clauseOk CFalse = True"
| "clauseOk (CIn e ns) = pathOk e"
| "clauseOk (CBetween e n m) = pathOk e"
| "clauseOk (CIsNull e) = pathOk e"
| "clauseOk (CIsNotNull e) = pathOk e"
| "clauseOk (CKeyset es desc ns) = list_all pathOk es"

lemma predClause_ok: "predClause n p = Inr (c, args) \<Longrightarrow> clauseOk c"
  by (erule predClause_cases) (simp_all add: jsonPath_ok)

lemma buildWhere_ok: "buildWhere ps n = Inr (cs, args) \<Longrightarrow> list_all clauseOk cs"
  by (induction ps arbitrary: n cs args) (auto split: sum.splits prod.splits dest: predClause_ok)

lemma sortExprs_ok: "sortExprs d ss = Inr (es, d') \<Longrightarrow> list_all pathOk es"
  by (induction ss arbitrary: d es) (auto split: sum.splits prod.splits if_splits dest: jsonPath_ok)

lemma safe_ident: "list_all identByte s \<Longrightarrow> list_all safeByte s"
  by (auto simp: list_all_iff safeByte_def)

lemma safe_literals:
  "list_all safeByte ''(data->>''" "list_all safeByte ''(data#>>''" "list_all safeByte '')''" "list_all safeByte [CHR 0x27]"
  "list_all safeByte '' ''" "list_all safeByte ''{''" "list_all safeByte ''}''" "list_all safeByte '',''" "list_all safeByte '' IN (''"
  "list_all safeByte '', ''" "list_all safeByte '' BETWEEN ''" "list_all safeByte '' AND ''" "list_all safeByte '' IS NULL''"
  "list_all safeByte '' IS NOT NULL''" "list_all safeByte ''(''" "list_all safeByte ''id''" "list_all safeByte '') ''" "list_all safeByte '' (''"
  "list_all safeByte ''<''" "list_all safeByte ''>''" "list_all safeByte ''FALSE''" "list_all safeByte ''$''" "list_all safeByte '' WHERE ''"
  "list_all safeByte ''SELECT id, data FROM ''" "list_all safeByte '' ORDER BY ''" "list_all safeByte '' DESC''" "list_all safeByte '' ASC''"
  "list_all safeByte '' LIMIT ''" "list_all (list_all safeByte) binaryOps" "list_all safeByte ''ext_''" "list_all safeByte ''_''"
  by code_simp+

lemma ph_safe: "list_all safeByte (ph n)"
  unfolding ph_def list_all_append using safe_literals(22) safe_ident[OF digitsOf_ident] by blast

lemma exprText_safe:
  assumes "pathOk e"
  shows "list_all safeByte (exprText e)"
proof -
  obtain ps where ps: "e = Path ps" "ps \<noteq> []" "\<And>p. p \<in> set ps \<Longrightarrow> list_all safeByte p"
    using assms safe_ident[OF identifierRE_bytes] by (cases e) (auto simp: pathOk_def list_all_iff[of identifierRE])
  have j: "list_all safeByte (joinWith '','' ps)" by (rule list_all_join[OF safe_literals(8) ps(3)])
  show ?thesis
  proof (cases "tl ps")
    case Nil
    then obtain p where "ps = [p]" using ps(2) by (cases ps) auto
    then show ?thesis unfolding ps(1) using ps(3)[of p] by (simp only: exprText.simps list_all_append safe_literals; simp)
  next
    case (Cons q qs)
    then obtain p where "ps = p # q # qs" using ps(2) by (cases ps) auto
    then show ?thesis unfolding ps(1) using j by (simp only: exprText.simps list_all_append safe_literals; simp)
  qed
qed

lemma exprs_safe: "list_all pathOk es \<Longrightarrow> x \<in> set (map exprText es) \<Longrightarrow> list_all safeByte x"
  using exprText_safe by (auto simp: list_all_iff[of pathOk])

lemma clauseText_safe: "clauseOk c \<Longrightarrow> list_all safeByte (clauseText c)"
proof (induction c rule: clauseOk.induct)
  case (1 e op n)
  then have "list_all safeByte op" using safe_literals(29) by (auto simp: list_all_iff[of "list_all safeByte"])
  then show ?case using 1 exprText_safe[of e] ph_safe[of n] by (simp only: clauseText.simps clauseOk.simps list_all_append safe_literals; simp)
next
  case (3 e ns)
  have "list_all safeByte (joinWith '', '' (map ph ns))" by (rule list_all_join[OF safe_literals(10)]) (auto simp: ph_safe)
  then show ?case using 3 exprText_safe[of e] by (simp only: clauseText.simps clauseOk.simps list_all_append safe_literals; simp)
next
  case (7 es desc ns)
  have "list_all safeByte (joinWith '', '' (map ph ns))" by (rule list_all_join[OF safe_literals(10)]) (auto simp: ph_safe)
  moreover have "list_all safeByte (joinWith '', '' (map exprText es @ [''id'']))"
    using 7 by (intro list_all_join[OF safe_literals(10)]) (auto simp: exprs_safe safe_literals(16) simp del: list.pred_inject)
  moreover have "list_all safeByte (if desc then ''<'' else ''>'')" using safe_literals(19,20) by (cases desc) simp_all
  ultimately show ?case by (simp only: clauseText.simps list_all_append safe_literals; simp)
qed (simp_all only: clauseText.simps clauseOk.simps list_all_append safe_literals exprText_safe ph_safe simp_thms)

lemma tableName_safe: "tableName k c = Inr t \<Longrightarrow> list_all safeByte t"
  by (auto simp: tableName_def Let_def bindRes_def ValidateIdentifier_def list_all_append safe_literals
      intro!: safe_ident dest!: identifierRE_bytes split: sum.splits if_splits) (simp_all add: identByte_def isDigit_def isLetter_def)

lemma compileQuery_ok:
  assumes "compileQuery qc t opts = Inr (q, args)"
  shows "list_all clauseOk (se_where q) \<and> list_all pathOk (se_order q) \<and> se_table q = t"
  using assms buildWhere_ok sortExprs_ok
  by (auto simp: compileQuery_def Let_def split: sum.splits prod.splits if_splits option.splits)

lemma dirText_safe: "list_all safeByte (dirText d)"
  using safe_literals(26,27) by (cases d) (simp_all only: dirText_def if_True if_False)

lemma whereText_safe:
  assumes "list_all clauseOk cs"
  shows "list_all safeByte (whereText cs)"
proof (cases "cs = []")
  case False
  have "list_all safeByte (joinWith '' AND '' (map clauseText cs))"
    using assms clauseText_safe by (intro list_all_join[OF safe_literals(12)]) (auto simp: list_all_iff[of clauseOk])
  then show ?thesis using False by (simp only: whereText_def if_False list_all_append safe_literals; simp)
qed (simp add: whereText_def)

lemma selectText_safe:
  assumes "list_all clauseOk (se_where q)" "list_all pathOk (se_order q)" "list_all safeByte (se_table q)"
  shows "list_all safeByte (selectText q)"
proof -
  have "list_all safeByte (joinWith '', '' (map (\<lambda>e. exprText e @ dirText (se_desc q)) (se_order q) @ [''id'' @ dirText (se_desc q)]))"
    (is "list_all _ (joinWith _ ?xs)")
  proof (rule list_all_join[OF safe_literals(10)])
    fix x assume "x \<in> set ?xs"
    then consider e where "e \<in> set (se_order q)" "x = exprText e @ dirText (se_desc q)" | "x = ''id'' @ dirText (se_desc q)" by auto
    then show "list_all safeByte x"
      using assms(2) exprText_safe dirText_safe safe_literals(16)
      by cases (auto simp only: list_all_append list_all_iff[of pathOk])
  qed
  then show ?thesis using assms(3) whereText_safe[OF assms(1)] ph_safe by (simp only: selectText_def list_all_append safe_literals; simp)
qed

text \<open>C24: Nothing a plugin sends is interpolated into a query unchecked. Every byte of the statement is a letter, a digit, an underscore or one of the
  punctuation bytes the templates themselves use, so no statement separator, backslash or double quote can appear; and two requests that agree on fields,
  operators, sort order and the number of values produce the same text whatever the values and the cursor hold, so values travel only as bound arguments.
\<close>

theorem query_text_safe:
  assumes "tableName extKey collection = Inr table" "compileQuery qc table o1 = Inr (q1, a1)" "compileQuery qc table o2 = Inr (q2, a2)"
    "map predShape (qo_Predicates o1) = map predShape (qo_Predicates o2)" "qo_Sort o1 = qo_Sort o2" "(qo_Cursor o1 = []) = (qo_Cursor o2 = [])"
  shows "selectText q1 = selectText q2 \<and> list_all safeByte (selectText q1)"
  using compileQuery_shape[OF assms(4-6,2,3)] compileQuery_ok[OF assms(2)] selectText_safe[of q1] tableName_safe[OF assms(1)] by simp

text \<open>A reversible cursor encoding: every byte behind a mark, every text closed by another.\<close>

primrec packText :: "string \<Rightarrow> string" where
  "packText [] = ''.''"
| "packText (c # cs) = CHR '':'' # c # packText cs"

fun unpackText :: "string \<Rightarrow> (string \<times> string) option" where
  "unpackText (m # cs) =
     (if m = CHR ''.'' then Some ([], cs)
      else case cs of [] \<Rightarrow> None | c # ds \<Rightarrow> map_option (\<lambda>(x, rest). (c # x, rest)) (unpackText ds))"
| "unpackText [] = None"

primrec unpackAll :: "nat \<Rightarrow> string \<Rightarrow> string list option" where
  "unpackAll 0 s = None"
| "unpackAll (Suc n) s =
     (if s = [] then Some [] else Option.bind (unpackText s) (\<lambda>(x, rest). map_option ((#) x) (unpackAll n rest)))"

definition sampleCodec :: QCodec where
  "sampleCodec = \<lparr>qc_json = (\<lambda>d. Some [(''f'', JStr d)]), qc_marshal = (\<lambda>m. []),
     qc_encode = (\<lambda>c. packText (cu_ID c) @ concat (map packText (cu_Keys c))),
     qc_decode = (\<lambda>s. Option.bind (unpackAll (Suc (length s)) s) (\<lambda>xs. case xs of [] \<Rightarrow> None | i # ks \<Rightarrow> Some \<lparr>cu_Keys = ks, cu_ID = i\<rparr>))\<rparr>"

lemma unpackText_pack: "unpackText (packText s @ rest) = Some (s, rest)"
  by (induction s) simp_all

lemma packText_length [simp]: "packText s \<noteq> []" "length s < length (packText s)"
  by (induction s) simp_all

lemma unpackAll_pack: "length xs < n \<Longrightarrow> unpackAll n (concat (map packText xs)) = Some xs"
proof (induction n arbitrary: xs)
  case (Suc n)
  then show ?case by (cases xs) (simp_all add: unpackText_pack)
qed simp

lemma concat_pack_length: "length xs \<le> length (concat (map packText xs))"
proof (induction xs)
  case (Cons x xs)
  moreover have "1 \<le> length (packText x)" by (cases x) simp_all
  ultimately show ?case by simp
qed simp

lemma sampleCodec_reversible:
  "qc_decode sampleCodec (qc_encode sampleCodec cur) = Some cur" "qc_encode sampleCodec cur \<noteq> []"
proof -
  have "qc_encode sampleCodec cur = concat (map packText (cu_ID cur # cu_Keys cur))" by (simp add: sampleCodec_def)
  moreover have "unpackAll (Suc (length (concat (map packText (cu_ID cur # cu_Keys cur))))) (concat (map packText (cu_ID cur # cu_Keys cur))) = Some (cu_ID cur # cu_Keys cur)"
    by (rule unpackAll_pack) (use concat_pack_length[of "cu_ID cur # cu_Keys cur"] in linarith)
  ultimately show "qc_decode sampleCodec (qc_encode sampleCodec cur) = Some cur" by (simp add: sampleCodec_def del: unpackAll.simps)
qed (simp add: sampleCodec_def)

definition sampleQuery :: "string list \<Rightarrow> string \<Rightarrow> bool \<Rightarrow> QueryOptions" where
  "sampleQuery vals cur desc = \<lparr>qo_Predicates = [\<lparr>pr_Field = ''f'', pr_Op = ''in'', pr_Values = vals\<rparr>],
     qo_Sort = [\<lparr>sf_Field = ''f'', sf_Descending = desc\<rparr>], qo_Limit = 1, qo_Cursor = cur\<rparr>"

theorem query_text_safe_witness:
  "\<exists>q1 q2 a1 a2. compileQuery sampleCodec ''ext_crm_eu_leads'' (sampleQuery [''x'', ''y''] [] False) = Inr (q1, a1) \<and>
     compileQuery sampleCodec ''ext_crm_eu_leads'' (sampleQuery ['');--'', ''drop''] [] False) = Inr (q2, a2) \<and>
     a1 \<noteq> a2 \<and> selectText q1 = selectText q2 \<and> list_all safeByte (selectText q1)"
proof -
  let ?o1 = "sampleQuery [''x'', ''y''] [] False" and ?o2 = "sampleQuery ['');--'', ''drop''] [] False"
  define c1 where "c1 = projr (compileQuery sampleCodec ''ext_crm_eu_leads'' ?o1)"
  define c2 where "c2 = projr (compileQuery sampleCodec ''ext_crm_eu_leads'' ?o2)"
  have c1: "compileQuery sampleCodec ''ext_crm_eu_leads'' ?o1 = Inr (fst c1, snd c1)" and c2: "compileQuery sampleCodec ''ext_crm_eu_leads'' ?o2 = Inr (fst c2, snd c2)"
    and d: "snd c1 \<noteq> snd c2" and t: "tableName ''crm'' ''eu_leads'' = Inr ''ext_crm_eu_leads''"
    and sh: "map predShape (qo_Predicates ?o1) = map predShape (qo_Predicates ?o2)" "qo_Sort ?o1 = qo_Sort ?o2" "(qo_Cursor ?o1 = []) = (qo_Cursor ?o2 = [])"
    unfolding c1_def c2_def by code_simp+
  from query_text_safe[OF t c1 c2 sh] c1 c2 d show ?thesis by blast
qed

section \<open>Pages\<close>

definition matches :: "QDb \<Rightarrow> Predicate list \<Rightarrow> docRow list \<Rightarrow> docRow list" where
  "matches db ps rows = filter (\<lambda>r. list_all (\<lambda>p. predMeans db p r) ps) rows"

definition inOrder :: "QDb \<Rightarrow> expr list \<Rightarrow> bool \<Rightarrow> docRow list \<Rightarrow> docRow list" where
  "inOrder db es desc rows = (let asc = sort_key (orderKey db es) rows in if desc then rev asc else asc)"

text \<open>A caller that follows the cursors until a page says there is no more.\<close>

fun allPages :: "nat \<Rightarrow> Pg \<Rightarrow> QDb \<Rightarrow> QCodec \<Rightarrow> string \<Rightarrow> string \<Rightarrow> QueryOptions \<Rightarrow> Store \<Rightarrow> (qry_err + string list) option" where
  "allPages 0 pg db qc k c opts s = None"
| "allPages (Suc fuel) pg db qc k c opts s =
     (case Query pg db qc k c opts s of
        Inl e \<Rightarrow> Some (Inl e)
      | Inr res \<Rightarrow>
          if qr_HasMore res
          then map_option (map_sum id (\<lambda>ids. qr_IDs res @ ids)) (allPages fuel pg db qc k c (opts\<lparr>qo_Cursor := qr_NextCursor res\<rparr>) s)
          else Some (Inr (qr_IDs res)))"

definition keysKnown :: "QDb \<Rightarrow> QCodec \<Rightarrow> SortField list \<Rightarrow> docRow \<Rightarrow> bool" where
  "keysKnown db qc sorts r =
     (case sortKeysOf qc (rw_data (snd r)) sorts of
        Inl _ \<Rightarrow> False
      | Inr ks \<Rightarrow> map (\<lambda>s. qd_text db (rw_data (snd r)) (splitOn (CHR ''.'') (sf_Field s))) sorts = map Some ks)"

definition keysOf :: "QCodec \<Rightarrow> SortField list \<Rightarrow> docRow \<Rightarrow> string list" where
  "keysOf qc sorts r = (case sortKeysOf qc (rw_data (snd r)) sorts of Inl _ \<Rightarrow> [] | Inr ks \<Rightarrow> ks)"

definition fullKey :: "QDb \<Rightarrow> QCodec \<Rightarrow> SortField list \<Rightarrow> docRow \<Rightarrow> string list" where
  "fullKey db qc sorts r = map (qd_coll db) (keysOf qc sorts r @ [fst r])"

lemma sortExprs_paths: "sortExprs d ss = Inr (es, d') \<Longrightarrow> es = map (\<lambda>s. Path (splitOn (CHR ''.'') (sf_Field s))) ss"
  by (induction ss arbitrary: d es) (auto split: sum.splits prod.splits if_splits dest: jsonPath_Inr)

lemma keysKnown_vals:
  assumes "keysKnown db qc sorts r" "es = map (\<lambda>s. Path (splitOn (CHR ''.'') (sf_Field s))) sorts"
  shows "map (valOf db r) es = map Some (keysOf qc sorts r)" "sortKeysOf qc (rw_data (snd r)) sorts = Inr (keysOf qc sorts r)"
  using assms by (auto simp: keysKnown_def keysOf_def valOf_def comp_def split: sum.splits)

lemma map_Pair_less: "map (Pair (0::nat)) xs < map (Pair 0) ys \<longleftrightarrow> xs < (ys :: string list)"
proof (induction xs arbitrary: ys)
  case Nil
  show ?case by (cases ys) simp_all
next
  case (Cons x xs)
  then show ?case by (cases ys) auto
qed

lemma orderKey_fullKey:
  assumes "keysKnown db qc sorts r" "es = map (\<lambda>s. Path (splitOn (CHR ''.'') (sf_Field s))) sorts"
  shows "orderKey db es r = map (Pair 0) (fullKey db qc sorts r)"
proof -
  have "orderKey db es r = map (nullKey db) (map (valOf db r) es @ [Some (fst r)])" by (simp add: orderKey_def)
  then show ?thesis unfolding keysKnown_vals(1)[OF assms] by (simp add: fullKey_def nullKey_def)
qed

lemma rowCmp_keys:
  assumes "inj (qd_coll db)"
  shows "length xs = length ys \<Longrightarrow>
    rowCmp db desc (map Some xs) ys = Some (if desc then map (qd_coll db) xs < map (qd_coll db) ys else map (qd_coll db) ys < map (qd_coll db) xs)"
proof (induction xs ys rule: list_induct2)
  case (Cons x xs y ys)
  have "x \<noteq> y \<Longrightarrow> qd_coll db x \<noteq> qd_coll db y" using assms by (auto dest: injD)
  then show ?case using Cons.IH by auto
qed simp

text \<open>On a list in strict order, the elements beyond the one at a position are the rest of the list.\<close>

lemma filter_beyond:
  assumes "sorted_wrt R L" "\<And>x. x \<in> set L \<Longrightarrow> \<not> R x x" "\<And>x y. R x y \<Longrightarrow> x \<in> set L \<Longrightarrow> y \<in> set L \<Longrightarrow> \<not> R y x" "j < length L"
  shows "filter (R (L ! j)) L = drop (Suc j) L"
proof -
  have L: "L = take j L @ L ! j # drop (Suc j) L" using assms(4) by (rule id_take_nth_drop)
  have "sorted_wrt R (take j L @ L ! j # drop (Suc j) L)" using assms(1) L by simp
  then have s: "\<forall>x \<in> set (take j L). R x (L ! j)" "\<forall>x \<in> set (drop (Suc j) L). R (L ! j) x" by (auto simp: sorted_wrt_append)
  have m: "L ! j \<in> set L" using assms(4) by simp
  have "filter (R (L ! j)) (take j L) = []"
    using s(1) assms(3) m by (auto simp: filter_empty_conv dest: in_set_takeD)
  moreover have "filter (R (L ! j)) (drop (Suc j) L) = drop (Suc j) L" using s(2) by (simp add: filter_id_conv)
  moreover have "\<not> R (L ! j) (L ! j)" using assms(2)[OF m] .
  ultimately have "filter (R (L ! j)) (take j L @ L ! j # drop (Suc j) L) = drop (Suc j) L" by simp
  then show ?thesis using L by simp
qed

lemma sorted_strict:
  assumes "distinct (map f xs)"
  shows "sorted_wrt (\<lambda>x y. f x < f y) (sort_key f xs)"
proof -
  have "distinct (map f (sort_key f xs))"
    using assms by (simp add: distinct_map)
  moreover have "sorted (map f (sort_key f xs))" by simp
  ultimately have "sorted_wrt (<) (map f (sort_key f xs))" by (simp add: strict_sorted_iff)
  then show ?thesis by (simp add: sorted_wrt_map)
qed

text \<open>The order of a page sequence, and what lies beyond a row in it.\<close>

definition beyond :: "QDb \<Rightarrow> expr list \<Rightarrow> bool \<Rightarrow> string list \<Rightarrow> docRow \<Rightarrow> bool" where
  "beyond db es desc ks r = (rowCmp db desc (map (valOf db r) es @ [Some (fst r)]) ks = Some True)"

lemma beyond_fullKey:
  assumes "inj (qd_coll db)" "es = map (\<lambda>s. Path (splitOn (CHR ''.'') (sf_Field s))) sorts" "keysKnown db qc sorts r" "keysKnown db qc sorts r'"
  shows "beyond db es desc (keysOf qc sorts r @ [fst r]) r' =
    (if desc then fullKey db qc sorts r' < fullKey db qc sorts r else fullKey db qc sorts r < fullKey db qc sorts r')"
proof -
  have l: "length (keysOf qc sorts r') = length (keysOf qc sorts r)"
    using arg_cong[OF keysKnown_vals(1)[OF assms(3,2)], of length] arg_cong[OF keysKnown_vals(1)[OF assms(4,2)], of length] by simp
  have "map (valOf db r') es @ [Some (fst r')] = map Some (keysOf qc sorts r' @ [fst r'])"
    using keysKnown_vals(1)[OF assms(4,2)] by simp
  then show ?thesis
    using rowCmp_keys[OF assms(1), of "keysOf qc sorts r' @ [fst r']" "keysOf qc sorts r @ [fst r]" desc] l
    by (simp add: beyond_def fullKey_def)
qed

lemma inOrder_set [simp]: "set (inOrder db es desc rows) = set rows" "length (inOrder db es desc rows) = length rows"
  by (simp_all add: inOrder_def Let_def)

lemma inOrder_filter: "inOrder db es desc (filter P rows) = filter P (inOrder db es desc rows)"
  by (simp add: inOrder_def Let_def filter_sort rev_filter[symmetric])

lemma inOrder_rest:
  assumes "inj (qd_coll db)" "es = map (\<lambda>s. Path (splitOn (CHR ''.'') (sf_Field s))) sorts" "\<And>r. r \<in> set rows \<Longrightarrow> keysKnown db qc sorts r"
    "distinct (map fst rows)" "j < length rows"
    and L_def: "L = inOrder db es desc rows"
  shows "filter (beyond db es desc (keysOf qc sorts (L ! j) @ [fst (L ! j)])) L = drop (Suc j) L"
proof -
  let ?R = "\<lambda>r r'. beyond db es desc (keysOf qc sorts r @ [fst r]) r'"
  note B = beyond_fullKey[OF assms(1,2)]
  have k: "keysKnown db qc sorts r" if "r \<in> set L" for r using that assms(3) by (simp add: L_def)
  have "inj_on (fullKey db qc sorts) (set rows)"
  proof (rule inj_onI)
    fix r r' assume m: "r \<in> set rows" "r' \<in> set rows" and e: "fullKey db qc sorts r = fullKey db qc sorts r'"
    have "fst r = fst r'" using e assms(1) by (auto simp: fullKey_def dest: injD)
    then show "r = r'" using m assms(4) by (auto simp: distinct_map dest: inj_onD)
  qed
  then have "inj_on (orderKey db es) (set rows)"
    using orderKey_fullKey[OF assms(3) assms(2)] by (auto simp: inj_on_def)
  then have "distinct (map (orderKey db es) rows)" using assms(4) by (simp add: distinct_map)
  then have "sorted_wrt (\<lambda>x y. orderKey db es x < orderKey db es y) (sort_key (orderKey db es) rows)" by (rule sorted_strict)
  then have asc: "sorted_wrt (\<lambda>x y. fullKey db qc sorts x < fullKey db qc sorts y) (sort_key (orderKey db es) rows)"
    by (rule sorted_wrt_mono_rel[rotated]) (simp add: orderKey_fullKey[OF assms(3) assms(2)] map_Pair_less)
  have "sorted_wrt ?R L"
  proof (cases desc)
    case True
    have "sorted_wrt (\<lambda>x y. fullKey db qc sorts y < fullKey db qc sorts x) L"
      using asc True by (simp add: L_def inOrder_def sorted_wrt_rev)
    then show ?thesis by (rule sorted_wrt_mono_rel[rotated]) (simp add: B k True)
  next
    case False
    have "sorted_wrt (\<lambda>x y. fullKey db qc sorts x < fullKey db qc sorts y) L"
      using asc False by (simp add: L_def inOrder_def)
    then show ?thesis by (rule sorted_wrt_mono_rel[rotated]) (simp add: B k False)
  qed
  then show ?thesis
  proof (rule filter_beyond)
    fix x assume "x \<in> set L"
    then show "\<not> ?R x x" by (simp add: B k)
  next
    fix x y assume "?R x y" "x \<in> set L" "y \<in> set L"
    then show "\<not> ?R y x" by (auto simp: B k split: if_splits dest: less_not_sym)
  next
    show "j < length L" using assms(5) by (simp add: L_def)
  qed
qed

text \<open>What the statement of a request selects, without and with a cursor.\<close>

lemma runSelect_first:
  assumes "compileQuery qc t opts = Inr (q, args)" "qo_Cursor opts = []" "sortExprs None (qo_Sort opts) = Inr (es, desc)"
  shows "runSelect db q args lim tb = take lim (inOrder db es desc (matches db (qo_Predicates opts) tb))"
proof -
  obtain cs where b: "buildWhere (qo_Predicates opts) 0 = Inr (cs, args)"
    and q: "q = \<lparr>se_table = t, se_where = cs, se_order = es, se_desc = desc, se_limitPh = length args + 1\<rparr>"
    using assms by (auto simp: compileQuery_def split: sum.splits)
  have "keepsRow db args cs = (\<lambda>r. list_all (\<lambda>p. predMeans db p r) (qo_Predicates opts))"
    using buildWhere_means[OF b, of "[]" db "[]"] by (auto simp: list_all_iff)
  then show ?thesis by (simp add: runSelect_def q inOrder_def matches_def Let_def)
qed

lemma runSelect_after:
  assumes "compileQuery qc t opts = Inr (q, args)" "qo_Cursor opts \<noteq> []" "sortExprs None (qo_Sort opts) = Inr (es, desc)"
    "qc_decode qc (qo_Cursor opts) = Some cur"
  shows "runSelect db q args lim tb =
    take lim (inOrder db es desc (filter (beyond db es desc (cu_Keys cur @ [cu_ID cur])) (matches db (qo_Predicates opts) tb)))"
proof -
  obtain cs a where b: "buildWhere (qo_Predicates opts) 0 = Inr (cs, a)"
    using assms by (auto simp: compileQuery_def split: sum.splits)
  let ?c = "CKeyset es desc [length a + 1 ..< length a + 1 + length (cu_Keys cur) + 1]"
  have q: "args = a @ cu_Keys cur @ [cu_ID cur]" "se_where q = cs @ [?c]" "se_order q = es" "se_desc q = desc"
    using assms b by (auto simp: compileQuery_def Let_def split: if_splits simp del: upt_Suc)
  have k: "keepsRow db args cs r \<longleftrightarrow> list_all (\<lambda>p. predMeans db p r) (qo_Predicates opts)" for r
    using buildWhere_means[OF b, of "[]" db "cu_Keys cur @ [cu_ID cur]" r] q(1) by (simp add: list_all_iff)
  have m: "map (argAt args) [length a + 1 ..< length a + 1 + length (cu_Keys cur) + 1] = cu_Keys cur @ [cu_ID cur]"
    using argAt_range[of a "length a" "cu_Keys cur @ [cu_ID cur]" "[]"] q(1) by (simp del: upt_Suc)
  have "keepsRow db args (cs @ [?c]) r \<longleftrightarrow> list_all (\<lambda>p. predMeans db p r) (qo_Predicates opts) \<and> beyond db es desc (cu_Keys cur @ [cu_ID cur]) r" for r
    using k[of r] m by (simp add: keepsRow_def beyond_def del: upt_Suc)
  then have "filter (keepsRow db args (cs @ [?c])) tb = filter (beyond db es desc (cu_Keys cur @ [cu_ID cur])) (matches db (qo_Predicates opts) tb)"
    unfolding matches_def filter_filter by (intro filter_cong) (auto simp del: upt_Suc)
  then show ?thesis by (simp add: runSelect_def q(2-4) inOrder_def Let_def del: upt_Suc)
qed

lemma clampLimit_range: "1 \<le> clampLimit n \<and> clampLimit n \<le> 1000"
  by (auto simp: clampLimit_def Let_def DefaultQueryLimit_def MaxQueryLimit_def)

text \<open>Everything a page sequence relies on.\<close>

definition pageable :: "Pg \<Rightarrow> QDb \<Rightarrow> QCodec \<Rightarrow> string \<Rightarrow> string \<Rightarrow> QueryOptions \<Rightarrow> Store \<Rightarrow> docRow list \<Rightarrow> bool" where
  "pageable pg db qc k c opts s tb = (case tableName k c of
     Inl _ \<Rightarrow> False
   | Inr table \<Rightarrow> map_of (st_tables s) (pg_ident pg table) = Some tb \<and> distinct (map fst tb) \<and>
       list_all (\<lambda>r. fst r \<noteq> []) tb \<and> list_all (keysKnown db qc (qo_Sort opts)) (matches db (qo_Predicates opts) tb) \<and>
       (case buildWhere (qo_Predicates opts) 0 of Inl _ \<Rightarrow> False | Inr _ \<Rightarrow> True) \<and>
       (case sortExprs None (qo_Sort opts) of Inl _ \<Rightarrow> False | Inr _ \<Rightarrow> True))"

lemma Query_page:
  assumes p: "pageable pg db qc k c opts s tb" and so: "sortExprs None (qo_Sort opts) = Inr (es, desc)"
    and f: "\<And>t. qd_fault db t = None"
    and c: "compileQuery qc t opts = Inr (q, args)" "tableName k c = Inr t"
    and r: "\<And>lim. runSelect db q args lim tb = take lim (drop n L)" and L: "set L \<subseteq> set (matches db (qo_Predicates opts) tb)"
    and lim: "lim = nat (clampLimit (qo_Limit opts))"
  shows "if n + lim < length L
    then Query pg db qc k c opts s = Inr \<lparr>qr_Documents = map (\<lambda>r. rw_data (snd r)) (take lim (drop n L)), qr_IDs = map fst (take lim (drop n L)),
           qr_NextCursor = qc_encode qc \<lparr>cu_Keys = keysOf qc (qo_Sort opts) (L ! (n + lim - 1)), cu_ID = fst (L ! (n + lim - 1))\<rparr>, qr_HasMore = True\<rparr>
    else Query pg db qc k c opts s = Inr \<lparr>qr_Documents = map (\<lambda>r. rw_data (snd r)) (drop n L), qr_IDs = map fst (drop n L), qr_NextCursor = [], qr_HasMore = False\<rparr>"
proof -
  have tb: "map_of (st_tables s) (pg_ident pg t) = Some tb" using p c(2) by (simp add: pageable_def)
  have q: "queryTable pg db (selectText q) t s = Inr tb" by (simp add: queryTable_def f tb)
  have l1: "1 \<le> lim" using clampLimit_range[of "qo_Limit opts"] lim by linarith
  note U = Query_def c(2) c(1) q r Let_def lim[symmetric] sum.case prod.case
  show ?thesis
  proof (cases "n + lim < length L")
    case True
    have lp: "last (take lim (take (lim + 1) (drop n L))) = L ! (n + lim - 1)"
      using True l1 by (subst last_conv_nth) (auto simp: min_def)
    have m: "L ! (n + lim - 1) \<in> set (matches db (qo_Predicates opts) tb)" using L True l1 by (auto intro!: nth_mem subsetD[OF L])
    then have ne: "fst (L ! (n + lim - 1)) \<noteq> []" using p c(2) by (auto simp: pageable_def list_all_iff matches_def)
    have "list_all (keysKnown db qc (qo_Sort opts)) (matches db (qo_Predicates opts) tb)" using p c(2) by (simp add: pageable_def)
    then have kk: "keysKnown db qc (qo_Sort opts) (L ! (n + lim - 1))" using m by (simp only: list_all_iff)
    have sk: "sortKeysOf qc (rw_data (snd (L ! (n + lim - 1)))) (qo_Sort opts) = Inr (keysOf qc (qo_Sort opts) (L ! (n + lim - 1)))"
      by (rule keysKnown_vals(2)[OF kk refl])
    have h: "lim < length (take (lim + 1) (drop n L))" using True by simp
    have t: "take lim (take (lim + 1) (drop n L)) = take lim (drop n L)" by (simp add: min_def)
    show ?thesis unfolding U lp using True h ne sk by (simp add: t)
  next
    case False
    then have h: "\<not> lim < length (take (lim + 1) (drop n L))" by simp
    have t: "take lim (take (lim + 1) (drop n L)) = drop n L" using False by simp
    show ?thesis unfolding U using False h by (simp add: t)
  qed
qed

lemma allPages_from:
  assumes p: "pageable pg db qc k c opts s tb" and so: "sortExprs None (qo_Sort opts) = Inr (es, desc)"
    and f: "\<And>t. qd_fault db t = None" and co: "\<And>cur. qc_decode qc (qc_encode qc cur) = Some cur" "\<And>cur. qc_encode qc cur \<noteq> []"
    and i: "inj (qd_coll db)"
    and L: "L = inOrder db es desc (matches db (qo_Predicates opts) tb)" and lim: "lim = nat (clampLimit (qo_Limit opts))"
  shows "n \<le> length L \<Longrightarrow> length L - n < fuel \<Longrightarrow>
    n = 0 \<and> cu = [] \<or> 0 < n \<and> cu = qc_encode qc \<lparr>cu_Keys = keysOf qc (qo_Sort opts) (L ! (n - 1)), cu_ID = fst (L ! (n - 1))\<rparr> \<Longrightarrow>
    allPages fuel pg db qc k c (opts\<lparr>qo_Cursor := cu\<rparr>) s = Some (Inr (map fst (drop n L)))"
proof (induction fuel arbitrary: n cu)
  case (Suc fuel)
  let ?o = "opts\<lparr>qo_Cursor := cu\<rparr>" and ?M = "matches db (qo_Predicates opts) tb"
  have po: "pageable pg db qc k c ?o s tb" using p by (cases "tableName k c") (simp_all add: pageable_def)
  obtain t cs a where t: "tableName k c = Inr t" and b: "buildWhere (qo_Predicates opts) 0 = Inr (cs, a)"
    using p by (auto simp: pageable_def split: sum.splits)
  have kn: "\<And>r. r \<in> set ?M \<Longrightarrow> keysKnown db qc (qo_Sort opts) r" and d: "distinct (map fst ?M)"
    using p t unfolding pageable_def by (simp_all only: sum.case list_all_iff matches_def distinct_map_filter)
  note es = sortExprs_paths[OF so]
  obtain q args where cq: "compileQuery qc t ?o = Inr (q, args)" and r: "\<And>m. runSelect db q args m tb = take m (drop n L)"
  proof (cases "n = 0")
    case True
    then have cu: "cu = []" using Suc.prems(3) by simp
    obtain q args where cq: "compileQuery qc t ?o = Inr (q, args)" using b so cu by (simp add: compileQuery_def)
    show ?thesis using that[OF cq] runSelect_first[OF cq, of es desc db _ tb] cu so True L by simp
  next
    case False
    let ?x = "L ! (n - 1)"
    have cu: "cu = qc_encode qc \<lparr>cu_Keys = keysOf qc (qo_Sort opts) ?x, cu_ID = fst ?x\<rparr>" using Suc.prems(3) False by simp
    have j: "n - 1 < length ?M" using False Suc.prems(1) by (simp add: L)
    have "?x \<in> set ?M" using nth_mem[of "n - 1" L] False Suc.prems(1) by (simp add: L)
    then have "length (keysOf qc (qo_Sort opts) ?x) = length es"
      using arg_cong[OF keysKnown_vals(1)[OF kn es], of ?x length] by simp
    then obtain q args where cq: "compileQuery qc t ?o = Inr (q, args)" using b so cu co by (simp add: compileQuery_def Let_def)
    have "runSelect db q args m tb = take m (filter (beyond db es desc (keysOf qc (qo_Sort opts) ?x @ [fst ?x])) L)" for m
      using runSelect_after[OF cq, of es desc "\<lparr>cu_Keys = keysOf qc (qo_Sort opts) ?x, cu_ID = fst ?x\<rparr>" db m tb] cu so co
      by (simp add: inOrder_filter L)
    moreover have "filter (beyond db es desc (keysOf qc (qo_Sort opts) ?x @ [fst ?x])) L = drop n L"
      using inOrder_rest[OF i es kn d j L] False by simp
    ultimately show ?thesis using that[OF cq] by simp
  qed
  have sub: "set L \<subseteq> set (matches db (qo_Predicates ?o) tb)" by (simp add: L)
  have so': "sortExprs None (qo_Sort ?o) = Inr (es, desc)" and lim': "lim = nat (clampLimit (qo_Limit ?o))" using so lim by simp_all
  note Q = Query_page[OF po so' f cq t r sub lim']
  have l1: "1 \<le> lim" using clampLimit_range[of "qo_Limit opts"] lim by linarith
  show ?case
  proof (cases "n + lim < length L")
    case True
    have "allPages fuel pg db qc k c (opts\<lparr>qo_Cursor := qc_encode qc \<lparr>cu_Keys = keysOf qc (qo_Sort opts) (L ! (n + lim - 1)), cu_ID = fst (L ! (n + lim - 1))\<rparr>\<rparr>) s
        = Some (Inr (map fst (drop (n + lim) L)))"
      using Suc.IH[of "n + lim"] True Suc.prems(2) l1 by simp
    moreover have "take lim (drop n L) @ drop (n + lim) L = drop n L" by (metis append_take_drop_id drop_drop add.commute)
    then have "map fst (take lim (drop n L)) @ map fst (drop (n + lim) L) = map fst (drop n L)" by (metis map_append)
    ultimately show ?thesis using Q True by simp
  next
    case False
    then show ?thesis using Q by simp
  qed
qed simp


definition sampleRows :: "docRow list" where
  "sampleRows = [(''1'', \<lparr>rw_data = ''z'', rw_version = 1\<rparr>), (''2'', \<lparr>rw_data = ''x'', rw_version = 1\<rparr>),
     (''3'', \<lparr>rw_data = [], rw_version = 1\<rparr>), (''4'', \<lparr>rw_data = ''y'', rw_version = 1\<rparr>)]"

definition sampleDocs :: Store where
  "sampleDocs = \<lparr>st_tables = [(''ext_crm_eu_leads'', sampleRows)], st_indexes = []\<rparr>"


text \<open>a document without the first sort field is never on a page reached by a cursor. PostgreSQL's row comparison with a missing value is unknown, so
  whatever the cursor, such a document is filtered out: unless it is on the first page the sequence of pages leaves it out.
\<close>

theorem nulls_skipped:
  assumes "Query pg db qc k c opts s = Inr res" "qo_Cursor opts \<noteq> []" "qo_Sort opts = sf # sfs" "tableName k c = Inr t"
    "map_of (st_tables s) (pg_ident pg t) = Some tb" "distinct (map fst tb)" "(i, row) \<in> set tb"
    "qd_text db (rw_data row) (splitOn (CHR ''.'') (sf_Field sf)) = None"
  shows "i \<notin> set (qr_IDs res)"
proof -
  obtain q args where cq: "compileQuery qc t opts = Inr (q, args)" using assms(1,4) by (auto simp: Query_def Let_def split: sum.splits)
  obtain es desc where so: "sortExprs None (qo_Sort opts) = Inr (es, desc)" using cq by (auto simp: compileQuery_def split: sum.splits)
  obtain cur where cur: "qc_decode qc (qo_Cursor opts) = Some cur" "length (cu_Keys cur) = length es"
    using cq so assms(2) by (auto simp: compileQuery_def split: sum.splits option.splits if_splits)
  have es: "es = Path (splitOn (CHR ''.'') (sf_Field sf)) # tl es" using sortExprs_paths[OF so] assms(3) by simp
  obtain x xs where k: "cu_Keys cur = x # xs" using cur(2) es by (metis length_Suc_conv list.size(4) add.right_neutral add_Suc_right)
  have "\<not> beyond db es desc (cu_Keys cur @ [cu_ID cur]) (i, row)"
    unfolding k beyond_def by (subst es) (simp add: valOf_def assms(8))
  then have no: "(i, row) \<notin> set (runSelect db q args lim tb)" for lim
    unfolding runSelect_after[OF cq assms(2) so cur(1)] by (auto dest!: in_set_takeD)
  have sub: "set (runSelect db q args lim tb) \<subseteq> set tb" for lim
    unfolding runSelect_after[OF cq assms(2) so cur(1)] by (auto simp: matches_def dest!: in_set_takeD)
  have "i \<notin> fst ` set (runSelect db q args lim tb)" for lim
  proof
    assume "i \<in> fst ` set (runSelect db q args lim tb)"
    then obtain row' where m: "(i, row') \<in> set (runSelect db q args lim tb)" by force
    then have "row' = row" using sub[of lim] eq_key_imp_eq_value[OF assms(6) _ assms(7)] by blast
    then show False using m no[of lim] by simp
  qed
  moreover have "qr_IDs res = map fst (take (nat (clampLimit (qo_Limit opts))) (runSelect db q args (nat (clampLimit (qo_Limit opts)) + 1) tb))"
    using assms(1,4,5) cq by (auto simp: Query_def Let_def queryTable_def split: sum.splits option.splits if_splits)
  ultimately show ?thesis by (auto dest!: in_set_takeD)
qed

theorem nulls_skipped_witness:
  "''3'' \<notin> set (qr_IDs (projr (Query samplePg sampleQDb sampleCodec ''crm'' ''eu_leads''
     \<lparr>qo_Predicates = [], qo_Sort = [\<lparr>sf_Field = ''f'', sf_Descending = False\<rparr>], qo_Limit = 9,
       qo_Cursor = qc_encode sampleCodec \<lparr>cu_Keys = [''x''], cu_ID = ''2''\<rparr>\<rparr> sampleDocs)))"
proof -
  let ?o = "\<lparr>qo_Predicates = [], qo_Sort = [\<lparr>sf_Field = ''f'', sf_Descending = False\<rparr>], qo_Limit = 9,
       qo_Cursor = qc_encode sampleCodec \<lparr>cu_Keys = [''x''], cu_ID = ''2''\<rparr>\<rparr>"
  define r where "r = Query samplePg sampleQDb sampleCodec ''crm'' ''eu_leads'' ?o sampleDocs"
  have "r = Inr (projr r)" unfolding r_def by code_simp
  then have q: "Query samplePg sampleQDb sampleCodec ''crm'' ''eu_leads'' ?o sampleDocs = Inr (projr r)" by (simp add: r_def)
  have a: "qo_Cursor ?o \<noteq> []" "qo_Sort ?o = \<lparr>sf_Field = ''f'', sf_Descending = False\<rparr> # []" by (simp_all add: sampleCodec_reversible)
  have t: "tableName ''crm'' ''eu_leads'' = Inr ''ext_crm_eu_leads''" "map_of (st_tables sampleDocs) (pg_ident samplePg ''ext_crm_eu_leads'') = Some sampleRows"
    "distinct (map fst sampleRows)" "qd_text sampleQDb (rw_data \<lparr>rw_data = [], rw_version = 1\<rparr>) (splitOn (CHR ''.'') (sf_Field \<lparr>sf_Field = ''f'', sf_Descending = False\<rparr>)) = None"
    by code_simp+
  have m: "(''3'', \<lparr>rw_data = [], rw_version = 1\<rparr>) \<in> set sampleRows" by (simp add: sampleRows_def)
  show ?thesis using nulls_skipped[OF q a t(1,2,3) m t(4)] by (simp add: r_def)
qed

end
