(* ===== verification/Events.thy ===== *)
theory Events
  imports Manifest "HOL-Library.Sublist"
begin

text \<open>
  Events between plugins: the in-process bus of \<^verbatim>\<open>src/core/event/bus.go\<close>, its adapter \<^verbatim>\<open>BusEvents\<close> and the log sink
  \<^verbatim>\<open>LogObservability\<close> of \<^verbatim>\<open>src/core/hostsvc/adapters.go\<close>. A Go channel is a number with a capacity and a buffer in the
  bus's state. \<^verbatim>\<open>Subscribe\<close> blocks for the life of a stream, so it is three operations: opening it, one turn of its loop for one
  event, and its end with the deferred clean-up. \<open>evStep\<close> interleaves the streams and the publishers in any order.
\<close>

section \<open>The bus\<close>

record BusEvent =
  be_Name :: string
  be_Data :: bytes

record Chan =
  ch_cap :: nat
  ch_buf :: "BusEvent list"

record EventBus =
  eb_subscribers :: "(string, nat list) gomap"
  eb_chans :: "(nat, Chan) gomap"
  eb_onDrop :: bool
  eb_dropped :: "string list"

definition NewEventBus :: EventBus where
  "NewEventBus = \<lparr>eb_subscribers = [], eb_chans = [], eb_onDrop = False, eb_dropped = []\<rparr>"

definition subscribersOf :: "EventBus \<Rightarrow> string \<Rightarrow> nat list" where
  "subscribersOf b name = (case map_of (eb_subscribers b) name of None \<Rightarrow> [] | Some cs \<Rightarrow> cs)"

definition BusSubscribe :: "string \<Rightarrow> nat \<Rightarrow> EventBus \<Rightarrow> EventBus" where
  "BusSubscribe name ch b = b\<lparr>eb_subscribers := AList.update name (subscribersOf b name @ [ch]) (eb_subscribers b)\<rparr>"

definition BusUnsubscribe :: "string \<Rightarrow> nat \<Rightarrow> EventBus \<Rightarrow> EventBus" where
  "BusUnsubscribe name ch b =
     (let subs = subscribersOf b name; left = remove1 ch subs
      in if left = [] then b\<lparr>eb_subscribers := AList.delete name (eb_subscribers b)\<rparr>
         else if ch \<in> set subs then b\<lparr>eb_subscribers := AList.update name left (eb_subscribers b)\<rparr> else b)"

text \<open>One send: into the buffer when there is room, otherwise dropped, with a report when a hook is installed.\<close>

definition trySend :: "string \<Rightarrow> bytes \<Rightarrow> nat \<Rightarrow> EventBus \<Rightarrow> EventBus" where
  "trySend name data ch b =
     (case map_of (eb_chans b) ch of
        None \<Rightarrow> b
      | Some c \<Rightarrow>
          if length (ch_buf c) < ch_cap c
          then b\<lparr>eb_chans := AList.update ch (c\<lparr>ch_buf := ch_buf c @ [\<lparr>be_Name = name, be_Data = data\<rparr>]\<rparr>) (eb_chans b)\<rparr>
          else if eb_onDrop b then b\<lparr>eb_dropped := eb_dropped b @ [name]\<rparr> else b)"

definition BusPublish :: "string \<Rightarrow> bytes \<Rightarrow> EventBus \<Rightarrow> EventBus" where
  "BusPublish name data b = fold (trySend name data) (subscribersOf b name) b"

definition OnDrop :: "EventBus \<Rightarrow> EventBus" where "OnDrop b = b\<lparr>eb_onDrop := True\<rparr>"

definition SubscriberCount :: "EventBus \<Rightarrow> string \<Rightarrow> nat" where "SubscriberCount b name = length (subscribersOf b name)"

section \<open>The adapter\<close>

record Event =
  ev_Name :: string
  ev_Data :: bytes
  ev_SourcePluginKey :: string
  ev_TraceID :: string

record BusEvents =
  bv_bus :: EventBus
  bv_SubscriberBuffer :: int
  bv_MaxSubscriptions :: int
  bv_subs :: "(string, int) gomap"

definition DefaultMaxSubscriptionsPerPlugin :: int where "DefaultMaxSubscriptionsPerPlugin = 64"

definition NewBusEvents :: "EventBus \<Rightarrow> BusEvents" where
  "NewBusEvents bus = \<lparr>bv_bus = bus, bv_SubscriberBuffer = 64, bv_MaxSubscriptions = 0, bv_subs = []\<rparr>"

definition Subscriptions :: "BusEvents \<Rightarrow> string \<Rightarrow> int" where
  "Subscriptions b key = (case map_of (bv_subs b) key of None \<Rightarrow> 0 | Some n \<Rightarrow> n)"

definition addSubscription :: "string \<Rightarrow> BusEvents \<Rightarrow> int \<times> BusEvents" where
  "addSubscription key b = (let n = Subscriptions b key + 1 in (n, b\<lparr>bv_subs := AList.update key n (bv_subs b)\<rparr>))"

definition removeSubscription :: "string \<Rightarrow> BusEvents \<Rightarrow> BusEvents" where
  "removeSubscription key b =
     (let n = Subscriptions b key; m = (if n > 0 then n - 1 else n);
          subs = (if n > 0 then AList.update key m (bv_subs b) else bv_subs b)
      in b\<lparr>bv_subs := (if m = 0 then AList.delete key subs else subs)\<rparr>)"

definition maxPerPlugin :: "BusEvents \<Rightarrow> int" where
  "maxPerPlugin b = (if bv_MaxSubscriptions b > 0 then bv_MaxSubscriptions b else DefaultMaxSubscriptionsPerPlugin)"

definition eventTopic :: "string \<Rightarrow> string \<Rightarrow> string" where
  "eventTopic source name = source @ '':'' @ name"

definition EventsPublish :: "string \<Rightarrow> Event \<Rightarrow> BusEvents \<Rightarrow> BusEvents" where
  "EventsPublish key ev b = b\<lparr>bv_bus := BusPublish (eventTopic key (ev_Name ev)) (ev_Data ev) (bv_bus b)\<rparr>"

record Subscription =
  sb_key :: string
  sb_source :: string
  sb_name :: string
  sb_ch :: nat

definition sb_topic :: "Subscription \<Rightarrow> string" where "sb_topic s = eventTopic (sb_source s) (sb_name s)"

datatype event_err = TooManySubscriptions string int

text \<open>The head of \<^verbatim>\<open>Subscribe\<close>; the last argument before the state is the channel \<^verbatim>\<open>make\<close> allocates.\<close>

definition SubscribeOpen :: "string \<Rightarrow> string \<Rightarrow> nat \<Rightarrow> BusEvents \<Rightarrow> (event_err + Subscription) \<times> BusEvents" where
  "SubscribeOpen key eventName ch b =
     (let (n, b1) = addSubscription key b
      in if n > maxPerPlugin b then (Inl (TooManySubscriptions key (maxPerPlugin b)), removeSubscription key b1)
         else let (publisher, rest, ok) = cutAt (CHR '':'') eventName;
                  s = \<lparr>sb_key = key, sb_source = (if ok then publisher else key), sb_name = (if ok then rest else eventName), sb_ch = ch\<rparr>;
                  size = (if bv_SubscriberBuffer b1 \<le> 0 then 64 else bv_SubscriberBuffer b1);
                  bus = (bv_bus b1)\<lparr>eb_chans := AList.update ch \<lparr>ch_cap = nat size, ch_buf = []\<rparr> (eb_chans (bv_bus b1))\<rparr>
              in (Inr s, b1\<lparr>bv_bus := BusSubscribe (sb_topic s) ch bus\<rparr>))"

text \<open>One turn of the loop that receives an event, and the event handed to \<^verbatim>\<open>deliver\<close>.\<close>

definition SubscribeNext :: "Subscription \<Rightarrow> BusEvents \<Rightarrow> Event option \<times> BusEvents" where
  "SubscribeNext s b =
     (case map_of (eb_chans (bv_bus b)) (sb_ch s) of
        None \<Rightarrow> (None, b)
      | Some c \<Rightarrow>
          (case ch_buf c of
             [] \<Rightarrow> (None, b)
           | ev # evs \<Rightarrow>
               (Some \<lparr>ev_Name = sb_name s, ev_Data = be_Data ev, ev_SourcePluginKey = sb_source s, ev_TraceID = []\<rparr>,
                b\<lparr>bv_bus := (bv_bus b)\<lparr>eb_chans := AList.update (sb_ch s) (c\<lparr>ch_buf := evs\<rparr>) (eb_chans (bv_bus b))\<rparr>\<rparr>)))"

text \<open>The deferred calls, in their order: last deferred first.\<close>

definition SubscribeEnd :: "Subscription \<Rightarrow> BusEvents \<Rightarrow> BusEvents" where
  "SubscribeEnd s b = removeSubscription (sb_key s) (b\<lparr>bv_bus := BusUnsubscribe (sb_topic s) (sb_ch s) (bv_bus b)\<rparr>)"

section \<open>The log sink\<close>

record LogRecord =
  lr_Level :: string
  lr_Message :: string
  lr_Fields :: "(string, string) gomap"
  lr_TraceID :: string

definition newMinLevel :: "string \<Rightarrow> string" where
  "newMinLevel l = (if l = [] then ''info'' else l)"

definition levelRank :: "string \<Rightarrow> int" where
  "levelRank l = (if l = ''debug'' then 0 else if l = ''info'' then 1 else if l = ''warn'' then 2 else if l = ''error'' then 3 else 0)"

text \<open>The line, when there is one; the fields come in the order the map iteration gives them.\<close>

definition logLine :: "string \<Rightarrow> string \<Rightarrow> LogRecord \<Rightarrow> string option" where
  "logLine minLevel key rec =
     (if levelRank (lr_Level rec) < levelRank minLevel then None
      else Some (''[plugin:'' @ key @ ''] '' @ toUpper (lr_Level rec) @ '' '' @ lr_Message rec @
        (if lr_TraceID rec \<noteq> [] then '' trace='' @ lr_TraceID rec else []) @
        concat (map (\<lambda>(k, v). '' '' @ k @ ''='' @ v) (lr_Fields rec))))"

definition metricLogged :: "string \<Rightarrow> bool" where
  "metricLogged minLevel = (\<not> levelRank ''debug'' < levelRank minLevel)"

section \<open>Streams and publishers in any order\<close>

record EvWorld =
  ew_be :: BusEvents
  ew_live :: "(nat, Subscription) gomap"
  ew_next :: nat
  ew_published :: "(string \<times> string \<times> bytes) list"
  ew_delivered :: "(Subscription \<times> Event) list"

datatype evOp = EvPublish string Event | EvSubscribe string string | EvNext nat | EvEnd nat

fun evStep :: "evOp \<Rightarrow> EvWorld \<Rightarrow> EvWorld" where
  "evStep (EvPublish k ev) w = w\<lparr>ew_be := EventsPublish k ev (ew_be w), ew_published := ew_published w @ [(k, ev_Name ev, ev_Data ev)]\<rparr>"
| "evStep (EvSubscribe k n) w =
     (case SubscribeOpen k n (ew_next w) (ew_be w) of
        (Inl _, b) \<Rightarrow> w\<lparr>ew_be := b\<rparr>
      | (Inr s, b) \<Rightarrow> w\<lparr>ew_be := b, ew_live := AList.update (ew_next w) s (ew_live w), ew_next := ew_next w + 1\<rparr>)"
| "evStep (EvNext ch) w =
     (case map_of (ew_live w) ch of
        None \<Rightarrow> w
      | Some s \<Rightarrow>
          (case SubscribeNext s (ew_be w) of
             (None, b) \<Rightarrow> w
           | (Some ev, b) \<Rightarrow> w\<lparr>ew_be := b, ew_delivered := ew_delivered w @ [(s, ev)]\<rparr>))"
| "evStep (EvEnd ch) w =
     (case map_of (ew_live w) ch of
        None \<Rightarrow> w
      | Some s \<Rightarrow> w\<lparr>ew_be := SubscribeEnd s (ew_be w), ew_live := AList.delete ch (ew_live w)\<rparr>)"

definition evStart :: "BusEvents \<Rightarrow> EvWorld" where
  "evStart b = \<lparr>ew_be = b, ew_live = [], ew_next = 0, ew_published = [], ew_delivered = []\<rparr>"

section \<open>Facts about one operation\<close>

definition bufOf :: "EventBus \<Rightarrow> nat \<Rightarrow> BusEvent list" where
  "bufOf b ch = (case map_of (eb_chans b) ch of None \<Rightarrow> [] | Some c \<Rightarrow> ch_buf c)"

lemma subscribersOf_subscribe:
  "subscribersOf (BusSubscribe t ch b) u = (if u = t then subscribersOf b t @ [ch] else subscribersOf b u)"
  by (simp add: subscribersOf_def BusSubscribe_def update_conv')

lemma subscribersOf_unsubscribe:
  "subscribersOf (BusUnsubscribe t ch b) u = (if u = t then remove1 ch (subscribersOf b t) else subscribersOf b u)"
proof -
  have "ch \<notin> set (subscribersOf b t) \<Longrightarrow> remove1 ch (subscribersOf b t) = subscribersOf b t" by (rule remove1_idem)
  then show ?thesis by (auto simp: BusUnsubscribe_def Let_def subscribersOf_def update_conv' delete_conv' split: option.splits)
qed

lemma bufOf_cong: "eb_chans b' = eb_chans b \<Longrightarrow> bufOf b' ch = bufOf b ch"
  by (simp add: bufOf_def)

lemma chans_subscribe [simp]: "eb_chans (BusSubscribe t ch b) = eb_chans b" "eb_chans (BusUnsubscribe t ch b) = eb_chans b"
  by (simp_all add: BusSubscribe_def BusUnsubscribe_def Let_def)

lemma trySend_facts:
  "eb_subscribers (trySend t d ch b) = eb_subscribers b"
  "c \<noteq> ch \<Longrightarrow> bufOf (trySend t d ch b) c = bufOf b c"
  "bufOf (trySend t d ch b) ch = bufOf b ch \<or> bufOf (trySend t d ch b) ch = bufOf b ch @ [\<lparr>be_Name = t, be_Data = d\<rparr>]"
  by (auto simp: trySend_def bufOf_def update_conv' split: option.splits)

lemma sends_facts:
  assumes "distinct chs"
  shows "eb_subscribers (fold (trySend t d) chs b) = eb_subscribers b \<and>
    (c \<notin> set chs \<longrightarrow> bufOf (fold (trySend t d) chs b) c = bufOf b c) \<and>
    (bufOf (fold (trySend t d) chs b) c = bufOf b c \<or> bufOf (fold (trySend t d) chs b) c = bufOf b c @ [\<lparr>be_Name = t, be_Data = d\<rparr>])"
  using assms
proof (induction chs arbitrary: b)
  case (Cons ch chs)
  show ?case
  proof (cases "c = ch")
    case True
    then show ?thesis using Cons trySend_facts(3)[of t d ch b] by (auto simp: trySend_facts(1))
  next
    case False
    then show ?thesis using Cons.IH[of "trySend t d ch b"] Cons.prems trySend_facts(2)[OF False, of t d b] by (simp add: trySend_facts(1))
  qed
qed simp

lemma Subscriptions_add: "Subscriptions (snd (addSubscription k b)) j = Subscriptions b j + (if j = k then 1 else 0)"
  by (simp add: addSubscription_def Let_def Subscriptions_def update_conv')

lemma Subscriptions_remove:
  "0 \<le> Subscriptions b k \<Longrightarrow> Subscriptions (removeSubscription k b) j = (if j = k then max 0 (Subscriptions b k - 1) else Subscriptions b j)"
  by (auto simp: removeSubscription_def Let_def Subscriptions_def update_conv' delete_conv' split: option.splits)

lemma adapter_fields [simp]:
  "bv_bus (snd (addSubscription k b)) = bv_bus b" "maxPerPlugin (snd (addSubscription k b)) = maxPerPlugin b"
  "bv_bus (removeSubscription k b) = bv_bus b" "maxPerPlugin (removeSubscription k b) = maxPerPlugin b"
  "maxPerPlugin (b\<lparr>bv_bus := x\<rparr>) = maxPerPlugin b" "Subscriptions (b\<lparr>bv_bus := x\<rparr>) k = Subscriptions b k"
  "fst (addSubscription k b) = Subscriptions b k + 1"
  by (simp_all add: addSubscription_def removeSubscription_def Let_def maxPerPlugin_def Subscriptions_def)

section \<open>Invariant\<close>

definition liveOf :: "EvWorld \<Rightarrow> string \<Rightarrow> nat" where
  "liveOf w k = length (filter (\<lambda>(_, s). sb_key s = k) (ew_live w))"

definition deliveredTo :: "EvWorld \<Rightarrow> Subscription \<Rightarrow> bytes list" where
  "deliveredTo w s = map (\<lambda>(_, ev). ev_Data ev) (filter (\<lambda>(s', _). s' = s) (ew_delivered w))"

definition publishedOn :: "EvWorld \<Rightarrow> string \<Rightarrow> bytes list" where
  "publishedOn w t = map (\<lambda>(_, _, d). d) (filter (\<lambda>(k, n, _). eventTopic k n = t) (ew_published w))"

definition pending :: "EvWorld \<Rightarrow> Subscription \<Rightarrow> bytes list" where
  "pending w s = (if map_of (ew_live w) (sb_ch s) = Some s then map be_Data (bufOf (bv_bus (ew_be w)) (sb_ch s)) else [])"

definition evInv :: "EvWorld \<Rightarrow> bool" where
  "evInv w \<longleftrightarrow>
     distinct (map fst (ew_live w)) \<and>
     (\<forall>ch s. map_of (ew_live w) ch = Some s \<longrightarrow> ch < ew_next w \<and> sb_ch s = ch) \<and>
     (\<forall>s ev. (s, ev) \<in> set (ew_delivered w) \<longrightarrow> sb_ch s < ew_next w) \<and>
     (\<forall>t. distinct (subscribersOf (bv_bus (ew_be w)) t)) \<and>
     (\<forall>t ch. ch \<in> set (subscribersOf (bv_bus (ew_be w)) t) \<longleftrightarrow> (\<exists>s. map_of (ew_live w) ch = Some s \<and> sb_topic s = t)) \<and>
     (\<forall>s. subseq (deliveredTo w s @ pending w s) (publishedOn w (sb_topic s))) \<and>
     (\<forall>k. Subscriptions (ew_be w) k = int (liveOf w k)) \<and>
     (\<forall>k. int (liveOf w k) \<le> maxPerPlugin (ew_be w))"

lemma evInvI:
  assumes "distinct (map fst (ew_live w))" "\<And>ch s. map_of (ew_live w) ch = Some s \<Longrightarrow> ch < ew_next w \<and> sb_ch s = ch"
    "\<And>s ev. (s, ev) \<in> set (ew_delivered w) \<Longrightarrow> sb_ch s < ew_next w"
    "\<And>t. distinct (subscribersOf (bv_bus (ew_be w)) t)"
    "\<And>t ch. ch \<in> set (subscribersOf (bv_bus (ew_be w)) t) \<longleftrightarrow> (\<exists>s. map_of (ew_live w) ch = Some s \<and> sb_topic s = t)"
    "\<And>s. subseq (deliveredTo w s @ pending w s) (publishedOn w (sb_topic s))"
    "\<And>k. Subscriptions (ew_be w) k = int (liveOf w k)" "\<And>k. int (liveOf w k) \<le> maxPerPlugin (ew_be w)"
  shows "evInv w"
  unfolding evInv_def using assms by (intro conjI allI impI) blast+

lemma evInvD:
  assumes "evInv w"
  shows "distinct (map fst (ew_live w))" "map_of (ew_live w) ch = Some s \<Longrightarrow> ch < ew_next w \<and> sb_ch s = ch"
    "(s, ev) \<in> set (ew_delivered w) \<Longrightarrow> sb_ch s < ew_next w"
    "distinct (subscribersOf (bv_bus (ew_be w)) t)"
    "ch \<in> set (subscribersOf (bv_bus (ew_be w)) t) \<longleftrightarrow> (\<exists>s. map_of (ew_live w) ch = Some s \<and> sb_topic s = t)"
    "subseq (deliveredTo w s @ pending w s) (publishedOn w (sb_topic s))"
    "Subscriptions (ew_be w) k = int (liveOf w k)" "int (liveOf w k) \<le> maxPerPlugin (ew_be w)"
  using assms unfolding evInv_def by blast+

lemma liveOf_insert: "ch \<notin> fst ` set xs \<Longrightarrow> length (filter (\<lambda>(_, s). sb_key s = k) (AList.update ch s xs)) =
    length (filter (\<lambda>(_, s). sb_key s = k) xs) + (if sb_key s = k then 1 else 0)"
  by (induction xs) auto

lemma liveOf_delete: "distinct (map fst xs) \<Longrightarrow> map_of xs ch = Some s \<Longrightarrow>
    length (filter (\<lambda>(_, s). sb_key s = k) (AList.delete ch xs)) = length (filter (\<lambda>(_, s). sb_key s = k) xs) - (if sb_key s = k then 1 else 0) \<and>
    (sb_key s = k \<longrightarrow> 0 < length (filter (\<lambda>(_, s). sb_key s = k) xs))"
proof (induction xs)
  case (Cons x xs)
  show ?case
  proof (cases "fst x = ch")
    case True
    then have "AList.delete ch xs = xs" using Cons.prems(1) by (auto intro: delete_idem)
    then show ?thesis using True Cons.prems(2) by (auto simp: AList.delete_eq split: prod.splits)
  next
    case False
    then show ?thesis using Cons by (auto simp: AList.delete_eq split: prod.splits)
  qed
qed simp

section \<open>The invariant is kept\<close>

lemma SubscribeOpen_cases:
  assumes "SubscribeOpen k n ch b = (r, b')"
  obtains (refused) "r = Inl (TooManySubscriptions k (maxPerPlugin b))" "b' = removeSubscription k (snd (addSubscription k b))"
      "maxPerPlugin b < Subscriptions b k + 1"
  | (opened) s where "r = Inr s" "sb_key s = k" "sb_ch s = ch" "Subscriptions b k + 1 \<le> maxPerPlugin b"
      "\<And>j. Subscriptions b' j = Subscriptions b j + (if j = k then 1 else 0)" "maxPerPlugin b' = maxPerPlugin b"
      "\<And>t. subscribersOf (bv_bus b') t = (if t = sb_topic s then subscribersOf (bv_bus b) t @ [ch] else subscribersOf (bv_bus b) t)"
      "\<And>c. bufOf (bv_bus b') c = (if c = ch then [] else bufOf (bv_bus b) c)"
      "CHR '':'' \<notin> set k \<Longrightarrow> CHR '':'' \<notin> set (sb_source s)"
proof (cases "maxPerPlugin b < Subscriptions b k + 1")
  case True
  then show ?thesis using assms refused by (auto simp: SubscribeOpen_def Let_def case_prod_unfold)
next
  case False
  define b1 where "b1 = snd (addSubscription k b)"
  define s where "s = (let (publisher, rest, ok) = cutAt (CHR '':'') n
    in \<lparr>sb_key = k, sb_source = (if ok then publisher else k), sb_name = (if ok then rest else n), sb_ch = ch\<rparr>)"
  define size where "size = (if bv_SubscriberBuffer b1 \<le> 0 then 64 else bv_SubscriberBuffer b1)"
  define bus where "bus = (bv_bus b1)\<lparr>eb_chans := AList.update ch \<lparr>ch_cap = nat size, ch_buf = []\<rparr> (eb_chans (bv_bus b1))\<rparr>"
  have e: "r = Inr s" "b' = b1\<lparr>bv_bus := BusSubscribe (sb_topic s) ch bus\<rparr>"
    using assms False by (auto simp: SubscribeOpen_def Let_def case_prod_unfold b1_def s_def size_def bus_def)
  have src: "CHR '':'' \<notin> set (sb_source s)" if "CHR '':'' \<notin> set k"
    using that by (auto simp: s_def cutAt_def beforeByte_def dest: set_takeWhileD)
  have buf: "bufOf (bv_bus b') c = (if c = ch then [] else bufOf (bv_bus b) c)" for c
    by (simp add: e(2) bus_def b1_def bufOf_def update_conv')
  have subs: "subscribersOf (bv_bus b') t = (if t = sb_topic s then subscribersOf (bv_bus b) t @ [ch] else subscribersOf (bv_bus b) t)" for t
    by (simp add: e(2) subscribersOf_subscribe) (simp add: bus_def b1_def subscribersOf_def)
  show ?thesis
  proof (rule opened[OF e(1)])
    show "Subscriptions b' j = Subscriptions b j + (if j = k then 1 else 0)" for j
      by (simp add: e(2) b1_def Subscriptions_add)
    show "maxPerPlugin b' = maxPerPlugin b" by (simp add: e(2) b1_def)
  qed (use False src buf subs in \<open>auto simp: s_def case_prod_unfold Let_def\<close>)
qed

lemma publish_facts:
  assumes "evInv w"
  shows "subscribersOf (bv_bus (EventsPublish k ev (ew_be w))) u = subscribersOf (bv_bus (ew_be w)) u"
    "\<not> (\<exists>s. map_of (ew_live w) c = Some s \<and> sb_topic s = eventTopic k (ev_Name ev)) \<Longrightarrow>
       bufOf (bv_bus (EventsPublish k ev (ew_be w))) c = bufOf (bv_bus (ew_be w)) c"
    "map be_Data (bufOf (bv_bus (EventsPublish k ev (ew_be w))) c) = map be_Data (bufOf (bv_bus (ew_be w)) c) \<or>
     map be_Data (bufOf (bv_bus (EventsPublish k ev (ew_be w))) c) = map be_Data (bufOf (bv_bus (ew_be w)) c) @ [ev_Data ev]"
proof -
  let ?t = "eventTopic k (ev_Name ev)"
  note F = sends_facts[OF evInvD(4)[OF assms, of ?t], of ?t "ev_Data ev" "bv_bus (ew_be w)" c]
  show "subscribersOf (bv_bus (EventsPublish k ev (ew_be w))) u = subscribersOf (bv_bus (ew_be w)) u"
    using F by (simp add: EventsPublish_def BusPublish_def subscribersOf_def)
  show "\<not> (\<exists>s. map_of (ew_live w) c = Some s \<and> sb_topic s = ?t) \<Longrightarrow>
       bufOf (bv_bus (EventsPublish k ev (ew_be w))) c = bufOf (bv_bus (ew_be w)) c"
    using F evInvD(5)[OF assms, of c ?t] by (simp add: EventsPublish_def BusPublish_def)
  show "map be_Data (bufOf (bv_bus (EventsPublish k ev (ew_be w))) c) = map be_Data (bufOf (bv_bus (ew_be w)) c) \<or>
     map be_Data (bufOf (bv_bus (EventsPublish k ev (ew_be w))) c) = map be_Data (bufOf (bv_bus (ew_be w)) c) @ [ev_Data ev]"
    using F by (auto simp: EventsPublish_def BusPublish_def)
qed

lemma evInv_publish:
  assumes "evInv w"
  shows "evInv (evStep (EvPublish k ev) w)"
proof -
  let ?w = "evStep (EvPublish k ev) w" and ?t = "eventTopic k (ev_Name ev)"
  note P = publish_facts[OF assms, where k = k and ev = ev]
  have "subseq (deliveredTo ?w s @ pending ?w s) (publishedOn ?w (sb_topic s))" for s
  proof -
    have D: "deliveredTo ?w s = deliveredTo w s" by (simp add: deliveredTo_def)
    have old: "subseq (deliveredTo w s @ pending w s) (publishedOn w (sb_topic s))" by (rule evInvD(6)[OF assms])
    show ?thesis
    proof (cases "sb_topic s = ?t")
      case True
      have "publishedOn ?w (sb_topic s) = publishedOn w (sb_topic s) @ [ev_Data ev]" using True by (simp add: publishedOn_def)
      moreover have "pending ?w s = pending w s \<or> pending ?w s = pending w s @ [ev_Data ev]" using P(3)[of "sb_ch s"] by (auto simp: pending_def)
      ultimately show ?thesis using old D by (auto intro: subseq_order.order_trans simp: list_emb_append_mono[OF old] simp flip: append_assoc)
    next
      case False
      have "publishedOn ?w (sb_topic s) = publishedOn w (sb_topic s)" using False by (auto simp: publishedOn_def)
      moreover have "pending ?w s = pending w s" using P(2)[of "sb_ch s"] False by (auto simp: pending_def)
      ultimately show ?thesis using old D by simp
    qed
  qed
  then show ?thesis
    using evInvD[OF assms] P(1) by (intro evInvI) (auto simp: EventsPublish_def liveOf_def)
qed

lemma deliveredTo_fresh: "(\<And>ev. (s, ev) \<notin> set (ew_delivered w)) \<Longrightarrow> deliveredTo w s = []"
  by (auto simp: deliveredTo_def filter_empty_conv)

lemma evInv_subscribe:
  assumes "evInv w"
  shows "evInv (evStep (EvSubscribe k n) w)"
proof -
  obtain r b' where o: "SubscribeOpen k n (ew_next w) (ew_be w) = (r, b')" by (cases "SubscribeOpen k n (ew_next w) (ew_be w)")
  from o show ?thesis
  proof (cases rule: SubscribeOpen_cases)
    case refused
    have z: "Subscriptions (snd (addSubscription k (ew_be w))) k = int (liveOf w k) + 1" using evInvD(7)[OF assms, of k] by (simp add: Subscriptions_add)
    have "Subscriptions b' j = Subscriptions (ew_be w) j" for j
      unfolding refused(2) using z evInvD(7)[OF assms, of k] by (subst Subscriptions_remove) (auto simp: Subscriptions_add)
    moreover have "bv_bus b' = bv_bus (ew_be w)" "maxPerPlugin b' = maxPerPlugin (ew_be w)" unfolding refused(2) by simp_all
    ultimately have "evInv (w\<lparr>ew_be := b'\<rparr>) = evInv w" by (simp add: evInv_def liveOf_def deliveredTo_def pending_def publishedOn_def)
    then show ?thesis using assms o refused(1) by simp
  next
    case (opened s)
    have fresh: "map_of (ew_live w) (ew_next w) = None" using evInvD(2)[OF assms, of "ew_next w"] by (cases "map_of (ew_live w) (ew_next w)") auto
    then have fr: "ew_next w \<notin> fst ` set (ew_live w)" by (simp add: map_of_eq_None_iff)
    define w' where w: "w' = w\<lparr>ew_be := b', ew_live := AList.update (ew_next w) s (ew_live w), ew_next := ew_next w + 1\<rparr>"
    have st: "evStep (EvSubscribe k n) w = w'" using o opened(1) by (simp add: w)
    have L: "map_of (ew_live w') c = (if c = ew_next w then Some s else map_of (ew_live w) c)" for c by (simp add: w update_conv')
    have lv: "liveOf w' j = liveOf w j + (if j = k then 1 else 0)" for j
      unfolding liveOf_def w using liveOf_insert[OF fr, of j s] opened(2) by auto
    have sub: "subseq (deliveredTo w' x @ pending w' x) (publishedOn w' (sb_topic x))" for x
    proof (cases "sb_ch x = ew_next w")
      case True
      have "deliveredTo w' x = []" using evInvD(3)[OF assms, of x] True by (intro deliveredTo_fresh) (auto simp: w)
      moreover have "pending w' x = []" using True opened(8) by (simp add: pending_def w)
      ultimately show ?thesis by simp
    next
      case False
      then have "pending w' x = pending w x" using opened(8) L by (auto simp: pending_def w)
      then show ?thesis using evInvD(6)[OF assms, of x] by (simp add: w deliveredTo_def publishedOn_def)
    qed
    show ?thesis unfolding st
    proof (rule evInvI)
      show "distinct (map fst (ew_live w'))" using evInvD(1)[OF assms] by (simp add: w distinct_update)
      show "ch < ew_next w' \<and> sb_ch s' = ch" if "map_of (ew_live w') ch = Some s'" for ch s'
        using that evInvD(2)[OF assms, of ch s'] opened(3) by (auto simp: w update_conv' split: if_splits)
      show "sb_ch s' < ew_next w'" if "(s', ev) \<in> set (ew_delivered w')" for s' ev
        using that evInvD(3)[OF assms, of s' ev] by (auto simp: w)
      show "distinct (subscribersOf (bv_bus (ew_be w')) t)" for t
        using evInvD(4)[OF assms, of t] evInvD(5)[OF assms, of "ew_next w" t] fresh opened(7)[of t] by (auto simp: w)
      show "ch \<in> set (subscribersOf (bv_bus (ew_be w')) t) \<longleftrightarrow> (\<exists>s. map_of (ew_live w') ch = Some s \<and> sb_topic s = t)" for t ch
        using evInvD(5)[OF assms, of ch t] fresh opened(7) by (cases "ch = ew_next w") (auto simp: w update_conv')
      show "Subscriptions (ew_be w') j = int (liveOf w' j)" for j
        using evInvD(7)[OF assms, of j] opened(5)[of j] lv[of j] by (simp add: w)
      show "int (liveOf w' j) \<le> maxPerPlugin (ew_be w')" for j
        using evInvD(7,8)[OF assms, of j] opened(4,6) lv[of j] by (auto simp: w)
    qed (rule sub)
  qed
qed

lemma SubscribeNext_Some:
  assumes "SubscribeNext s b = (Some ev, b')"
  shows "bufOf (bv_bus b) (sb_ch s) = hd (bufOf (bv_bus b) (sb_ch s)) # bufOf (bv_bus b') (sb_ch s)"
    "ev = \<lparr>ev_Name = sb_name s, ev_Data = be_Data (hd (bufOf (bv_bus b) (sb_ch s))), ev_SourcePluginKey = sb_source s, ev_TraceID = []\<rparr>"
    "c \<noteq> sb_ch s \<Longrightarrow> bufOf (bv_bus b') c = bufOf (bv_bus b) c"
    "subscribersOf (bv_bus b') t = subscribersOf (bv_bus b) t" "Subscriptions b' k = Subscriptions b k" "maxPerPlugin b' = maxPerPlugin b"
  using assms by (auto simp: SubscribeNext_def bufOf_def subscribersOf_def update_conv' split: option.splits list.splits)

lemma evInv_next:
  assumes "evInv w"
  shows "evInv (evStep (EvNext ch) w)"
proof (cases "\<exists>s ev b. map_of (ew_live w) ch = Some s \<and> SubscribeNext s (ew_be w) = (Some ev, b)")
  case True
  then obtain s ev b where l: "map_of (ew_live w) ch = Some s" and n: "SubscribeNext s (ew_be w) = (Some ev, b)" by blast
  define w' where w': "w' = w\<lparr>ew_be := b, ew_delivered := ew_delivered w @ [(s, ev)]\<rparr>"
  have st: "evStep (EvNext ch) w = w'" using l n by (simp add: w')
  note N = SubscribeNext_Some[OF n]
  have c: "sb_ch s = ch" "ch < ew_next w" using evInvD(2)[OF assms l] by auto
  have same: "deliveredTo w' x @ pending w' x = deliveredTo w x @ pending w x" for x
  proof (cases "x = s")
    case True
    have "map be_Data (bufOf (bv_bus (ew_be w)) ch) = ev_Data ev # map be_Data (bufOf (bv_bus b) ch)"
      using N(1,2) c(1) by (metis list.simps(9) Event.select_convs(2))
    then show ?thesis using True l c(1) by (simp add: w' deliveredTo_def pending_def)
  next
    case False
    have "pending w' x = pending w x" using False N(3)[of "sb_ch x"] l c(1) by (cases "sb_ch x = ch") (auto simp: w' pending_def)
    then show ?thesis using False by (simp add: w' deliveredTo_def)
  qed
  show ?thesis unfolding st
  proof (rule evInvI)
    show "subseq (deliveredTo w' x @ pending w' x) (publishedOn w' (sb_topic x))" for x
      unfolding same using evInvD(6)[OF assms, of x] by (simp add: w' publishedOn_def)
    show "sb_ch s' < ew_next w'" if "(s', e) \<in> set (ew_delivered w')" for s' e
      using that evInvD(3)[OF assms, of s' e] c by (auto simp: w')
    show "i \<in> set (subscribersOf (bv_bus (ew_be w')) t) \<longleftrightarrow> (\<exists>s. map_of (ew_live w') i = Some s \<and> sb_topic s = t)" for t i
      using evInvD(5)[OF assms, of i t] N(4) by (simp add: w')
  qed (use evInvD(1,2,4,7,8)[OF assms] N(4-6) in \<open>simp_all add: w' liveOf_def\<close>)
next
  case False
  then have "evStep (EvNext ch) w = w" by (auto split: option.splits prod.splits)
  then show ?thesis using assms by simp
qed

lemma evInv_end:
  assumes "evInv w"
  shows "evInv (evStep (EvEnd ch) w)"
proof (cases "map_of (ew_live w) ch")
  case (Some s)
  define w' where w': "w' = w\<lparr>ew_be := SubscribeEnd s (ew_be w), ew_live := AList.delete ch (ew_live w)\<rparr>"
  have st: "evStep (EvEnd ch) w = w'" using Some by (simp add: w')
  have c: "sb_ch s = ch" using evInvD(2)[OF assms Some] by simp
  note D = liveOf_delete[OF evInvD(1)[OF assms] Some]
  have lv: "int (liveOf w' k) = int (liveOf w k) - (if sb_key s = k then 1 else 0)" for k
  proof -
    have "liveOf w' k = liveOf w k - (if sb_key s = k then 1 else 0)" "sb_key s = k \<Longrightarrow> 0 < liveOf w k"
      using D[of k] by (simp_all add: liveOf_def w')
    then show ?thesis by (cases "sb_key s = k") (simp_all add: of_nat_diff)
  qed
  have subs: "subscribersOf (bv_bus (ew_be w')) t = (if t = sb_topic s then remove1 ch (subscribersOf (bv_bus (ew_be w)) t) else subscribersOf (bv_bus (ew_be w)) t)" for t
    by (simp add: w' SubscribeEnd_def subscribersOf_unsubscribe c)
  have lw: "map_of (ew_live w') i = (if i = ch then None else map_of (ew_live w) i)" for i by (simp add: w' delete_conv')
  have buf: "bufOf (bv_bus (ew_be w')) i = bufOf (bv_bus (ew_be w)) i" for i
    by (simp add: w' SubscribeEnd_def bufOf_def)
  show ?thesis unfolding st
  proof (rule evInvI)
    show "distinct (map fst (ew_live w'))" using evInvD(1)[OF assms] by (simp add: w' distinct_delete)
    show "i < ew_next w' \<and> sb_ch x = i" if "map_of (ew_live w') i = Some x" for i x
      using that evInvD(2)[OF assms, of i x] by (auto simp: w' delete_conv' split: if_splits)
    show "sb_ch x < ew_next w'" if "(x, e) \<in> set (ew_delivered w')" for x e using that evInvD(3)[OF assms, of x e] by (simp add: w')
    show "distinct (subscribersOf (bv_bus (ew_be w')) t)" for t using evInvD(4)[OF assms, of t] by (auto simp: subs)
    show "i \<in> set (subscribersOf (bv_bus (ew_be w')) t) \<longleftrightarrow> (\<exists>s. map_of (ew_live w') i = Some s \<and> sb_topic s = t)" for t i
      using evInvD(4)[OF assms, of t] evInvD(5)[OF assms, of i t] Some by (cases "i = ch") (auto simp: subs lw)
    show "subseq (deliveredTo w' x @ pending w' x) (publishedOn w' (sb_topic x))" for x
    proof -
      have "subseq (pending w' x) (pending w x)" using buf by (auto simp: pending_def w' delete_conv')
      then have "subseq (deliveredTo w x @ pending w' x) (deliveredTo w x @ pending w x)" by (intro list_emb_append_mono) simp_all
      then show ?thesis using evInvD(6)[OF assms, of x] subseq_order.order_trans by (fastforce simp: w' deliveredTo_def publishedOn_def)
    qed
    have pos: "0 < liveOf w (sb_key s)" using D[of "sb_key s"] by (simp add: liveOf_def)
    have "Subscriptions (ew_be w') k = (if k = sb_key s then max 0 (int (liveOf w k) - 1) else int (liveOf w k))" for k
      using evInvD(7)[OF assms, of k] evInvD(7)[OF assms, of "sb_key s"] by (simp add: w' SubscribeEnd_def Subscriptions_remove)
    then show "Subscriptions (ew_be w') k = int (liveOf w' k)" for k using pos lv[of k] by auto
    show "int (liveOf w' k) \<le> maxPerPlugin (ew_be w')" for k
      using evInvD(8)[OF assms, of k] lv[of k] by (auto simp: w' SubscribeEnd_def)
  qed
qed (use assms in simp)

lemma evStep_inv: "evInv w \<Longrightarrow> evInv (evStep x w)"
  using evInv_publish evInv_subscribe evInv_next evInv_end by (cases x) blast+

definition emptyBus :: "BusEvents \<Rightarrow> bool" where
  "emptyBus b = (eb_subscribers (bv_bus b) = [] \<and> bv_subs b = [])"

lemma evStart_inv: "emptyBus b \<Longrightarrow> evInv (evStart b)"
  by (auto intro!: evInvI simp: evStart_def emptyBus_def subscribersOf_def deliveredTo_def pending_def Subscriptions_def liveOf_def maxPerPlugin_def
      DefaultMaxSubscriptionsPerPlugin_def)

lemma evRun_inv: "emptyBus b \<Longrightarrow> evInv (fold evStep ops (evStart b))"
proof -
  have "evInv w \<Longrightarrow> evInv (fold evStep ops w)" for w by (induction ops arbitrary: w) (simp_all add: evStep_inv)
  then show "emptyBus b \<Longrightarrow> evInv (fold evStep ops (evStart b))" using evStart_inv by blast
qed

section \<open>What a subscriber can rely on\<close>

text \<open>the subscriptions of a plugin are counted exactly and never exceed the limit. After any interleaving of publishing, subscribing, delivering and
  closing, the counter the limit is checked against equals the number of open streams of the plugin, and that number is within the limit.
\<close>

theorem subscriptions_bounded:
  assumes "emptyBus b" "w = fold evStep ops (evStart b)"
  shows "Subscriptions (ew_be w) k = int (liveOf w k) \<and> int (liveOf w k) \<le> maxPerPlugin (ew_be w)"
  using evRun_inv[OF assms(1), of ops] evInvD(7,8) assms(2) by blast

text \<open>delivery is in order, without repetition and without invention. What one stream has delivered, after any interleaving, is a subsequence of what was
  published on its topic: events may be missing when the subscriber fell behind, but none is repeated, reordered or made up.
\<close>

theorem events_in_order:
  assumes "emptyBus b" "w = fold evStep ops (evStart b)"
  shows "subseq (deliveredTo w s) (publishedOn w (sb_topic s))"
proof -
  have "subseq (deliveredTo w s @ pending w s) (publishedOn w (sb_topic s))" using evRun_inv[OF assms(1), of ops] evInvD(6) assms(2) by blast
  moreover have "subseq (deliveredTo w s) (deliveredTo w s @ pending w s)"
    using list_emb_append_mono[of "(=)" "deliveredTo w s" "deliveredTo w s" "[]" "pending w s"] by simp
  ultimately show ?thesis by (rule subseq_order.order_trans[rotated])
qed

lemma eventTopic_inj: "CHR '':'' \<notin> set k \<Longrightarrow> CHR '':'' \<notin> set k' \<Longrightarrow> eventTopic k n = eventTopic k' n' \<longleftrightarrow> k = k' \<and> n = n'"
proof
  assume n: "CHR '':'' \<notin> set k" "CHR '':'' \<notin> set k'" and e: "eventTopic k n = eventTopic k' n'"
  have "CHR '':'' \<notin> set k \<Longrightarrow> takeWhile (\<lambda>c. c \<noteq> CHR '':'') (k @ CHR '':'' # n) = k" for k n by (induction k) auto
  then have "takeWhile (\<lambda>c. c \<noteq> CHR '':'') (eventTopic k n) = k" "takeWhile (\<lambda>c. c \<noteq> CHR '':'') (eventTopic k' n') = k'"
    using n by (simp_all add: eventTopic_def)
  then have "k = k'" using e by simp
  then show "k = k' \<and> n = n'" using e by (simp add: eventTopic_def)
qed simp

fun opKey :: "evOp \<Rightarrow> string" where
  "opKey (EvPublish k ev) = k"
| "opKey (EvSubscribe k n) = k"
| "opKey (EvNext ch) = []"
| "opKey (EvEnd ch) = []"

definition plainKeys :: "evOp list \<Rightarrow> bool" where
  "plainKeys ops = list_all (\<lambda>x. CHR '':'' \<notin> set (opKey x)) ops"

text \<open>Where the events a stream delivered come from, and which keys published.\<close>

definition traced :: "EvWorld \<Rightarrow> bool" where
  "traced w \<longleftrightarrow> (\<forall>(ch, s) \<in> set (ew_live w). CHR '':'' \<notin> set (sb_source s)) \<and> (\<forall>(k, n, d) \<in> set (ew_published w). CHR '':'' \<notin> set k) \<and>
     (\<forall>(s, ev) \<in> set (ew_delivered w). CHR '':'' \<notin> set (sb_source s) \<and> ev_SourcePluginKey ev = sb_source s \<and> ev_Name ev = sb_name s)"

lemma traced_step:
  assumes "traced w" "CHR '':'' \<notin> set (opKey x)"
  shows "traced (evStep x w)"
proof (cases x)
  case (EvPublish k ev)
  then show ?thesis using assms by (auto simp: traced_def)
next
  case (EvSubscribe k n)
  obtain r b' where o: "SubscribeOpen k n (ew_next w) (ew_be w) = (r, b')" by (cases "SubscribeOpen k n (ew_next w) (ew_be w)")
  from o show ?thesis
  proof (cases rule: SubscribeOpen_cases)
    case refused
    then show ?thesis using EvSubscribe o assms(1) by (simp add: traced_def)
  next
    case (opened s)
    have k: "CHR '':'' \<notin> set k" using assms(2) EvSubscribe by simp
    have "set (AList.update c v xs) \<subseteq> insert (c, v) (set xs)" for c :: nat and v :: Subscription and xs by (induction xs) auto
    from subsetD[OF this[of "ew_next w" s "ew_live w"]] show ?thesis
      using EvSubscribe o opened(1) opened(9)[OF k] assms(1) by (fastforce simp: traced_def)
  qed
next
  case (EvNext ch)
  have "ev_SourcePluginKey ev = sb_source s \<and> ev_Name ev = sb_name s" if "SubscribeNext s (ew_be w) = (Some ev, b)" for s ev b
    using SubscribeNext_Some(2)[OF that] by simp
  then show ?thesis using EvNext assms(1) by (auto simp: traced_def dest: map_of_SomeD split: option.splits prod.splits)
next
  case (EvEnd ch)
  have "set (AList.delete ch (ew_live w)) \<subseteq> set (ew_live w)" by (auto simp: AList.delete_eq)
  then show ?thesis using EvEnd assms(1) by (auto simp: traced_def split: option.splits)
qed

text \<open>C27: An event delivered under a plugin's name was published by that plugin. When no plugin key contains a colon, every delivered event carries as its source
  the key of a plugin that published an event with exactly that name and content.
\<close>

theorem events_genuine:
  assumes "emptyBus b" "plainKeys ops" "w = fold evStep ops (evStart b)" "(s, ev) \<in> set (ew_delivered w)"
  shows "(ev_SourcePluginKey ev, ev_Name ev, ev_Data ev) \<in> set (ew_published w)"
proof -
  have "plainKeys ops \<Longrightarrow> traced v \<Longrightarrow> traced (fold evStep ops v)" for v
    by (induction ops arbitrary: v) (simp_all add: plainKeys_def traced_step)
  moreover have "traced (evStart b)" by (simp add: traced_def evStart_def)
  ultimately have t: "traced w" using assms(2,3) by blast
  then have s: "CHR '':'' \<notin> set (sb_source s)" "ev_SourcePluginKey ev = sb_source s" "ev_Name ev = sb_name s" using assms(4) by (auto simp: traced_def)
  have "subseq (deliveredTo w s @ pending w s) (publishedOn w (sb_topic s))" using evRun_inv[OF assms(1), of ops] evInvD(6) assms(3) by blast
  moreover have "ev_Data ev \<in> set (deliveredTo w s)" using assms(4) by (force simp: deliveredTo_def)
  ultimately have "ev_Data ev \<in> set (publishedOn w (sb_topic s))" using list_emb_set[of "(=)"] by (metis UnCI set_append)
  then obtain k n where p: "(k, n, ev_Data ev) \<in> set (ew_published w)" "eventTopic k n = sb_topic s" by (auto simp: publishedOn_def)
  then have "CHR '':'' \<notin> set k" using t by (auto simp: traced_def)
  then show ?thesis using p s eventTopic_inj[of k "sb_source s" n "sb_name s"] by (simp add: sb_topic_def)
qed

definition sampleEvent :: "string \<Rightarrow> bytes \<Rightarrow> Event" where
  "sampleEvent n d = \<lparr>ev_Name = n, ev_Data = d, ev_SourcePluginKey = [], ev_TraceID = ''t1''\<rparr>"

definition sampleEvOps :: "evOp list" where
  "sampleEvOps = [EvSubscribe ''audit'' ''shop:order'', EvPublish ''shop'' (sampleEvent ''order'' ''1''), EvPublish ''blog'' (sampleEvent ''order'' ''2''),
     EvNext 0, EvEnd 0]"

theorem subscriptions_bounded_witness:
  "Subscriptions (ew_be (fold evStep (take 4 sampleEvOps) (evStart (NewBusEvents NewEventBus)))) ''audit'' = 1"
proof -
  have e: "emptyBus (NewBusEvents NewEventBus)" by code_simp
  have "liveOf (fold evStep (take 4 sampleEvOps) (evStart (NewBusEvents NewEventBus))) ''audit'' = 1" by code_simp
  then show ?thesis using subscriptions_bounded[OF e refl, of "take 4 sampleEvOps" "''audit''"] by simp
qed

theorem events_in_order_witness:
  "subseq [''1''] (publishedOn (fold evStep sampleEvOps (evStart (NewBusEvents NewEventBus))) ''shop:order'')"
proof -
  let ?s = "\<lparr>sb_key = ''audit'', sb_source = ''shop'', sb_name = ''order'', sb_ch = 0\<rparr>"
  have e: "emptyBus (NewBusEvents NewEventBus)" by code_simp
  have "deliveredTo (fold evStep sampleEvOps (evStart (NewBusEvents NewEventBus))) ?s = [''1'']" "sb_topic ?s = ''shop:order''" by code_simp+
  then show ?thesis using events_in_order[OF e refl, of sampleEvOps ?s] by simp
qed

theorem events_genuine_witness:
  "(''shop'', ''order'', ''1'') \<in> set (ew_published (fold evStep sampleEvOps (evStart (NewBusEvents NewEventBus))))"
proof -
  let ?s = "\<lparr>sb_key = ''audit'', sb_source = ''shop'', sb_name = ''order'', sb_ch = 0\<rparr>"
  let ?e = "\<lparr>ev_Name = ''order'', ev_Data = ''1'', ev_SourcePluginKey = ''shop'', ev_TraceID = []\<rparr>"
  have e: "emptyBus (NewBusEvents NewEventBus)" "plainKeys sampleEvOps" by code_simp+
  have "ew_delivered (fold evStep sampleEvOps (evStart (NewBusEvents NewEventBus))) = [(?s, ?e)]" by code_simp
  then have m: "(?s, ?e) \<in> set (ew_delivered (fold evStep sampleEvOps (evStart (NewBusEvents NewEventBus))))" by simp
  show ?thesis using events_genuine[OF e refl m] by simp
qed

text \<open>the separator is not reserved, so events can be forged. A manifest key with a colon passes validation, and a plugin whose key is another plugin's key
  followed by a colon and more publishes on topics of that other plugin: a subscriber of the other plugin receives the event with the other plugin as its
  source.
\<close>

theorem event_forged:
  assumes "Validate m = Inr ()" "m_Key m = k @ '':'' @ j" "CHR '':'' \<notin> set k"
    "SubscribeOpen sub (k @ '':'' @ j @ '':'' @ n) ch (NewBusEvents NewEventBus) = (Inr s, b)"
  shows "fst (SubscribeNext s (EventsPublish (m_Key m) \<lparr>ev_Name = n, ev_Data = d, ev_SourcePluginKey = m_Key m, ev_TraceID = t\<rparr> b)) =
    Some \<lparr>ev_Name = j @ '':'' @ n, ev_Data = d, ev_SourcePluginKey = k, ev_TraceID = []\<rparr>"
proof -
  have cut: "CHR '':'' \<notin> set k \<Longrightarrow> cutAt (CHR '':'') (k @ CHR '':'' # r) = (k, r, True)" for k r
    by (induction k) (auto simp: cutAt_def beforeByte_def fromByte_def split: if_splits)
  define tp where "tp = k @ CHR '':'' # j @ CHR '':'' # n"
  have s: "s = \<lparr>sb_key = sub, sb_source = k, sb_name = j @ CHR '':'' # n, sb_ch = ch\<rparr>"
    and b: "bv_bus b = \<lparr>eb_subscribers = [(tp, [ch])], eb_chans = [(ch, \<lparr>ch_cap = 64, ch_buf = []\<rparr>)], eb_onDrop = False, eb_dropped = []\<rparr>"
    using assms(4) cut[OF assms(3), of "j @ CHR '':'' # n"]
    by (auto simp: SubscribeOpen_def Let_def NewBusEvents_def NewEventBus_def addSubscription_def Subscriptions_def maxPerPlugin_def
        DefaultMaxSubscriptionsPerPlugin_def BusSubscribe_def subscribersOf_def sb_topic_def eventTopic_def tp_def)
  have "eventTopic (m_Key m) n = tp" by (simp add: eventTopic_def assms(2) tp_def)
  then show ?thesis
    by (simp add: s EventsPublish_def b BusPublish_def subscribersOf_def trySend_def SubscribeNext_def)
qed

theorem event_forged_witness:
  "fst (SubscribeNext \<lparr>sb_key = ''audit'', sb_source = ''shop'', sb_name = ''eu:order'', sb_ch = 0\<rparr>
     (EventsPublish ''shop:eu'' (sampleEvent ''order'' ''x'') (snd (SubscribeOpen ''audit'' ''shop:eu:order'' 0 (NewBusEvents NewEventBus))))) =
   Some \<lparr>ev_Name = ''eu:order'', ev_Data = ''x'', ev_SourcePluginKey = ''shop'', ev_TraceID = []\<rparr>"
proof -
  let ?m = "sampleManifest\<lparr>m_Key := ''shop:eu''\<rparr>" and ?s = "\<lparr>sb_key = ''audit'', sb_source = ''shop'', sb_name = ''eu:order'', sb_ch = 0\<rparr>"
  define r where "r = SubscribeOpen ''audit'' (''shop'' @ '':'' @ ''eu'' @ '':'' @ ''order'') 0 (NewBusEvents NewEventBus)"
  have v: "Validate ?m = Inr ()" "m_Key ?m = ''shop'' @ '':'' @ ''eu''" "CHR '':'' \<notin> set ''shop''" "fst r = Inr ?s" unfolding r_def by code_simp+
  have "r = (Inr ?s, snd r)" using v(4) by (simp add: prod_eq_iff)
  from event_forged[OF v(1-3) this[unfolded r_def]] show ?thesis by (simp add: r_def sampleEvent_def EventsPublish_def)
qed

end
