(* ===== verification/Gateway.thy ===== *)
theory Gateway
  imports Registry Auth Egress
begin

text \<open>
  The request path: \<^verbatim>\<open>src/core/gateway/plugin_handler.go\<close>, which runs the filter phases around every request and routes plugin requests to an
  instance. It composes the pipeline, the registry and the instances. \<open>serve\<close> is the whole handler with its two deferred calls; the log phase the
  first of them starts in the background is \<open>runLog\<close>. The environment \<open>GEnv\<close> gives what a filter and a backend answer, what else happens to
  the registry while a plugin call runs (an upgrade, a disable), the session lookup if there is one, the random trace id, and what the rest of the gateway
  does with a request. A response writer records the header map, the status that was sent and the bytes written, as \<^verbatim>\<open>net/http\<close> does:
  the first final status counts, informational ones do not, and writing without a status sends 200.
\<close>

section \<open>Requests and responses\<close>

record GRequest =
  gr_Method :: string
  gr_Path :: string
  gr_RawQuery :: string
  gr_Header :: headers
  gr_RemoteAddr :: string
  gr_Cookie :: "string option"
  gr_Body :: "(bytes \<times> string option) option"

record RWriter =
  w_header :: headers
  w_status :: "int option"
  w_body :: bytes

definition getHeader :: "headers \<Rightarrow> string \<Rightarrow> string" where
  "getHeader h k = (case map_of h (CanonicalHeaderKey k) of Some (v # _) \<Rightarrow> v | _ \<Rightarrow> [])"

definition wSet :: "string \<Rightarrow> string \<Rightarrow> RWriter \<Rightarrow> RWriter" where
  "wSet k v w = w\<lparr>w_header := AList.update (CanonicalHeaderKey k) [v] (w_header w)\<rparr>"

definition wAdd :: "string \<Rightarrow> string \<Rightarrow> RWriter \<Rightarrow> RWriter" where
  "wAdd k v w = w\<lparr>w_header := AList.update (CanonicalHeaderKey k)
     ((case map_of (w_header w) (CanonicalHeaderKey k) of None \<Rightarrow> [] | Some vs \<Rightarrow> vs) @ [v]) (w_header w)\<rparr>"

definition informational :: "int \<Rightarrow> bool" where
  "informational c = (100 \<le> c \<and> c \<le> 199 \<and> c \<noteq> 101)"

definition WriteHeader :: "int \<Rightarrow> RWriter \<Rightarrow> RWriter" where
  "WriteHeader c w = (if w_status w = None \<and> \<not> informational c then w\<lparr>w_status := Some c\<rparr> else w)"

definition wWrite :: "bytes \<Rightarrow> RWriter \<Rightarrow> RWriter" where
  "wWrite b w = (WriteHeader 200 w)\<lparr>w_body := w_body w @ b\<rparr>"

definition httpError :: "string \<Rightarrow> int \<Rightarrow> RWriter \<Rightarrow> RWriter" where
  "httpError msg code w =
     wWrite (msg @ [CHR 0x0A]) (WriteHeader code (wSet ''X-Content-Type-Options'' ''nosniff''
       (wSet ''Content-Type'' ''text/plain; charset=utf-8'' (w\<lparr>w_header := AList.delete ''Content-Length'' (w_header w)\<rparr>))))"

text \<open>What a downstream handler does with its response writer.\<close>

datatype wAct = ASet string string | AStatus int | ABody bytes | AFlush

fun wActs :: "wAct list \<Rightarrow> RWriter \<Rightarrow> RWriter" where
  "wActs [] w = w"
| "wActs (ASet k v # as) w = wActs as (wSet k v w)"
| "wActs (AStatus c # as) w = wActs as (WriteHeader c w)"
| "wActs (ABody b # as) w = wActs as (wWrite b w)"
| "wActs (AFlush # as) w = wActs as (WriteHeader 200 w)"

record recorder =
  re_w :: RWriter
  re_status :: int
  re_capture :: bool
  re_buf :: bytes

definition newRecorder :: "RWriter \<Rightarrow> bool \<Rightarrow> recorder" where
  "newRecorder w capture = \<lparr>re_w = w, re_status = 200, re_capture = capture, re_buf = []\<rparr>"

definition recWriteHeader :: "int \<Rightarrow> recorder \<Rightarrow> recorder" where
  "recWriteHeader c r = r\<lparr>re_status := c, re_w := WriteHeader c (re_w r)\<rparr>"

definition recWrite :: "bytes \<Rightarrow> recorder \<Rightarrow> recorder" where
  "recWrite b r = r\<lparr>re_buf := (if re_capture r then re_buf r @ b else re_buf r), re_w := wWrite b (re_w r)\<rparr>"

definition recFlush :: "recorder \<Rightarrow> recorder" where
  "recFlush r = r\<lparr>re_w := WriteHeader 200 (re_w r)\<rparr>"

definition recBody :: "recorder \<Rightarrow> bytes" where
  "recBody r = (if re_capture r then re_buf r else [])"

fun recActs :: "wAct list \<Rightarrow> recorder \<Rightarrow> recorder" where
  "recActs [] r = r"
| "recActs (ASet k v # as) r = recActs as (r\<lparr>re_w := wSet k v (re_w r)\<rparr>)"
| "recActs (AStatus c # as) r = recActs as (recWriteHeader c r)"
| "recActs (ABody b # as) r = recActs as (recWrite b r)"
| "recActs (AFlush # as) r = recActs as (recFlush r)"

section \<open>Paths\<close>

definition PluginAPIPrefix :: string where "PluginAPIPrefix = ''/api/plugins/''"

text \<open>\<^verbatim>\<open>path.Clean\<close> of the standard library.\<close>

fun cleanSegs :: "bool \<Rightarrow> string list \<Rightarrow> string list \<Rightarrow> string list" where
  "cleanSegs rooted acc [] = rev acc"
| "cleanSegs rooted acc (s # ss) =
     (if s = [] \<or> s = ''.'' then cleanSegs rooted acc ss
      else if s = ''..'' then
        (case acc of
           [] \<Rightarrow> cleanSegs rooted (if rooted then [] else [s]) ss
         | a # as \<Rightarrow> cleanSegs rooted (if a = ''..'' then s # acc else as) ss)
      else cleanSegs rooted (s # acc) ss)"

definition pathClean :: "string \<Rightarrow> string" where
  "pathClean p =
     (let rooted = hasPrefix p ''/''; segs = cleanSegs rooted [] (splitOn (CHR ''/'') p)
      in if rooted then ''/'' @ joinWith ''/'' segs else if segs = [] then ''.'' else joinWith ''/'' segs)"

definition cleanSubPath :: "string \<Rightarrow> string" where
  "cleanSubPath sub =
     (let cleaned = pathClean sub in if hasSuffix sub ''/'' \<and> \<not> hasSuffix cleaned ''/'' then cleaned @ ''/'' else cleaned)"

definition splitPluginPath :: "string \<Rightarrow> (string \<times> string) option" where
  "splitPluginPath p =
     (let rest = trimPrefix p PluginAPIPrefix
      in if rest = p \<or> rest = [] then None
         else if CHR ''/'' \<notin> set rest then Some (rest, ''/'')
         else Some (beforeByte (CHR ''/'') rest, cleanSubPath (fromByte (CHR ''/'') rest)))"

definition traceIDFor :: "string \<Rightarrow> GRequest \<Rightarrow> string" where
  "traceIDFor fresh r =
     (let tp = getHeader (gr_Header r) ''traceparent''; parts = splitOn (CHR ''-'') tp; rid = getHeader (gr_Header r) ''X-Request-Id''
      in if tp \<noteq> [] \<and> 3 \<le> length parts \<and> length (parts ! 1) = 32 \<and> parts ! 1 \<noteq> replicate 32 (CHR ''0'') then parts ! 1
         else if rid \<noteq> [] then rid else fresh)"

definition clientIP :: "GRequest \<Rightarrow> string" where
  "clientIP r = (case SplitHostPort (gr_RemoteAddr r) of Some (host, _) \<Rightarrow> host | None \<Rightarrow> gr_RemoteAddr r)"

definition normalizeStatus :: "int \<Rightarrow> int" where
  "normalizeStatus code = (if code = 0 then 200 else if code < 100 \<or> code > 599 then 502 else code)"

section \<open>The handler\<close>

record BackendRequest =
  br_TraceId :: string
  br_Method :: string
  br_Path :: string
  br_Query :: string
  br_Headers :: headers
  br_Body :: bytes
  br_Identity :: "Identity option"
  br_ClientIp :: string

record GEnv =
  ge_reply :: "nat \<Rightarrow> int \<Rightarrow> FilterRequest \<Rightarrow> Host \<Rightarrow> string + FilterResponse"
  ge_backend :: "nat \<Rightarrow> int \<Rightarrow> BackendRequest \<Rightarrow> Host \<Rightarrow> string + HttpResponse"
  ge_during :: "nat \<Rightarrow> Host \<Rightarrow> Host"
  ge_auth :: "(string \<Rightarrow> User option) option"
  ge_trace :: string
  ge_next :: "GRequest \<Rightarrow> wAct list"

record PluginHandler =
  ph_BackendTimeout :: int
  ph_MaxBodyBytes :: int

definition DefaultBackendTimeout :: int where "DefaultBackendTimeout = 30 * second"
definition DefaultMaxRequestBody :: int where "DefaultMaxRequestBody = 8 * 2 ^ 20"

definition backendTimeout :: "PluginHandler \<Rightarrow> int" where
  "backendTimeout h = (if ph_BackendTimeout h > 0 then ph_BackendTimeout h else DefaultBackendTimeout)"

definition maxBody :: "PluginHandler \<Rightarrow> int" where
  "maxBody h = (if ph_MaxBodyBytes h > 0 then ph_MaxBodyBytes h else DefaultMaxRequestBody)"

text \<open>The pipeline's view of the registry, with the interference while a filter call runs.\<close>

definition gwOps :: "GEnv \<Rightarrow> (nat, nat, Host) TargetOps" where
  "gwOps env = (hostOps (ge_reply env))\<lparr>op_Filter := (\<lambda>a d q h. (ge_reply env a d q h, ge_during env a h))\<rparr>"

record GState =
  gs_w :: RWriter
  gs_run :: "(nat, Host) RunState"
  gs_called :: "(nat \<times> BackendRequest) list"

abbreviation gs_rc :: "GState \<Rightarrow> nat RequestContext" where "gs_rc gs \<equiv> rs_rc (gs_run gs)"

definition onW :: "(RWriter \<Rightarrow> RWriter) \<Rightarrow> GState \<Rightarrow> GState" where
  "onW f gs = gs\<lparr>gs_w := f (gs_w gs)\<rparr>"

definition onRc :: "(nat RequestContext \<Rightarrow> nat RequestContext) \<Rightarrow> GState \<Rightarrow> GState" where
  "onRc f gs = gs\<lparr>gs_run := (gs_run gs)\<lparr>rs_rc := f (gs_rc gs)\<rparr>\<rparr>"

definition readBody :: "PluginHandler \<Rightarrow> GRequest \<Rightarrow> GState \<Rightarrow> (unit + bytes) \<times> GState" where
  "readBody h r gs =
     (case gr_Body r of
        None \<Rightarrow> (Inr [], gs)
      | Some (b, e) \<Rightarrow>
          if int (length b) > maxBody h then (Inl (), onW (\<lambda>w. httpError ''request body too large'' 413 (wSet ''Connection'' ''close'' w)) gs)
          else if e \<noteq> None then (Inl (), onW (httpError ''request body too large'' 413) gs)
          else (Inr b, gs))"

definition addAll :: "headers \<Rightarrow> RWriter \<Rightarrow> RWriter" where
  "addAll hs w = fold (\<lambda>(k, vs) w. fold (wAdd k) vs w) hs w"

definition writeResponse :: "HttpResponse \<Rightarrow> GState \<Rightarrow> GState" where
  "writeResponse resp gs =
     (let status = normalizeStatus (hr_StatusCode resp);
          gs1 = onRc (\<lambda>rc. rc\<lparr>rc_ResponseStatus := status, rc_ResponseHeader := FromProtoHeaders (hr_Headers resp), rc_ResponseBody := hr_Body resp\<rparr>) gs
      in onW (\<lambda>w. wWrite (hr_Body resp) (WriteHeader status (addAll (hr_Headers resp) w))) gs1)"

definition writeFinal :: "GState \<Rightarrow> GState" where
  "writeFinal gs =
     onW (\<lambda>w. wWrite (rc_ResponseBody (gs_rc gs)) (WriteHeader (normalizeStatus (rc_ResponseStatus (gs_rc gs))) (addAll (rc_ResponseHeader (gs_rc gs)) w))) gs"

text \<open>One phase; the rest of the request when no filter stopped it.\<close>

definition phaseThen :: "GEnv \<Rightarrow> Chain \<Rightarrow> Phase \<Rightarrow> GState \<Rightarrow> (GState \<Rightarrow> GState) \<Rightarrow> GState" where
  "phaseThen env chain ph gs k =
     (case Run (gwOps env) (Some chain) ph (gs_run gs) of
        (Some resp, st) \<Rightarrow> writeResponse resp (gs\<lparr>gs_run := st\<rparr>)
      | (None, st) \<Rightarrow> k (gs\<lparr>gs_run := st\<rparr>))"

datatype backend_err = PluginUnavailable string bool | BackendFailed string

definition unavailableStatus :: "backend_err \<Rightarrow> int" where
  "unavailableStatus e = (case e of PluginUnavailable key gone \<Rightarrow> (if gone then 404 else 503) | BackendFailed _ \<Rightarrow> 502)"

definition backendError :: "backend_err \<Rightarrow> string" where
  "backendError e = (case e of
     PluginUnavailable key gone \<Rightarrow> ''plugin '' @ key @ (if gone then '' is not enabled'' else '' is not accepting requests'')
   | BackendFailed msg \<Rightarrow> msg)"

definition dispatch :: "PluginHandler \<Rightarrow> GEnv \<Rightarrow> nat \<Rightarrow> string \<Rightarrow> GState \<Rightarrow> (backend_err + HttpResponse) \<times> GState" where
  "dispatch h env a sub gs =
     (let rc = gs_rc gs; st = gs_run gs;
          req = \<lparr>br_TraceId = rc_TraceID rc, br_Method = rc_Method rc, br_Path = sub, br_Query = rc_Query rc, br_Headers = ToProtoHeaders (rc_Header rc),
                 br_Body = rc_RequestBody rc, br_Identity = rc_Identity rc, br_ClientIp = rc_ClientIP rc\<rparr>;
          gs1 = gs\<lparr>gs_called := gs_called gs @ [(a, req)]\<rparr>;
          w1 = ge_during env a (rs_world st)
      in case ge_backend env a (backendTimeout h) req (rs_world st) of
           Inl err \<Rightarrow> (Inl (BackendFailed err), gs1\<lparr>gs_run := st\<lparr>rs_world := op_RecordFailure (gwOps env) a w1\<rparr>\<rparr>)
         | Inr resp \<Rightarrow> (Inr resp, gs1\<lparr>gs_run := st\<lparr>rs_world := op_RecordSuccess (gwOps env) a w1\<rparr>\<rparr>))"

text \<open>Picking an instance from a snapshot and reserving it for the request.\<close>

definition admitPick :: "GEnv \<Rightarrow> Snapshot \<Rightarrow> string \<Rightarrow> nat option \<Rightarrow> GState \<Rightarrow> (nat option \<times> bool) \<times> GState" where
  "admitPick env snap key other gs =
     (let st = gs_run gs
      in case Pick snap key (rs_world st) of
           (None, w1) \<Rightarrow> ((None, False), gs\<lparr>gs_run := st\<lparr>rs_world := w1\<rparr>\<rparr>)
         | (Some a, w1) \<Rightarrow>
             if other = Some a then ((Some a, False), gs\<lparr>gs_run := st\<lparr>rs_world := w1\<rparr>\<rparr>)
             else (case Admit (rs_rc st) key (op_Begin (gwOps env) a) w1 of
                     (ok, rc1, w2) \<Rightarrow> ((Some a, ok), gs\<lparr>gs_run := st\<lparr>rs_rc := rc1, rs_world := w2\<rparr>\<rparr>)))"

definition callBackend :: "PluginHandler \<Rightarrow> GEnv \<Rightarrow> Snapshot \<Rightarrow> string \<Rightarrow> string \<Rightarrow> GState \<Rightarrow> (backend_err + HttpResponse) \<times> GState" where
  "callBackend h env snap key sub gs =
     (case admitPick env snap key None gs of
        ((Some a, True), gs1) \<Rightarrow> dispatch h env a sub gs1
      | ((inst, _), gs1) \<Rightarrow>
          (case admitPick env (h_snap (rs_world (gs_run gs1))) key inst gs1 of
             ((Some b, True), gs2) \<Rightarrow> dispatch h env b sub gs2
           | ((next, _), gs2) \<Rightarrow> (Inl (PluginUnavailable key (next = None)), gs2)))"

definition toHReq :: "GRequest \<Rightarrow> HReq" where
  "toHReq r = \<lparr>hq_Method = gr_Method r, hq_Path = gr_Path r, hq_Authorization = getHeader (gr_Header r) ''Authorization'', hq_Cookie = gr_Cookie r, hq_Body = None\<rparr>"

definition resolveIdentity :: "GEnv \<Rightarrow> GRequest \<Rightarrow> GState \<Rightarrow> GState" where
  "resolveIdentity env r gs =
     (case ge_auth env of
        None \<Rightarrow> gs
      | Some resolve \<Rightarrow>
          (case resolve (SessionToken (toHReq r)) of
             None \<Rightarrow> gs
           | Some user \<Rightarrow> onRc (\<lambda>rc. rc\<lparr>rc_Identity := Some \<lparr>id_UserId = itoa (ur_ID user), id_Username = ur_Username user, id_Roles = [ur_Role user]\<rparr>\<rparr>) gs))"

definition finishBackend :: "PluginHandler \<Rightarrow> GEnv \<Rightarrow> Chain \<Rightarrow> (backend_err + HttpResponse) \<Rightarrow> GState \<Rightarrow> GState" where
  "finishBackend h env chain res gs =
     (case res of
        Inl e \<Rightarrow>
          let status = unavailableStatus e; gs1 = onRc (\<lambda>rc. rc\<lparr>rc_ResponseStatus := status\<rparr>) gs
          in phaseThen env chain PHASE_ON_ERROR gs1 (\<lambda>gs2. onW (httpError (backendError e) status) gs2)
      | Inr resp \<Rightarrow>
          let gs1 = onRc (\<lambda>rc. rc\<lparr>rc_ResponseStatus := hr_StatusCode resp, rc_ResponseHeader := FromProtoHeaders (hr_Headers resp),
                      rc_ResponseBody := hr_Body resp\<rparr>) gs;
              post = (\<lambda>gs2. phaseThen env chain PHASE_POST_HANDLER gs2 writeFinal)
          in if hr_StatusCode resp \<ge> 500 then phaseThen env chain PHASE_ON_ERROR gs1 post else post gs1)"

definition routePlugin :: "PluginHandler \<Rightarrow> GEnv \<Rightarrow> Snapshot \<Rightarrow> Chain \<Rightarrow> GState \<Rightarrow> GState" where
  "routePlugin h env snap chain gs =
     (case splitPluginPath (rc_Path (gs_rc gs)) of
        None \<Rightarrow> onW (httpError ''404 page not found'' 404) gs
      | Some (key, sub) \<Rightarrow> (case callBackend h env snap key sub gs of (res, gs1) \<Rightarrow> finishBackend h env chain res gs1))"

definition servePlugin :: "PluginHandler \<Rightarrow> GEnv \<Rightarrow> GRequest \<Rightarrow> Snapshot \<Rightarrow> Chain \<Rightarrow> GState \<Rightarrow> GState" where
  "servePlugin h env r snap chain gs =
     phaseThen env chain PHASE_AUTHENTICATE (resolveIdentity env r gs) (\<lambda>gs1.
     phaseThen env chain PHASE_AUTHORIZE gs1 (\<lambda>gs2.
       if ge_auth env \<noteq> None \<and> rc_Identity (gs_rc gs2) = None
       then onW (httpError ''unauthenticated'' 401) (onRc (\<lambda>rc. rc\<lparr>rc_ResponseStatus := 401\<rparr>) gs2)
       else phaseThen env chain PHASE_PRE_HANDLER gs2 (routePlugin h env snap chain)))"

definition releaseNow :: "GEnv \<Rightarrow> GState \<Rightarrow> GState" where
  "releaseNow env gs =
     (case ReleaseAdmissions (op_Release (gwOps env)) (gs_rc gs) (rs_world (gs_run gs)) of
        (rc, w) \<Rightarrow> gs\<lparr>gs_run := (gs_run gs)\<lparr>rs_rc := rc, rs_world := w\<rparr>\<rparr>)"

definition serveNext :: "GEnv \<Rightarrow> GRequest \<Rightarrow> Chain \<Rightarrow> GState \<Rightarrow> GState" where
  "serveNext env r chain gs0 =
     (let gs = releaseNow env gs0
      in if \<not> HasPhase chain PHASE_POST_HANDLER \<and> \<not> HasPhase chain PHASE_LOG then onW (wActs (ge_next env r)) gs
         else let rec = recActs (ge_next env r) (newRecorder (gs_w gs) (NeedsResponseBody chain))
              in onRc (\<lambda>rc. rc\<lparr>rc_ResponseStatus := re_status rec, rc_ResponseHeader := w_header (re_w rec), rc_ResponseBody := recBody rec\<rparr>)
                   (gs\<lparr>gs_w := re_w rec\<rparr>))"

text \<open>The request as the rest of the gateway finds it once its body has been read to the end: nothing puts the bytes back.\<close>

definition drained :: "GRequest \<Rightarrow> GRequest" where
  "drained r = r\<lparr>gr_Body := map_option (\<lambda>_. ([], None)) (gr_Body r)\<rparr>"

text \<open>Reading the body where it is needed; a body that cannot be read ends the request.\<close>

definition withBody :: "PluginHandler \<Rightarrow> GRequest \<Rightarrow> bool \<Rightarrow> GState \<Rightarrow> (GState \<Rightarrow> GState) \<Rightarrow> GState" where
  "withBody h r needed gs k =
     (if \<not> needed then k gs
      else case readBody h r gs of
        (Inl _, gs1) \<Rightarrow> onRc (\<lambda>rc. rc\<lparr>rc_ResponseStatus := 413\<rparr>) gs1
      | (Inr b, gs1) \<Rightarrow> k (onRc (\<lambda>rc. rc\<lparr>rc_RequestBody := b\<rparr>) gs1))"

definition serveBody :: "PluginHandler \<Rightarrow> GEnv \<Rightarrow> GRequest \<Rightarrow> Snapshot \<Rightarrow> Chain \<Rightarrow> GState \<Rightarrow> GState" where
  "serveBody h env r snap chain gs =
     (let isPluginRoute = hasPrefix (gr_Path r) PluginAPIPrefix; buffered = (NeedsRequestBody chain \<or> isPluginRoute)
      in withBody h r buffered gs (\<lambda>gs1.
         phaseThen env chain PHASE_PRE_ROUTE gs1 (\<lambda>gs2.
           if isPluginRoute then servePlugin h env r snap chain gs2
           else if hasPrefix (rc_Path (gs_rc gs2)) PluginAPIPrefix then withBody h r (\<not> buffered) gs2 (servePlugin h env r snap chain)
           else serveNext env (if buffered then drained r else r) chain gs2)))"

record Served =
  sv_w :: RWriter
  sv_chain :: Chain
  sv_logged :: "nat RequestContext"
  sv_called :: "(nat \<times> BackendRequest) list"
  sv_reports :: "(Filter \<times> filter_err) list"
  sv_world :: Host

definition serve :: "PluginHandler \<Rightarrow> GEnv \<Rightarrow> GRequest \<Rightarrow> RWriter \<Rightarrow> Host \<Rightarrow> Served" where
  "serve h env r w host =
     (let snap = h_snap host; chain = sn_chain snap; traceID = traceIDFor (ge_trace env) r;
          rc = NewRequestContext traceID (gr_Method r) (gr_Path r) (gr_RawQuery r) (gr_Header r) (clientIP r) (h_now host);
          gs = serveBody h env r snap chain
                 \<lparr>gs_w = wSet ''X-Request-Id'' traceID w, gs_run = \<lparr>rs_rc = rc, rs_world = host, rs_reports = []\<rparr>, gs_called = []\<rparr>;
          done = releaseNow env gs
      in \<lparr>sv_w = gs_w gs, sv_chain = chain, sv_logged = ForAsync (gs_rc gs), sv_called = gs_called gs, sv_reports = rs_reports (gs_run gs),
          sv_world = rs_world (gs_run done)\<rparr>)"

text \<open>The log phase, on the registry as it is when its goroutine runs.\<close>

definition runLog :: "GEnv \<Rightarrow> Served \<Rightarrow> Host \<Rightarrow> (nat, Host) RunState" where
  "runLog env s host = RunAsync (gwOps env) (Some (sv_chain s)) PHASE_LOG \<lparr>rs_rc = sv_logged s, rs_world = host, rs_reports = []\<rparr>"

section \<open>Paths a plugin can see\<close>

lemma cleanSegs_rooted:
  "list_all (\<lambda>s. s \<noteq> [] \<and> s \<noteq> ''.'' \<and> s \<noteq> ''..'' \<and> CHR ''/'' \<notin> set s) acc \<Longrightarrow> list_all (\<lambda>s. CHR ''/'' \<notin> set s) ss \<Longrightarrow>
   list_all (\<lambda>s. s \<noteq> [] \<and> s \<noteq> ''.'' \<and> s \<noteq> ''..'' \<and> CHR ''/'' \<notin> set s) (cleanSegs True acc ss)"
proof (induction True acc ss rule: cleanSegs.induct)
  case (1 acc)
  then show ?case by (simp add: list_all_iff)
next
  case (2 acc s ss)
  then show ?case by (auto split: list.splits)
qed

lemma splitOn_join:
  assumes "list_all (\<lambda>s. c \<notin> set s) ss" "ss \<noteq> []"
  shows "splitOn c (joinWith [c] ss) = ss"
  using assms
proof (induction ss rule: induct_list012)
  case (3 a b ss)
  then show ?case by (simp add: splitOn_append)
qed simp_all

text \<open>The segments of a path are safe to join under a directory: none climbs out of it.\<close>

definition safePath :: "string \<Rightarrow> bool" where
  "safePath p = (hasPrefix p ''/'' \<and> list_all (\<lambda>s. s \<noteq> ''..'' \<and> s \<noteq> ''.'') (splitOn (CHR ''/'') p))"

lemma pathClean_safe:
  assumes "hasPrefix p ''/''"
  shows "\<exists>segs. pathClean p = CHR ''/'' # joinWith ''/'' segs \<and> list_all (\<lambda>s. s \<noteq> [] \<and> s \<noteq> ''.'' \<and> s \<noteq> ''..'' \<and> CHR ''/'' \<notin> set s) segs"
proof -
  have "list_all (\<lambda>s. CHR ''/'' \<notin> set s) (splitOn (CHR ''/'') p)" using splitOn_parts by (auto simp: list_all_iff)
  then show ?thesis using assms cleanSegs_rooted[of "[]" "splitOn (CHR ''/'') p"] by (auto simp: pathClean_def Let_def)
qed

lemma cleanSubPath_safe:
  assumes "hasPrefix p ''/''"
  shows "safePath (cleanSubPath p)"
proof -
  obtain segs where c: "pathClean p = CHR ''/'' # joinWith ''/'' segs"
    and s: "list_all (\<lambda>s. s \<noteq> [] \<and> s \<noteq> ''.'' \<and> s \<noteq> ''..'' \<and> CHR ''/'' \<notin> set s) segs"
    using pathClean_safe[OF assms] by blast
  have s': "list_all (\<lambda>s. CHR ''/'' \<notin> set s) segs" using s by (simp add: list_all_iff)
  have parts: "splitOn (CHR ''/'') (CHR ''/'' # joinWith ''/'' segs) = [] # (if segs = [] then [[]] else segs)"
    using splitOn_join[OF s'] by (cases segs) simp_all
  have parts': "splitOn (CHR ''/'') (CHR ''/'' # joinWith ''/'' segs @ ''/'') = [] # (if segs = [] then [[]] else segs) @ [[]]"
  proof (cases "segs = []")
    case False
    have "joinWith ''/'' segs @ ''/'' = joinWith ''/'' (segs @ [[]])" using False
      by (induction segs rule: induct_list012) simp_all
    moreover have "list_all (\<lambda>s. CHR ''/'' \<notin> set s) (segs @ [[]])" using s' by simp
    ultimately show ?thesis using splitOn_join[of "CHR ''/''" "segs @ [[]]"] False by simp
  qed simp
  show ?thesis
  proof (cases "hasSuffix p ''/'' \<and> \<not> hasSuffix (pathClean p) ''/''")
    case True
    then have "cleanSubPath p = CHR ''/'' # joinWith ''/'' segs @ ''/''" by (simp add: cleanSubPath_def c Let_def)
    then show ?thesis using s parts' by (auto simp: safePath_def list_all_iff)
  next
    case False
    then have "cleanSubPath p = CHR ''/'' # joinWith ''/'' segs" by (auto simp: cleanSubPath_def c Let_def)
    then show ?thesis using s parts by (auto simp: safePath_def list_all_iff)
  qed
qed

lemma splitPluginPath_Some:
  assumes "splitPluginPath p = Some (key, sub)"
  shows "CHR ''/'' \<notin> set key" "safePath sub" "hasPrefix p PluginAPIPrefix"
proof -
  have ff: "hasPrefix (fromByte (CHR ''/'') x) ''/''" if "CHR ''/'' \<in> set x" for x
    using that by (induction x) (auto simp: fromByte_def)
  show "CHR ''/'' \<notin> set key" using assms by (auto simp: splitPluginPath_def Let_def beforeByte_def split: if_splits dest: set_takeWhileD)
  show "safePath sub" using assms ff cleanSubPath_safe by (auto simp: splitPluginPath_def Let_def safePath_def split: if_splits)
  show "hasPrefix p PluginAPIPrefix" using assms by (auto simp: splitPluginPath_def Let_def trimPrefix_def split: if_splits)
qed

section \<open>What the phases leave alone\<close>

lemma gwRun_frame:
  assumes "Run (gwOps env) (Some c) ph st = (res, st')"
  shows "samePart (rs_rc st) (rs_rc st')" "\<not> identityMutationAllowed ph \<Longrightarrow> rc_Identity (rs_rc st') = rc_Identity (rs_rc st)"
    "rc_Identity (rs_rc st') = rc_Identity (rs_rc st) \<or> list_ex fl_AllowIdentityMutation (Filters c ph)"
  using runFilters_frame(1)[OF assms[unfolded Run_runFilters]] by (auto simp: phaseFrame_def list_ex_iff)

lemma phaseThen_cases:
  obtains (stopped) resp st where "Run (gwOps env) (Some c) ph (gs_run gs) = (Some resp, st)" "phaseThen env c ph gs k = writeResponse resp (gs\<lparr>gs_run := st\<rparr>)"
  | (passed) st where "Run (gwOps env) (Some c) ph (gs_run gs) = (None, st)" "phaseThen env c ph gs k = k (gs\<lparr>gs_run := st\<rparr>)"
  by (cases "Run (gwOps env) (Some c) ph (gs_run gs)", cases "fst (Run (gwOps env) (Some c) ph (gs_run gs))") (auto simp: phaseThen_def)

lemma writer_called [simp]:
  "gs_called (onW f gs) = gs_called gs" "gs_called (onRc g gs) = gs_called gs" "gs_called (writeResponse resp gs) = gs_called gs"
  "gs_called (writeFinal gs) = gs_called gs" "gs_run (onW f gs) = gs_run gs" "gs_w (onRc g gs) = gs_w gs" "gs_w (onW f gs) = f (gs_w gs)"
  "gs_rc (onRc g gs) = g (gs_rc gs)" "rs_world (gs_run (onRc g gs)) = rs_world (gs_run gs)"
  by (simp_all add: onW_def onRc_def writeResponse_def writeFinal_def Let_def)

text \<open>The parts of the request no filter can change.\<close>

definition fromReq :: "GEnv \<Rightarrow> GRequest \<Rightarrow> nat RequestContext \<Rightarrow> bool" where
  "fromReq env r rc \<longleftrightarrow> rc_TraceID rc = traceIDFor (ge_trace env) r \<and> rc_Method rc = gr_Method r \<and> rc_Query rc = gr_RawQuery r \<and> rc_ClientIP rc = clientIP r"

lemma fromReq_samePart: "samePart rc rc' \<Longrightarrow> fromReq env r rc \<Longrightarrow> fromReq env r rc'"
  by (auto simp: samePart_def fromReq_def)

lemma resolveIdentity_keeps:
  "fromReq env r (gs_rc (resolveIdentity env q gs)) = fromReq env r (gs_rc gs)" "gs_called (resolveIdentity env q gs) = gs_called gs"
  "rc_ResponseStatus (gs_rc (resolveIdentity env q gs)) = rc_ResponseStatus (gs_rc gs)" "gs_w (resolveIdentity env q gs) = gs_w gs"
  "rc_admissions (gs_rc (resolveIdentity env q gs)) = rc_admissions (gs_rc gs)" "rs_world (gs_run (resolveIdentity env q gs)) = rs_world (gs_run gs)"
  by (auto simp: resolveIdentity_def fromReq_def split: option.splits)

section \<open>What reaches a plugin\<close>

text \<open>Who the caller is: the session's user, unless a plugin allowed to authenticate says otherwise.\<close>

definition sessionIdentity :: "GEnv \<Rightarrow> GRequest \<Rightarrow> Identity option" where
  "sessionIdentity env r = (case ge_auth env of None \<Rightarrow> None | Some resolve \<Rightarrow>
     map_option (\<lambda>u. \<lparr>id_UserId = itoa (ur_ID u), id_Username = ur_Username u, id_Roles = [ur_Role u]\<rparr>) (resolve (SessionToken (toHReq r))))"

definition identityOk :: "GEnv \<Rightarrow> GRequest \<Rightarrow> Chain \<Rightarrow> Identity option \<Rightarrow> bool" where
  "identityOk env r c i \<longleftrightarrow> i = sessionIdentity env r \<or> list_ex fl_AllowIdentityMutation (Filters c PHASE_AUTHENTICATE @ Filters c PHASE_AUTHORIZE)"

definition callOk :: "GEnv \<Rightarrow> GRequest \<Rightarrow> Chain \<Rightarrow> BackendRequest \<Rightarrow> bool" where
  "callOk env r c req \<longleftrightarrow> (ge_auth env = None \<or> br_Identity req \<noteq> None) \<and> identityOk env r c (br_Identity req) \<and> safePath (br_Path req) \<and> br_TraceId req = traceIDFor (ge_trace env) r \<and>
     br_Method req = gr_Method r \<and> br_Query req = gr_RawQuery r \<and> br_ClientIp req = clientIP r"

definition calledOk :: "GEnv \<Rightarrow> GRequest \<Rightarrow> Chain \<Rightarrow> GState \<Rightarrow> bool" where
  "calledOk env r c gs \<longleftrightarrow> gs_called gs = [] \<or> (\<exists>a req. gs_called gs = [(a, req)] \<and> callOk env r c req)"

lemma calledOk_phase:
  assumes "calledOk env r c gs" "\<And>st. Run (gwOps env) (Some c) ph (gs_run gs) = (None, st) \<Longrightarrow> calledOk env r c (k (gs\<lparr>gs_run := st\<rparr>))"
  shows "calledOk env r c (phaseThen env c ph gs k)"
  using assms by (cases rule: phaseThen_cases[of env c ph gs k]) (simp_all add: calledOk_def)

lemma Admit_same: "Admit rc key bg w = (ok, rc', w') \<Longrightarrow> samePart rc rc' \<and> rc_Identity rc' = rc_Identity rc"
  using Admit_facts(1)[of rc key bg w ok rc' w' PHASE_LOG False] by (simp add: phaseFrame_def)

lemma admitPick_keeps:
  assumes "admitPick env snap key other gs = (p, gs')"
  shows "samePart (gs_rc gs) (gs_rc gs')" "rc_Identity (gs_rc gs') = rc_Identity (gs_rc gs)" "gs_called gs' = gs_called gs" "gs_w gs' = gs_w gs"
proof -
  have "samePart (gs_rc gs) (gs_rc gs)" by (simp add: samePart_def)
  then show "samePart (gs_rc gs) (gs_rc gs')" "rc_Identity (gs_rc gs') = rc_Identity (gs_rc gs)" "gs_called gs' = gs_called gs" "gs_w gs' = gs_w gs"
    using assms by (auto simp: admitPick_def Let_def dest: Admit_same split: option.splits prod.splits if_splits)
qed

lemma dispatch_facts:
  assumes "dispatch h env a sub gs = (res, gs')"
  shows "gs_rc gs' = gs_rc gs" "gs_w gs' = gs_w gs"
    "\<exists>req. gs_called gs' = gs_called gs @ [(a, req)] \<and> br_Identity req = rc_Identity (gs_rc gs) \<and> br_Path req = sub \<and> br_TraceId req = rc_TraceID (gs_rc gs) \<and>
       br_Method req = rc_Method (gs_rc gs) \<and> br_Query req = rc_Query (gs_rc gs) \<and> br_ClientIp req = rc_ClientIP (gs_rc gs)"
  using assms by (auto simp: dispatch_def Let_def split: sum.splits)

lemma callBackend_cases:
  assumes "callBackend h env snap key sub gs = (res, gs')"
  obtains (called) a gs1 where "dispatch h env a sub gs1 = (res, gs')" "samePart (gs_rc gs) (gs_rc gs1)" "rc_Identity (gs_rc gs1) = rc_Identity (gs_rc gs)"
      "gs_called gs1 = gs_called gs" "gs_w gs1 = gs_w gs"
  | (refused) gone where "res = Inl (PluginUnavailable key gone)" "samePart (gs_rc gs) (gs_rc gs')" "gs_called gs' = gs_called gs" "gs_w gs' = gs_w gs"
proof -
  obtain i ok gs1 where 1: "admitPick env snap key None gs = ((i, ok), gs1)" by (cases "admitPick env snap key None gs") auto
  note A = admitPick_keeps[OF 1]
  obtain j ok2 gs2 where 2: "admitPick env (h_snap (rs_world (gs_run gs1))) key i gs1 = ((j, ok2), gs2)"
    by (cases "admitPick env (h_snap (rs_world (gs_run gs1))) key i gs1") auto
  note B = admitPick_keeps[OF 2]
  have tr: "samePart (gs_rc gs) (gs_rc gs2)" using A(1) B(1) by (auto simp: samePart_def)
  show ?thesis
  proof (cases "\<exists>a. i = Some a \<and> ok")
    case True
    then show ?thesis using assms 1 called[OF _ A] by (auto simp: callBackend_def)
  next
    case no: False
    show ?thesis
    proof (cases "\<exists>b. j = Some b \<and> ok2")
      case True
      then show ?thesis using assms 1 2 no called[OF _ tr] A B by (auto simp: callBackend_def split: option.splits bool.splits)
    next
      case False
      then have "res = Inl (PluginUnavailable key (j = None)) \<and> gs' = gs2"
        using assms 1 2 no by (auto simp: callBackend_def split: option.splits bool.splits)
      then show ?thesis using refused[of "j = None"] tr A B by simp
    qed
  qed
qed

lemma finishBackend_called: "gs_called (finishBackend h env c res gs) = gs_called gs"
proof -
  have "gs_called (phaseThen env c ph g k) = gs_called g" if "\<And>st. gs_called (k (g\<lparr>gs_run := st\<rparr>)) = gs_called g" for ph g k
    using that by (cases rule: phaseThen_cases[of env c ph g k]) simp_all
  then show ?thesis by (auto simp: finishBackend_def Let_def split: sum.splits)
qed

lemma routePlugin_called:
  assumes "fromReq env r (gs_rc gs)" "ge_auth env = None \<or> rc_Identity (gs_rc gs) \<noteq> None" "gs_called gs = []" "identityOk env r c (rc_Identity (gs_rc gs))"
  shows "calledOk env r c (routePlugin h env snap c gs)"
proof (cases "splitPluginPath (rc_Path (gs_rc gs))")
  case (Some ks)
  obtain key sub where ks: "ks = (key, sub)" by (cases ks)
  have safe: "safePath sub" using splitPluginPath_Some(2) Some ks by blast
  obtain res gs1 where cb: "callBackend h env snap key sub gs = (res, gs1)" by (cases "callBackend h env snap key sub gs")
  have "gs_called gs1 = [] \<or> (\<exists>a req. gs_called gs1 = [(a, req)] \<and> callOk env r c req)"
    using cb
  proof (cases rule: callBackend_cases)
    case (called a gs2)
    then show ?thesis using dispatch_facts(3)[OF called(1)] assms safe by (auto simp: callOk_def fromReq_def samePart_def)
  next
    case (refused gone)
    then show ?thesis using assms(3) by simp
  qed
  then show ?thesis using Some ks cb by (simp add: routePlugin_def calledOk_def finishBackend_called)
qed (use assms(3) in \<open>simp add: routePlugin_def calledOk_def\<close>)

lemma servePlugin_called:
  assumes "fromReq env r (gs_rc gs)" "gs_called gs = []" "rc_Identity (gs_rc gs) = None"
  shows "calledOk env r c (servePlugin h env r snap c gs)"
  unfolding servePlugin_def
proof (intro calledOk_phase)
  let ?g = "resolveIdentity env r gs"
  show "calledOk env r c ?g" using assms(2) by (simp add: calledOk_def resolveIdentity_keeps)
  fix st assume 1: "Run (gwOps env) (Some c) PHASE_AUTHENTICATE (gs_run ?g) = (None, st)"
  show "calledOk env r c (?g\<lparr>gs_run := st\<rparr>)" using assms(2) by (simp add: calledOk_def resolveIdentity_keeps)
  fix st2 assume 2: "Run (gwOps env) (Some c) PHASE_AUTHORIZE (gs_run (?g\<lparr>gs_run := st\<rparr>)) = (None, st2)"
  have f2: "fromReq env r (rs_rc st2)"
    using gwRun_frame(1)[OF 1] gwRun_frame(1)[OF 2] assms(1) fromReq_samePart by (auto simp: resolveIdentity_keeps)
  have "rc_Identity (gs_rc ?g) = sessionIdentity env r"
    using assms(3) by (auto simp: resolveIdentity_def sessionIdentity_def split: option.splits)
  then have i2: "identityOk env r c (rc_Identity (rs_rc st2))"
    using gwRun_frame(3)[OF 1] gwRun_frame(3)[OF 2] by (auto simp: identityOk_def)
  let ?g2 = "?g\<lparr>gs_run := st, gs_run := st2\<rparr>"
  have c0: "gs_called ?g2 = []" using assms(2) by (simp add: resolveIdentity_keeps)
  show "calledOk env r c (if ge_auth env \<noteq> None \<and> rc_Identity (gs_rc ?g2) = None
      then onW (httpError ''unauthenticated'' 401) (onRc (\<lambda>rc. rc\<lparr>rc_ResponseStatus := 401\<rparr>) ?g2)
      else phaseThen env c PHASE_PRE_HANDLER ?g2 (routePlugin h env snap c))"
  proof (cases "ge_auth env \<noteq> None \<and> rc_Identity (gs_rc ?g2) = None")
    case True
    then show ?thesis using c0 by (simp add: calledOk_def)
  next
    case False
    have "calledOk env r c (phaseThen env c PHASE_PRE_HANDLER ?g2 (routePlugin h env snap c))"
    proof (rule calledOk_phase)
      show "calledOk env r c ?g2" using c0 by (simp add: calledOk_def)
      fix st3 assume 3: "Run (gwOps env) (Some c) PHASE_PRE_HANDLER (gs_run ?g2) = (None, st3)"
      show "calledOk env r c (routePlugin h env snap c (?g2\<lparr>gs_run := st3\<rparr>))"
        by (rule routePlugin_called)
          (use gwRun_frame(1,2)[OF 3] f2 i2 False c0 fromReq_samePart in \<open>auto simp: identityMutationAllowed_def\<close>)
    qed
    then show ?thesis using False by (simp only: if_False)
  qed
qed

lemma withBody_called:
  assumes "\<And>b. calledOk env r c (k (onRc (\<lambda>rc. rc\<lparr>rc_RequestBody := b\<rparr>) gs))" "calledOk env r c (k gs)" "gs_called gs = []"
  shows "calledOk env r c (withBody h r need gs k)"
  using assms by (auto simp: withBody_def readBody_def calledOk_def split: option.splits prod.splits)

lemma serveBody_called:
  assumes "fromReq env r (gs_rc gs)" "gs_called gs = []" "rc_Identity (gs_rc gs) = None"
  shows "calledOk env r c (serveBody h env r snap c gs)"
proof -
  define K where "K = (\<lambda>gs2. if hasPrefix (gr_Path r) PluginAPIPrefix then servePlugin h env r snap c gs2
     else if hasPrefix (rc_Path (gs_rc gs2)) PluginAPIPrefix
     then withBody h r (\<not> (NeedsRequestBody c \<or> hasPrefix (gr_Path r) PluginAPIPrefix)) gs2 (servePlugin h env r snap c)
     else serveNext env (if NeedsRequestBody c \<or> hasPrefix (gr_Path r) PluginAPIPrefix then drained r else r) c gs2)"
  have K: "calledOk env r c (K g)" if "fromReq env r (gs_rc g)" "gs_called g = []" "rc_Identity (gs_rc g) = None" for g
  proof -
    have "calledOk env r c (servePlugin h env r snap c g)" by (rule servePlugin_called[OF that])
    moreover have "calledOk env r c (servePlugin h env r snap c (onRc (\<lambda>rc. rc\<lparr>rc_RequestBody := b\<rparr>) g))" for b
      by (rule servePlugin_called) (use that in \<open>auto simp: fromReq_def\<close>)
    moreover have "gs_called (serveNext env q c g) = gs_called g" for q
      by (simp add: serveNext_def releaseNow_def Let_def split: prod.splits)
    ultimately show ?thesis using that(2) withBody_called by (auto simp: K_def calledOk_def)
  qed
  have P: "calledOk env r c (phaseThen env c PHASE_PRE_ROUTE g K)" if "fromReq env r (gs_rc g)" "gs_called g = []" "rc_Identity (gs_rc g) = None" for g
  proof (rule calledOk_phase)
    show "calledOk env r c g" using that by (simp add: calledOk_def)
    fix st assume "Run (gwOps env) (Some c) PHASE_PRE_ROUTE (gs_run g) = (None, st)"
    from gwRun_frame(1,2)[OF this] show "calledOk env r c (K (g\<lparr>gs_run := st\<rparr>))"
      using that fromReq_samePart by (intro K) (auto simp: identityMutationAllowed_def)
  qed
  have "calledOk env r c (withBody h r need gs (\<lambda>g. phaseThen env c PHASE_PRE_ROUTE g K))" for need
    by (rule withBody_called) (use assms P in \<open>auto simp: fromReq_def\<close>)
  then show ?thesis unfolding serveBody_def Let_def K_def .
qed

text \<open>C3: No plugin backend is called for a caller nobody identified. Whatever the filters answer and whatever happens to the registry meanwhile, a request
  leads to at most one backend call; with sessions configured that call carries an identity, which is the session's user unless a filter with the
  authenticate permission ran; its path starts at the root and has no dot or dot-dot segment; and method, query, trace id and client address are those of the request.\<close>

theorem backend_authenticated:
  "length (sv_called (serve h env r w host)) \<le> 1 \<and>
   (\<forall>(a, req) \<in> set (sv_called (serve h env r w host)). callOk env r (sn_chain (h_snap host)) req)"
proof -
  let ?rc = "NewRequestContext (traceIDFor (ge_trace env) r) (gr_Method r) (gr_Path r) (gr_RawQuery r) (gr_Header r) (clientIP r) (h_now host) :: nat RequestContext"
  let ?gs = "\<lparr>gs_w = wSet ''X-Request-Id'' (traceIDFor (ge_trace env) r) w, gs_run = \<lparr>rs_rc = ?rc, rs_world = host, rs_reports = []\<rparr>, gs_called = []\<rparr>"
  have "calledOk env r (sn_chain (h_snap host)) (serveBody h env r (h_snap host) (sn_chain (h_snap host)) ?gs)"
    by (rule serveBody_called) (simp_all add: fromReq_def NewRequestContext_def)
  then show ?thesis by (auto simp: serve_def Let_def calledOk_def)
qed

section \<open>Samples\<close>

definition sampleUser :: User where
  "sampleUser = \<lparr>ur_ID = 7, ur_Username = ''ann'', ur_Role = ''user''\<rparr>"

definition sampleEnv :: "FilterResponse \<Rightarrow> GEnv" where
  "sampleEnv answer = \<lparr>ge_reply = (\<lambda>_ _ _ _. Inr answer), ge_backend = (\<lambda>_ _ _ _. Inr \<lparr>hr_StatusCode = 200, hr_Headers = [], hr_Body = ''ok''\<rparr>),
     ge_during = (\<lambda>_ h. h), ge_auth = Some (\<lambda>t. if t = ''tok'' then Some sampleUser else None), ge_trace = ''t1'',
     ge_next = (\<lambda>q. case gr_Body q of Some (c # cs, e) \<Rightarrow> [AStatus 200] | _ \<Rightarrow> [AStatus 400])\<rparr>"

definition sampleHandler :: PluginHandler where
  "sampleHandler = \<lparr>ph_BackendTimeout = 0, ph_MaxBodyBytes = 0\<rparr>"

definition sampleRequest :: "string \<Rightarrow> GRequest" where
  "sampleRequest p = \<lparr>gr_Method = ''GET'', gr_Path = p, gr_RawQuery = [], gr_Header = [(''Authorization'', [''Bearer tok''])],
     gr_RemoteAddr = ''1.2.3.4:55'', gr_Cookie = None, gr_Body = Some (''in'', None)\<rparr>"

definition sampleWriter :: RWriter where
  "sampleWriter = \<lparr>w_header = [], w_status = None, w_body = []\<rparr>"

abbreviation "sampleServe \<equiv> serve sampleHandler (sampleEnv answerContinue) (sampleRequest ''/api/plugins/b/x/../y'') sampleWriter sampleHost"

theorem backend_authenticated_witness:
  "\<exists>req. sv_called sampleServe = [(1, req)] \<and> br_Path req = ''/y'' \<and> callOk (sampleEnv answerContinue) (sampleRequest ''/api/plugins/b/x/../y'') (sn_chain (h_snap sampleHost)) req"
proof -
  have "map (\<lambda>(a, req). (a, br_Path req)) (sv_called sampleServe) = [(1, ''/y'')]" by code_simp
  then obtain req where "sv_called sampleServe = [(1, req)]" "br_Path req = ''/y''" by auto
  then show ?thesis
    using backend_authenticated[of sampleHandler "sampleEnv answerContinue" "sampleRequest ''/api/plugins/b/x/../y''" sampleWriter sampleHost] by simp
qed

section \<open>Reservations over a whole request\<close>

text \<open>Nothing else admits or releases a request while a plugin call of this one runs.\<close>

definition quiet :: "GEnv \<Rightarrow> bool" where
  "quiet env \<longleftrightarrow> (\<forall>a h. inFlightOf (ge_during env a h) = inFlightOf h)"

lemma gwOps_target:
  assumes "quiet env"
  shows "target_ops (gwOps env) inFlightOf"
proof (unfold_locales, goal_cases)
  case (6 t d q w a w')
  then show ?case using assms by (auto simp: gwOps_def quiet_def)
qed (use ho.begin_held ho.begin_refused ho.release_held ho.target_held ho.allow_held ho.success_held ho.failure_held in \<open>auto simp: gwOps_def\<close>)

text \<open>The count of an instance without what this request holds of it.\<close>

definition others :: "GState \<Rightarrow> nat \<Rightarrow> int" where
  "others gs a = inFlightOf (rs_world (gs_run gs)) a - int (Multiset.count (mset (map snd (rc_admissions (gs_rc gs)))) a)"

lemma balanced_others:
  assumes "quiet env" "target_ops.balanced inFlightOf (gs_run gs) (gs_run gs')"
  shows "others gs' = others gs"
proof -
  have T: "target_ops (gwOps env) inFlightOf" by (rule gwOps_target[OF assms(1)])
  show ?thesis
  proof
    fix a
    have "inFlightOf (rs_world (gs_run gs')) a + int (Multiset.count (mset (map snd (rc_admissions (gs_rc gs)))) a) =
      inFlightOf (rs_world (gs_run gs)) a + int (Multiset.count (mset (map snd (rc_admissions (gs_rc gs')))) a)"
      using assms(2) by (simp add: target_ops.balanced_def[OF T] target_ops.admHeld_def[OF T])
    then show "others gs' a = others gs a" by (simp add: others_def)
  qed
qed

lemma others_phase:
  assumes "quiet env" "\<And>st. others (k (gs\<lparr>gs_run := st\<rparr>)) = others (gs\<lparr>gs_run := st\<rparr>)"
  shows "others (phaseThen env c ph gs k) = others gs"
proof -
  have run: "others (gs\<lparr>gs_run := st\<rparr>) = others gs" if "Run (gwOps env) (Some c) ph (gs_run gs) = (res, st)" for res st
    by (rule balanced_others[OF assms(1)])
      (use target_ops.runFilters_balanced[OF gwOps_target[OF assms(1)] that[unfolded Run_runFilters]] in simp)
  have wr: "others (writeResponse resp g) = others g" for resp g by (simp add: others_def fun_eq_iff writeResponse_def onRc_def onW_def Let_def)
  show ?thesis using assms(2) run wr by (cases rule: phaseThen_cases[of env c ph gs k]) simp_all
qed

lemma others_plain:
  "others (onW f gs) = others gs" "(\<And>rc. rc_admissions (g rc) = rc_admissions rc) \<Longrightarrow> others (onRc g gs) = others gs" "others (writeFinal gs) = others gs"
  by (simp_all add: others_def fun_eq_iff onRc_def onW_def writeFinal_def)

lemma others_admitPick:
  assumes "quiet env" "admitPick env snap key other gs = (p, gs')"
  shows "others gs' = others gs"
proof -
  have T: "target_ops (gwOps env) inFlightOf" by (rule gwOps_target[OF assms(1)])
  obtain x w1 where pick: "Pick snap key (rs_world (gs_run gs)) = (x, w1)" by (cases "Pick snap key (rs_world (gs_run gs))")
  have w1: "inFlightOf w1 = inFlightOf (rs_world (gs_run gs))" using Pick_inst[OF pick] by (simp add: inFlightOf_def fun_eq_iff)
  show ?thesis
  proof (cases "\<exists>a. x = Some a \<and> other \<noteq> Some a")
    case True
    then obtain a where a: "x = Some a" "other \<noteq> Some a" by blast
    obtain ok rc1 w2 where ad: "Admit (gs_rc gs) key (op_Begin (gwOps env) a) w1 = (ok, rc1, w2)"
      by (cases "Admit (gs_rc gs) key (op_Begin (gwOps env) a) w1") auto
    have "gs' = gs\<lparr>gs_run := (gs_run gs)\<lparr>rs_rc := rc1, rs_world := w2\<rparr>\<rparr>" using assms(2) pick a ad by (auto simp: admitPick_def Let_def)
    then show ?thesis
      using target_ops.Admit_balanced[OF T ad, of "gs_run gs" "gs_run gs'"] w1 by (intro balanced_others[OF assms(1)]) simp
  next
    case False
    then have "gs' = gs\<lparr>gs_run := (gs_run gs)\<lparr>rs_world := w1\<rparr>\<rparr>" using assms(2) pick by (auto simp: admitPick_def Let_def split: option.splits)
    then show ?thesis by (simp add: others_def w1 fun_eq_iff)
  qed
qed

lemma others_dispatch:
  assumes "quiet env" "dispatch h env a sub gs = (res, gs')"
  shows "others gs' = others gs"
proof -
  have T: "target_ops (gwOps env) inFlightOf" by (rule gwOps_target[OF assms(1)])
  show ?thesis using assms target_ops.success_held[OF T] target_ops.failure_held[OF T]
    by (auto simp: dispatch_def Let_def others_def fun_eq_iff quiet_def split: sum.splits)
qed

lemma others_callBackend:
  assumes "quiet env" "callBackend h env snap key sub gs = (res, gs')"
  shows "others gs' = others gs"
proof -
  obtain i ok gs1 where 1: "admitPick env snap key None gs = ((i, ok), gs1)" by (cases "admitPick env snap key None gs") auto
  obtain j ok2 gs2 where 2: "admitPick env (h_snap (rs_world (gs_run gs1))) key i gs1 = ((j, ok2), gs2)"
    by (cases "admitPick env (h_snap (rs_world (gs_run gs1))) key i gs1") auto
  note O = others_admitPick[OF assms(1) 1] others_admitPick[OF assms(1) 2] others_dispatch[OF assms(1)]
  show ?thesis using assms(2) 1 2 O(1,2) by (auto simp: callBackend_def split: option.splits bool.splits dest: O(3))
qed

lemma others_servePlugin:
  assumes "quiet env"
  shows "others (servePlugin h env r snap c gs) = others gs"
proof -
  have fin: "others (finishBackend h env c res g) = others g" for res g
    by (auto simp: finishBackend_def Let_def others_plain intro!: others_phase[OF assms, THEN trans] split: sum.splits)
  have route: "others (routePlugin h env snap c g) = others g" for g
    using others_callBackend[OF assms] fin by (auto simp: routePlugin_def others_plain split: option.splits prod.splits)
  have "others (resolveIdentity env r gs) = others gs" by (auto simp: resolveIdentity_def others_plain split: option.splits)
  then show ?thesis
    unfolding servePlugin_def by (auto simp: others_plain route intro!: others_phase[OF assms, THEN trans] others_phase[OF assms])
qed

lemma others_releaseNow:
  assumes "quiet env"
  shows "others (releaseNow env gs) = others gs" "rc_admissions (gs_rc (releaseNow env gs)) = []"
proof -
  have T: "target_ops (gwOps env) inFlightOf" by (rule gwOps_target[OF assms])
  show "others (releaseNow env gs) = others gs"
    using target_ops.release_all[OF T] by (auto simp: releaseNow_def ReleaseAdmissions_def others_def fun_eq_iff)
  show "rc_admissions (gs_rc (releaseNow env gs)) = []" by (simp add: releaseNow_def ReleaseAdmissions_def)
qed

lemma others_serveBody:
  assumes "quiet env"
  shows "others (serveBody h env r snap c gs) = others gs"
proof -
  have body: "others (withBody h r need g k) = others g" if "\<And>g. others (k g) = others g" for need g k
    using that by (auto simp: withBody_def readBody_def others_plain split: option.splits)
  have nxt: "others (serveNext env q c g) = others g" for q g
  proof -
    have "others (g'\<lparr>gs_w := x\<rparr>) = others g'" for g' x by (simp add: others_def fun_eq_iff)
    then show ?thesis using others_releaseNow(1)[OF assms, of g] by (auto simp: serveNext_def Let_def others_plain)
  qed
  show ?thesis unfolding serveBody_def Let_def
    by (intro body others_phase[OF assms]) (auto simp: others_servePlugin[OF assms] nxt body)
qed

text \<open>C14: A whole request leaks no capacity. Whatever filters and backend answer, fail or time out, whichever of its exits the handler takes and whatever replaced
  the plugin meanwhile, once the handler has returned every instance's in-flight count is what it was before, so a later drain waits for nobody who has left.
  The hypothesis says that the rest of the system admits and releases no request of its own meanwhile.\<close>

theorem request_balanced:
  assumes "quiet env"
  shows "in_inflight (h_inst (sv_world (serve h env r w host)) a) = in_inflight (h_inst host a)"
proof -
  let ?rc = "NewRequestContext (traceIDFor (ge_trace env) r) (gr_Method r) (gr_Path r) (gr_RawQuery r) (gr_Header r) (clientIP r) (h_now host) :: nat RequestContext"
  let ?gs = "\<lparr>gs_w = wSet ''X-Request-Id'' (traceIDFor (ge_trace env) r) w, gs_run = \<lparr>rs_rc = ?rc, rs_world = host, rs_reports = []\<rparr>, gs_called = []\<rparr>"
  let ?fin = "serveBody h env r (h_snap host) (sn_chain (h_snap host)) ?gs"
  have "others (releaseNow env ?fin) = others ?gs" by (simp add: others_releaseNow[OF assms] others_serveBody[OF assms])
  from fun_cong[OF this, of a] show ?thesis
    by (simp add: others_def others_releaseNow(2)[OF assms] serve_def Let_def inFlightOf_def NewRequestContext_def)
qed

theorem request_balanced_witness:
  "in_inflight (h_inst (sv_world sampleServe) 0) = 0 \<and> length (sv_called sampleServe) = 1"
proof -
  have "quiet (sampleEnv answerContinue)" by (simp add: quiet_def sampleEnv_def)
  from request_balanced[OF this] have "in_inflight (h_inst (sv_world sampleServe) 0) = in_inflight (h_inst sampleHost 0)" .
  moreover have "in_inflight (h_inst sampleHost 0) = 0" by code_simp
  moreover have "length (sv_called sampleServe) = 1" by code_simp
  ultimately show ?thesis by simp
qed

section \<open>When no backend answers\<close>

lemma pickLoop_best: "snd (snd (pickLoop heap insts cur n)) = Some b \<Longrightarrow> b < n \<and> in_state (heap (insts ! b)) = StateReady"
proof (induction n arbitrary: b)
  case (Suc n)
  then show ?case by (auto simp: pickLoop_def pickStep_def Let_def less_Suc_eq split: prod.splits if_splits option.splits)
qed (simp add: pickLoop_def)

lemma pick_None:
  assumes "pick heap rs = (p, rs')"
  shows "p = None \<longleftrightarrow> (\<forall>a \<in> set (rs_instances rs). \<not> Servable (heap a))" "rs_instances rs' = rs_instances rs"
proof -
  have best: "\<exists>a \<in> set (rs_instances rs). Servable (heap a)"
    if "pickLoop heap (rs_instances rs) (rs_current rs) (length (rs_instances rs)) = (c, t, Some b)" for c t b
    using pickLoop_best[of heap "rs_instances rs" "rs_current rs" "length (rs_instances rs)" b] that
    by (intro bexI[of _ "rs_instances rs ! b"]) (auto simp: Servable_def)
  show "p = None \<longleftrightarrow> (\<forall>a \<in> set (rs_instances rs). \<not> Servable (heap a))"
  proof (cases "2 \<le> length (rs_instances rs)")
    case True
    then obtain x y zs where I: "rs_instances rs = x # y # zs" by (metis Suc_le_length_iff numeral_2_eq_2)
    obtain c t bo where L: "pickLoop heap (rs_instances rs) (rs_current rs) (length (rs_instances rs)) = (c, t, bo)"
      by (metis prod.exhaust)
    show ?thesis
    proof (cases bo)
      case None
      then have "p = find (\<lambda>a. Servable (heap a)) (rs_instances rs)" using assms L I by (simp add: pick_def)
      then show ?thesis by (auto simp: find_None_iff)
    next
      case (Some b)
      then have "p \<noteq> None" using assms L I by (auto simp: pick_def)
      with best[OF L[unfolded Some]] show ?thesis by auto
    qed
  next
    case False
    then have "rs_instances rs = [] \<or> (\<exists>a. rs_instances rs = [a])" by (cases "rs_instances rs" rule: remdups_adj.cases) auto
    then show ?thesis using assms by (auto simp: pick_def split: if_splits)
  qed
  show "rs_instances rs' = rs_instances rs" using assms by (auto simp: pick_def split: list.splits prod.splits option.splits if_splits)
qed

text \<open>Some instance of a plugin is up: serving, or finishing its last requests.\<close>

definition serviced :: "string \<Rightarrow> Host \<Rightarrow> bool" where
  "serviced key w \<longleftrightarrow> (\<exists>a \<in> set (Replicas (h_snap w) key w). Servable (h_inst w a))"

lemma Pick_facts:
  assumes "Pick snap key w = (p, w')"
  shows "h_snap w' = h_snap w" "h_inst w' = h_inst w" "Replicas s k w' = Replicas s k w" "snap = h_snap w \<Longrightarrow> p = None \<longleftrightarrow> \<not> serviced key w"
proof -
  show "h_snap w' = h_snap w" "h_inst w' = h_inst w" using assms by (auto simp: Pick_def split: option.splits prod.splits)
  show "Replicas s k w' = Replicas s k w" using assms pick_None(2) by (auto simp: Pick_def Replicas_def split: option.splits prod.splits)
  show "p = None \<longleftrightarrow> \<not> serviced key w" if "snap = h_snap w"
    using assms that pick_None(1) by (auto simp: Pick_def serviced_def Replicas_def split: option.splits prod.splits)
qed

lemma admitPick_service:
  assumes "admitPick env snap key other gs = ((i, ok), gs')"
  shows "serviced k (rs_world (gs_run gs')) = serviced k (rs_world (gs_run gs))"
    "snap = h_snap (rs_world (gs_run gs)) \<Longrightarrow> i = None \<longleftrightarrow> \<not> serviced key (rs_world (gs_run gs))"
proof -
  obtain x w1 where pick: "Pick snap key (rs_world (gs_run gs)) = (x, w1)" by (cases "Pick snap key (rs_world (gs_run gs))")
  note P = Pick_facts[OF pick]
  have s1: "serviced k w1 = serviced k (rs_world (gs_run gs))" using P(1-3) by (simp add: serviced_def)
  have "serviced k w2 = serviced k w1" if "Admit (gs_rc gs) key (op_Begin (gwOps env) a) w1 = (b, rc1, w2)" for a b rc1 w2
  proof -
    have "\<exists>j. w2 = updInst a j w1 \<and> Servable j = Servable (h_inst w1 a) \<or> w2 = w1"
      using that by (auto simp: Admit_def gwOps_def hostOps_def BeginRequest_iff Servable_def split: option.splits prod.splits if_splits)
    then have "(\<forall>x. Servable (h_inst w2 x) = Servable (h_inst w1 x)) \<and> h_snap w2 = h_snap w1 \<and> h_sets w2 = h_sets w1"
      by (auto simp: updInst_def split: if_splits)
    then show ?thesis by (simp add: serviced_def Replicas_def)
  qed
  with s1 show "serviced k (rs_world (gs_run gs')) = serviced k (rs_world (gs_run gs))"
    using assms pick by (auto simp: admitPick_def Let_def split: option.splits if_splits prod.splits)
  show "snap = h_snap (rs_world (gs_run gs)) \<Longrightarrow> i = None \<longleftrightarrow> \<not> serviced key (rs_world (gs_run gs))"
    using assms pick P(4) by (auto simp: admitPick_def Let_def split: option.splits if_splits prod.splits)
qed

text \<open>C16: What a caller is told when no backend answered. The status is 502 exactly when a backend was called and failed; otherwise no plugin was called at all, and it is
  404 when the live registry has no instance of the plugin that is up and 503 when it has one. A plugin that is enabled but whose instances are all starting or
  have crashed therefore answers 404, not the 503 that the comment on the status promises for a plugin between states.\<close>

theorem refusal_status:
  assumes "callBackend h env snap key sub gs = (Inl e, gs')"
  shows "unavailableStatus e = (if gs_called gs' \<noteq> gs_called gs then 502 else if serviced key (rs_world (gs_run gs)) then 503 else 404)"
proof -
  obtain i ok gs1 where 1: "admitPick env snap key None gs = ((i, ok), gs1)" by (cases "admitPick env snap key None gs") auto
  obtain j ok2 gs2 where 2: "admitPick env (h_snap (rs_world (gs_run gs1))) key i gs1 = ((j, ok2), gs2)"
    by (cases "admitPick env (h_snap (rs_world (gs_run gs1))) key i gs1") auto
  have c: "gs_called gs1 = gs_called gs" "gs_called gs2 = gs_called gs" using admitPick_keeps(3)[OF 1] admitPick_keeps(3)[OF 2] by simp_all
  have j: "j = None \<longleftrightarrow> \<not> serviced key (rs_world (gs_run gs))" using admitPick_service(2)[OF 2 refl] admitPick_service(1)[OF 1] by simp
  have D: "unavailableStatus e = 502 \<and> gs_called gs' \<noteq> gs_called g" if "dispatch h env a sub g = (Inl e, gs')" for a g
    using that dispatch_facts(3)[OF that] by (auto simp: dispatch_def Let_def unavailableStatus_def split: sum.splits)
  consider (one) a where "i = Some a" "ok" | (two) b where "\<not> (\<exists>a. i = Some a \<and> ok)" "j = Some b" "ok2"
    | (none) "\<not> (\<exists>a. i = Some a \<and> ok)" "\<not> (\<exists>b. j = Some b \<and> ok2)" by blast
  then show ?thesis
  proof cases
    case one
    then show ?thesis using assms 1 D[of a gs1] c by (simp add: callBackend_def)
  next
    case two
    then show ?thesis using assms 1 2 D[of b gs2] c by (auto simp: callBackend_def split: option.splits bool.splits)
  next
    case none
    then have "e = PluginUnavailable key (j = None) \<and> gs' = gs2" using assms 1 2 by (auto simp: callBackend_def split: option.splits bool.splits)
    then show ?thesis using c j by (auto simp: unavailableStatus_def)
  qed
qed

text \<open>The request state of a request to plugin \<open>b\<close>, before and after its filter ran.\<close>

definition crashedHost :: Host where
  "crashedHost = sampleHost\<lparr>h_inst := (\<lambda>a. MarkFailed (h_inst sampleHost a))\<rparr>"

definition sampleGState :: "Host \<Rightarrow> GState" where
  "sampleGState host = \<lparr>gs_w = sampleWriter, gs_run = sampleHostState\<lparr>rs_world := host\<rparr>, gs_called = []\<rparr>"

theorem refusal_status_witness:
  "\<exists>e gs'. callBackend sampleHandler (sampleEnv answerContinue) (h_snap crashedHost) ''b'' ''/'' (sampleGState crashedHost) = (Inl e, gs') \<and>
     Has (h_snap crashedHost) ''b'' \<and> unavailableStatus e = 404"
proof -
  define r where "r = callBackend sampleHandler (sampleEnv answerContinue) (h_snap crashedHost) ''b'' ''/'' (sampleGState crashedHost)"
  have "fst r = Inl (PluginUnavailable ''b'' True)" unfolding r_def by code_simp
  then have r: "r = (Inl (PluginUnavailable ''b'' True), snd r)" by (metis prod.collapse)
  have "\<not> serviced ''b'' (rs_world (gs_run (sampleGState crashedHost)))" "gs_called (snd r) = gs_called (sampleGState crashedHost)"
    unfolding r_def by code_simp+
  with refusal_status[OF r[unfolded r_def]] have "unavailableStatus (PluginUnavailable ''b'' True) = 404" by (simp add: r_def)
  moreover have "Has (h_snap crashedHost) ''b''" by code_simp
  ultimately show ?thesis using r[unfolded r_def] by blast
qed

text \<open>A reservation can sit on another replica than the one that is called. Reservations are kept per plugin: when a filter of the plugin already holds one on replica
  \<open>r\<close>, the backend call goes to whichever replica \<open>a\<close> the balancer picks next and reserves nothing there, so no in-flight count changes for it. A drain of
  \<open>a\<close> then waits for nobody and kills the process under the call.\<close>

theorem reserved_elsewhere:
  assumes "map_of (rc_admissions (gs_rc gs)) key = Some r" "Pick snap key (rs_world (gs_run gs)) = (Some a, w1)"
  shows "callBackend h env snap key sub gs = dispatch h env a sub (gs\<lparr>gs_run := (gs_run gs)\<lparr>rs_world := w1\<rparr>\<rparr>) \<and>
    (\<forall>b. in_inflight (h_inst w1 b) = in_inflight (h_inst (rs_world (gs_run gs)) b))"
proof -
  have "Admit (gs_rc gs) key (op_Begin (gwOps env) a) w1 = (True, gs_rc gs, w1)" using assms(1) by (simp add: Admit_def)
  then have "admitPick env snap key None gs = ((Some a, True), gs\<lparr>gs_run := (gs_run gs)\<lparr>rs_world := w1\<rparr>\<rparr>)"
    using assms(2) by (simp add: admitPick_def Let_def)
  then show ?thesis using Pick_facts(2)[OF assms(2)] by (simp add: callBackend_def)
qed

theorem reserved_elsewhere_witness:
  "\<exists>gs w1. map_of (rc_admissions (gs_rc gs)) ''b'' = Some 0 \<and> Pick (h_snap sampleHost) ''b'' (rs_world (gs_run gs)) = (Some 1, w1) \<and>
     callBackend sampleHandler (sampleEnv answerContinue) (h_snap sampleHost) ''b'' ''/'' gs =
       dispatch sampleHandler (sampleEnv answerContinue) 1 ''/'' (gs\<lparr>gs_run := (gs_run gs)\<lparr>rs_world := w1\<rparr>\<rparr>) \<and> in_inflight (h_inst w1 1) = 0"
proof -
  define st where "st = snd (Run (gwOps (sampleEnv answerContinue)) (Some (sn_chain (h_snap sampleHost))) PHASE_AUTHENTICATE (gs_run (sampleGState sampleHost)))"
  define gs where "gs = (sampleGState sampleHost)\<lparr>gs_run := st\<rparr>"
  define p where "p = Pick (h_snap sampleHost) ''b'' (rs_world (gs_run gs))"
  have a: "map_of (rc_admissions (gs_rc gs)) ''b'' = Some 0" unfolding gs_def st_def by code_simp
  have "fst p = Some 1" unfolding p_def gs_def st_def by code_simp
  then have b: "Pick (h_snap sampleHost) ''b'' (rs_world (gs_run gs)) = (Some 1, snd p)" by (metis p_def prod.collapse)
  have "in_inflight (h_inst (rs_world (gs_run gs)) 1) = 0" unfolding gs_def st_def by code_simp
  with reserved_elsewhere[OF a b, of sampleHandler "sampleEnv answerContinue" "''/''"] a b show ?thesis
    by (intro exI[of _ gs] exI[of _ "snd p"]) simp
qed

section \<open>What the log phase is told\<close>

definition sentStatus :: "RWriter \<Rightarrow> int" where
  "sentStatus w = (case w_status w of None \<Rightarrow> 200 | Some s \<Rightarrow> s)"

text \<open>A handler that sends at most one status, a final one, and sends it before the body.\<close>

definition noStatus :: "wAct list \<Rightarrow> bool" where
  "noStatus as = list_all (\<lambda>a. case a of AStatus _ \<Rightarrow> False | _ \<Rightarrow> True) as"

fun plainActs :: "wAct list \<Rightarrow> bool" where
  "plainActs [] = True"
| "plainActs (ASet k v # as) = plainActs as"
| "plainActs (AStatus c # as) = (200 \<le> c \<and> c \<le> 599 \<and> noStatus as)"
| "plainActs (ABody b # as) = noStatus as"
| "plainActs (AFlush # as) = noStatus as"

text \<open>The status on the wire is the one recorded for the log phase, made valid; an informational one is followed by the 200 that \<^verbatim>\<open>net/http\<close> adds.\<close>

definition statusAgrees :: "int \<Rightarrow> int \<Rightarrow> bool" where
  "statusAgrees logged sent \<longleftrightarrow> sent = (if informational (normalizeStatus logged) then 200 else normalizeStatus logged)"

definition statusOk :: "GState \<Rightarrow> bool" where
  "statusOk gs \<longleftrightarrow> statusAgrees (rc_ResponseStatus (gs_rc gs)) (sentStatus (gs_w gs)) \<or>
     rc_ResponseStatus (gs_rc gs) = 0 \<and> sentStatus (gs_w gs) = 404 \<and> splitPluginPath (rc_Path (gs_rc gs)) = None"

text \<open>Nothing sent and nothing recorded yet.\<close>

definition fresh :: "GState \<Rightarrow> bool" where
  "fresh gs \<longleftrightarrow> w_status (gs_w gs) = None \<and> rc_ResponseStatus (gs_rc gs) = 0"

lemma status_plain [simp]:
  "w_status (wSet k v w) = w_status w" "w_status (wAdd k v w) = w_status w" "w_status (fold (wAdd k) vs w) = w_status w" "w_status (addAll hs w) = w_status w"
  "w_status (wWrite b w) = (case w_status w of None \<Rightarrow> Some 200 | Some s \<Rightarrow> Some s)"
proof -
  show 1: "w_status (wSet k v w) = w_status w" "w_status (wAdd k v w) = w_status w" for k v w by (simp_all add: wSet_def wAdd_def)
  show 2: "w_status (fold (wAdd k) vs w) = w_status w" for k vs w using 1 by (induction vs arbitrary: w) simp_all
  show "w_status (addAll hs w) = w_status w" unfolding addAll_def using 2 by (induction hs arbitrary: w) auto
  show "w_status (wWrite b w) = (case w_status w of None \<Rightarrow> Some 200 | Some s \<Rightarrow> Some s)"
    by (auto simp: wWrite_def WriteHeader_def informational_def split: option.splits)
qed

lemma status_final:
  "w_status w = None \<Longrightarrow> sentStatus (wWrite b (WriteHeader c w)) = (if informational c then 200 else c)"
  "w_status w = None \<Longrightarrow> \<not> informational c \<Longrightarrow> sentStatus (httpError m c w) = c"
  by (simp_all add: sentStatus_def WriteHeader_def httpError_def)

lemma statusAgrees_norm: "statusAgrees (normalizeStatus c) (if informational (normalizeStatus c) then 200 else normalizeStatus c)"
  by (auto simp: statusAgrees_def normalizeStatus_def)

lemma statusOk_writers:
  "w_status (gs_w gs) = None \<Longrightarrow> statusOk (writeResponse resp gs)"
  "w_status (gs_w gs) = None \<Longrightarrow> statusOk (writeFinal gs)"
  "w_status (gs_w gs) = None \<Longrightarrow> rc_ResponseStatus (gs_rc gs) = c \<Longrightarrow> 200 \<le> c \<and> c \<le> 599 \<Longrightarrow> statusOk (onW (httpError m c) gs)"
proof -
  show "statusOk (writeResponse resp gs)" if "w_status (gs_w gs) = None"
    using that statusAgrees_norm[of "hr_StatusCode resp"] by (simp add: statusOk_def writeResponse_def Let_def status_final)
  show "statusOk (writeFinal gs)" if "w_status (gs_w gs) = None"
    using that by (simp add: statusOk_def writeFinal_def status_final statusAgrees_def)
  show "statusOk (onW (httpError m c) gs)" if "w_status (gs_w gs) = None" "rc_ResponseStatus (gs_rc gs) = c" "200 \<le> c \<and> c \<le> 599"
    using that by (auto simp: statusOk_def status_final statusAgrees_def normalizeStatus_def informational_def)
qed

lemma statusOk_phase:
  assumes "w_status (gs_w gs) = None"
    "\<And>st. rc_ResponseStatus (rs_rc st) = rc_ResponseStatus (gs_rc gs) \<Longrightarrow> statusOk (k (gs\<lparr>gs_run := st\<rparr>))"
  shows "statusOk (phaseThen env c ph gs k)"
  using assms(1)
proof (cases rule: phaseThen_cases[of env c ph gs k])
  case (passed st)
  with assms(2)[of st] gwRun_frame(1)[OF passed(1)] show ?thesis by (simp add: samePart_def)
qed (simp add: statusOk_writers(1))

lemma noStatus_rec: "noStatus as \<Longrightarrow> re_status (recActs as r) = re_status r \<and>
    sentStatus (re_w (recActs as r)) = sentStatus (re_w r)"
proof (induction as arbitrary: r)
  case (Cons a as)
  then show ?case
    by (cases a) (auto simp: noStatus_def recWrite_def recFlush_def sentStatus_def WriteHeader_def informational_def split: option.splits)
qed simp

lemma plainActs_rec:
  "plainActs as \<Longrightarrow> w_status (re_w r) = None \<Longrightarrow> re_status r = 200 \<Longrightarrow>
   re_status (recActs as r) = sentStatus (re_w (recActs as r)) \<and> 200 \<le> re_status (recActs as r) \<and> re_status (recActs as r) \<le> 599"
proof (induction as arbitrary: r rule: plainActs.induct)
  case 1
  then show ?case by (simp add: sentStatus_def)
next
  case (2 k v as)
  from 2(1)[of "r\<lparr>re_w := wSet k v (re_w r)\<rparr>"] 2(2-) show ?case by (simp only: recActs.simps plainActs.simps) simp
next
  case (3 c as)
  then show ?case using noStatus_rec[of as "recWriteHeader c r"] by (simp add: recWriteHeader_def sentStatus_def WriteHeader_def informational_def)
next
  case (4 b as)
  then show ?case using noStatus_rec[of as "recWrite b r"] by (simp add: recWrite_def sentStatus_def)
next
  case (5 as)
  then show ?case using noStatus_rec[of as "recFlush r"] by (simp add: recFlush_def sentStatus_def WriteHeader_def informational_def)
qed

lemma finishBackend_status:
  assumes "w_status (gs_w gs) = None"
  shows "statusOk (finishBackend h env c res gs)"
proof (cases res)
  case (Inl e)
  have "200 \<le> unavailableStatus e \<and> unavailableStatus e \<le> 599" by (auto simp: unavailableStatus_def split: backend_err.splits)
  then show ?thesis using assms Inl by (auto simp: finishBackend_def Let_def intro!: statusOk_phase statusOk_writers(3))
next
  case (Inr resp)
  then show ?thesis using assms by (auto simp: finishBackend_def Let_def intro!: statusOk_phase statusOk_writers(2))
qed

lemma routePlugin_status:
  assumes "fresh gs"
  shows "statusOk (routePlugin h env snap c gs)"
proof (cases "splitPluginPath (rc_Path (gs_rc gs))")
  case None
  then show ?thesis using assms by (simp add: routePlugin_def statusOk_def fresh_def status_final informational_def)
next
  case (Some ks)
  obtain key sub where ks: "ks = (key, sub)" by (cases ks)
  obtain res gs1 where cb: "callBackend h env snap key sub gs = (res, gs1)" by (cases "callBackend h env snap key sub gs")
  have "gs_w gs1 = gs_w gs" using cb by (cases rule: callBackend_cases) (simp_all add: dispatch_facts(2))
  then show ?thesis using Some ks cb assms finishBackend_status by (simp add: routePlugin_def fresh_def)
qed

lemma servePlugin_status:
  assumes "fresh gs"
  shows "statusOk (servePlugin h env r snap c gs)"
proof -
  have "fresh (resolveIdentity env r gs)" using assms by (simp add: fresh_def resolveIdentity_keeps)
  then show ?thesis unfolding servePlugin_def
    by (auto intro!: statusOk_phase statusOk_writers(3) routePlugin_status simp: fresh_def)
qed

lemma serveNext_status:
  assumes "fresh gs" "HasPhase c PHASE_LOG" "\<forall>q. plainActs (ge_next env q)"
  shows "statusOk (serveNext env q c gs)"
proof -
  have w: "gs_w (releaseNow env gs) = gs_w gs" by (simp add: releaseNow_def split: prod.splits)
  define rec where "rec = recActs (ge_next env q) (newRecorder (gs_w gs) (NeedsResponseBody c))"
  have "re_status rec = sentStatus (re_w rec) \<and> 200 \<le> re_status rec \<and> re_status rec \<le> 599"
    unfolding rec_def by (rule plainActs_rec) (use assms in \<open>auto simp: newRecorder_def fresh_def\<close>)
  moreover have "statusAgrees s s" if "200 \<le> s \<and> s \<le> 599" for s
    using that by (simp add: statusAgrees_def normalizeStatus_def informational_def)
  ultimately have "statusAgrees (re_status rec) (sentStatus (re_w rec))" by simp
  then show ?thesis using assms(2) by (simp add: serveNext_def Let_def w statusOk_def rec_def onRc_def)
qed

lemma withBody_status:
  assumes "fresh gs" "\<And>b. fresh (onRc (\<lambda>rc. rc\<lparr>rc_RequestBody := b\<rparr>) gs) \<Longrightarrow> statusOk (k (onRc (\<lambda>rc. rc\<lparr>rc_RequestBody := b\<rparr>) gs))" "statusOk (k gs)"
  shows "statusOk (withBody h r need gs k)"
proof -
  have f: "fresh (onRc (\<lambda>rc. rc\<lparr>rc_RequestBody := b\<rparr>) gs)" for b using assms(1) by (simp add: fresh_def)
  have "statusAgrees 413 413" by (simp add: statusAgrees_def normalizeStatus_def informational_def)
  then show ?thesis using assms f
    by (auto simp: withBody_def readBody_def statusOk_def fresh_def status_final informational_def split: option.splits prod.splits)
qed

lemma serveBody_status:
  assumes "fresh gs" "HasPhase c PHASE_LOG" "\<forall>q. plainActs (ge_next env q)"
  shows "statusOk (serveBody h env r snap c gs)"
proof -
  define K where "K = (\<lambda>gs2. if hasPrefix (gr_Path r) PluginAPIPrefix then servePlugin h env r snap c gs2
     else if hasPrefix (rc_Path (gs_rc gs2)) PluginAPIPrefix
     then withBody h r (\<not> (NeedsRequestBody c \<or> hasPrefix (gr_Path r) PluginAPIPrefix)) gs2 (servePlugin h env r snap c)
     else serveNext env (if NeedsRequestBody c \<or> hasPrefix (gr_Path r) PluginAPIPrefix then drained r else r) c gs2)"
  have K: "statusOk (K g)" if "fresh g" for g
    using that servePlugin_status serveNext_status[OF that assms(2,3)] withBody_status[OF that] by (simp add: K_def)
  have P: "statusOk (phaseThen env c PHASE_PRE_ROUTE g K)" if "fresh g" for g
    by (rule statusOk_phase) (use that K in \<open>auto simp: fresh_def\<close>)
  have "statusOk (withBody h r need gs (\<lambda>g. phaseThen env c PHASE_PRE_ROUTE g K))" for need
    by (rule withBody_status) (use assms(1) P in auto)
  then show ?thesis unfolding serveBody_def Let_def K_def .
qed

lemma serve_status:
  assumes "HasPhase (sn_chain (h_snap host)) PHASE_LOG" "w_status w = None" "\<forall>q. plainActs (ge_next env q)"
  shows "let s = serve h env r w host; logged = rc_ResponseStatus (sv_logged s); sent = sentStatus (sv_w s)
    in statusAgrees logged sent \<or> logged = 0 \<and> sent = 404 \<and> splitPluginPath (rc_Path (sv_logged s)) = None"
proof -
  let ?rc = "NewRequestContext (traceIDFor (ge_trace env) r) (gr_Method r) (gr_Path r) (gr_RawQuery r) (gr_Header r) (clientIP r) (h_now host) :: nat RequestContext"
  let ?gs = "\<lparr>gs_w = wSet ''X-Request-Id'' (traceIDFor (ge_trace env) r) w, gs_run = \<lparr>rs_rc = ?rc, rs_world = host, rs_reports = []\<rparr>, gs_called = []\<rparr>"
  have "fresh ?gs" using assms(2) by (simp add: fresh_def NewRequestContext_def)
  from serveBody_status[OF this assms(1,3)] show ?thesis by (simp add: serve_def Let_def statusOk_def ForAsync_def)
qed



definition auditReg :: Registration where
  "auditReg = \<lparr>reg_Key = ''c'', reg_Instances = [2],
     reg_Filters = [sampleCompiled\<lparr>cf_Decl := sampleFilter\<lparr>fd_Phase := ''log'', fd_NeedsRequestBody := True\<rparr>\<rparr>], reg_AllowIdentityMutation = False\<rparr>"

definition auditHost :: Host where
  "auditHost = snd (InstallPlugin auditReg sampleHost)"

lemma auditHost_log: "HasPhase (sn_chain (h_snap auditHost)) PHASE_LOG" "NeedsRequestBody (sn_chain (h_snap auditHost))"
  "Filters (sn_chain (h_snap auditHost)) PHASE_PRE_ROUTE = []"
  by code_simp+

lemma sampleEnv_plain: "\<forall>q. plainActs (ge_next (sampleEnv answer) q)"
  by (simp add: sampleEnv_def noStatus_def split: option.splits list.splits)



section \<open>Bodies the gateway's own routes never see\<close>

lemma serveBody_core:
  assumes "NeedsRequestBody c" "\<not> hasPrefix (gr_Path r) PluginAPIPrefix" "Filters c PHASE_PRE_ROUTE = []"
    "gr_Body r = Some (b, None)" "int (length b) \<le> maxBody h" "rc_Path (gs_rc gs) = gr_Path r"
  shows "serveBody h env r snap c gs = serveNext env (drained r) c (onRc (\<lambda>rc. rc\<lparr>rc_RequestBody := b\<rparr>) gs)"
  using assms by (simp add: serveBody_def Let_def withBody_def readBody_def phaseThen_def Run_runFilters)

lemma serveNext_w: "gs_w (serveNext env q c gs) = gs_w (serveNext env q c (onRc g gs))"
proof -
  have "gs_w (releaseNow env g') = gs_w g'" for g' by (simp add: releaseNow_def split: prod.splits)
  then show ?thesis by (simp add: serveNext_def Let_def)
qed



end
