(* ===== verification/HostData.thy ===== *)
theory HostData
  imports TxRegistry Documents Query
begin

text \<open>
  The document store as the plugin service sees it: \<^verbatim>\<open>src/core/hostsvc/data.go\<close>, which joins the transaction registry and the document store.
  An operation that names a transaction looks it up for the calling plugin and runs on that transaction, the others run on the pool. What the database
  shows to a transaction, and what a commit or a rollback does to it, belongs to PostgreSQL: \<open>DbEnv\<close> has it as parameters. \<open>dx_see\<close> is the store an
  executor sees (none for the pool), \<open>dx_set\<close> the database after a statement left that executor's store in a given state, \<open>dx_open\<close> and \<open>dx_end\<close>
  begin and end a transaction. The settings an operator stores for a plugin, \<^verbatim>\<open>src/core/hostsvc/config.go\<close>, follow at the end.
\<close>

section \<open>Model\<close>

record 'd DbEnv =
  dx_pg :: Pg
  dx_qdb :: QDb
  dx_codec :: QCodec
  dx_see :: "nat option \<Rightarrow> 'd \<Rightarrow> Store"
  dx_set :: "nat option \<Rightarrow> Store \<Rightarrow> 'd \<Rightarrow> 'd"
  dx_open :: "'d \<Rightarrow> nat option \<times> 'd"
  dx_end :: "txAction \<Rightarrow> 'd \<Rightarrow> bool \<times> 'd"
  dx_now :: int
  dx_newID :: string
  dx_beginOk :: bool
  dx_commitOk :: bool

record 'd CMDSData =
  cd_txs :: TxRegistry
  cd_db :: 'd

definition NewCMDSData :: "'d \<Rightarrow> TxRegistry \<Rightarrow> 'd CMDSData" where
  "NewCMDSData conn txs = \<lparr>cd_txs = txs, cd_db = conn\<rparr>"

datatype data_err = DTx tx_err | DDoc doc_err | DQry qry_err

text \<open>The registry logs the commits and rollbacks it issues; this carries the new ones out.\<close>

definition settle :: "'d DbEnv \<Rightarrow> TxRegistry \<Rightarrow> 'd CMDSData \<Rightarrow> 'd CMDSData" where
  "settle env r st = \<lparr>cd_txs = r, cd_db = fold (\<lambda>a d. snd (dx_end env a d)) (drop (length (tr_log (cd_txs st))) (tr_log r)) (cd_db st)\<rparr>"

definition execFor :: "'d DbEnv \<Rightarrow> string \<Rightarrow> string \<Rightarrow> 'd CMDSData \<Rightarrow> (data_err + nat option) \<times> 'd CMDSData" where
  "execFor env pluginKey txID st =
     (if txID = [] then (Inr None, st)
      else case Lookup (dx_now env) pluginKey txID (cd_txs st) of
        (Inl e, r) \<Rightarrow> (Inl (DTx e), settle env r st)
      | (Inr tx, r) \<Rightarrow> (Inr (Some tx), settle env r st))"

text \<open>An operation on the store an executor sees.\<close>

definition onExec :: "'d DbEnv \<Rightarrow> string \<Rightarrow> string \<Rightarrow> (nat option \<Rightarrow> Store \<Rightarrow> (data_err + 'a) \<times> Store) \<Rightarrow> 'd CMDSData \<Rightarrow> (data_err + 'a) \<times> 'd CMDSData" where
  "onExec env pluginKey txID f st =
     (case execFor env pluginKey txID st of
        (Inl e, st1) \<Rightarrow> (Inl e, st1)
      | (Inr ex, st1) \<Rightarrow> (case f ex (dx_see env ex (cd_db st1)) of (r, s) \<Rightarrow> (r, st1\<lparr>cd_db := dx_set env ex s (cd_db st1)\<rparr>)))"

definition dataPut :: "'d DbEnv \<Rightarrow> string \<Rightarrow> string \<Rightarrow> string \<Rightarrow> bytes \<Rightarrow> string \<Rightarrow> int \<Rightarrow> 'd CMDSData \<Rightarrow> (data_err + int) \<times> 'd CMDSData" where
  "dataPut env pluginKey collection docID data txID expectedVersion =
     onExec env pluginKey txID (\<lambda>_ s. map_prod (map_sum DDoc id) id (PutVersioned (dx_pg env) pluginKey collection docID data expectedVersion s))"

text \<open>The Get, Query, Find and Aggregate statements change nothing.\<close>

definition reading :: "(data_err + 'a) \<Rightarrow> Store \<Rightarrow> (data_err + 'a) \<times> Store" where
  "reading r s = (r, s)"

definition dataGet :: "'d DbEnv \<Rightarrow> string \<Rightarrow> string \<Rightarrow> string \<Rightarrow> string \<Rightarrow> 'd CMDSData \<Rightarrow> (data_err + (bytes \<times> int) option) \<times> 'd CMDSData" where
  "dataGet env pluginKey collection docID txID =
     onExec env pluginKey txID (\<lambda>_ s. reading (map_sum DDoc id (GetVersioned (dx_pg env) pluginKey collection docID s)) s)"

definition dataDelete :: "'d DbEnv \<Rightarrow> string \<Rightarrow> string \<Rightarrow> string \<Rightarrow> string \<Rightarrow> 'd CMDSData \<Rightarrow> (data_err + bool) \<times> 'd CMDSData" where
  "dataDelete env pluginKey collection docID txID =
     onExec env pluginKey txID (\<lambda>_ s. map_prod (map_sum DDoc id) id (DeleteIn (dx_pg env) pluginKey collection docID s))"

record DataFilter =
  df_Field :: string
  df_Op :: string
  df_Values :: "string list"

definition dataFind :: "'d DbEnv \<Rightarrow> string \<Rightarrow> string \<Rightarrow> DataFilter list \<Rightarrow> int \<Rightarrow> int \<Rightarrow> string \<Rightarrow> 'd CMDSData \<Rightarrow> (data_err + bytes list) \<times> 'd CMDSData" where
  "dataFind env pluginKey collection filters lim offset txID =
     onExec env pluginKey txID (\<lambda>_ s.
       let legacy = map (\<lambda>f. \<lparr>ff_Field = df_Field f, ff_Operator = df_Op f, ff_Value = (case df_Values f of [] \<Rightarrow> [] | v # _ \<Rightarrow> v)\<rparr>) filters
       in reading (map_sum DQry id (Find (dx_pg env) (dx_qdb env) pluginKey collection legacy lim offset s)) s)"

definition toPredicates :: "DataFilter list \<Rightarrow> Predicate list" where
  "toPredicates filters = map (\<lambda>f. \<lparr>pr_Field = df_Field f, pr_Op = df_Op f, pr_Values = df_Values f\<rparr>) filters"

definition dataQuery :: "'d DbEnv \<Rightarrow> string \<Rightarrow> string \<Rightarrow> DataFilter list \<Rightarrow> SortField list \<Rightarrow> int \<Rightarrow> string \<Rightarrow> string \<Rightarrow> 'd CMDSData \<Rightarrow> (data_err + QueryResult) \<times> 'd CMDSData" where
  "dataQuery env pluginKey collection filters sorts lim cursor txID =
     onExec env pluginKey txID (\<lambda>_ s. reading (map_sum DQry id
       (Query (dx_pg env) (dx_qdb env) (dx_codec env) pluginKey collection
          \<lparr>qo_Predicates = toPredicates filters, qo_Sort = sorts, qo_Limit = lim, qo_Cursor = cursor\<rparr> s)) s)"

text \<open>\<open>ask\<close> is what the database answers to an aggregate statement on the store the executor sees.\<close>

definition dataAggregate ::
  "(Store \<Rightarrow> string \<Rightarrow> string list \<Rightarrow> string + (string option list \<times> ('v :: zero) option) list) \<Rightarrow> 'd DbEnv \<Rightarrow> string \<Rightarrow> string \<Rightarrow> DataFilter list \<Rightarrow>
   string \<Rightarrow> string \<Rightarrow> string list \<Rightarrow> string \<Rightarrow> 'd CMDSData \<Rightarrow> (data_err + 'v AggregateBucket list) \<times> 'd CMDSData" where
  "dataAggregate ask env pluginKey collection filters func field groupBy txID =
     onExec env pluginKey txID (\<lambda>_ s. reading (map_sum DQry id
       (Aggregate (ask s) pluginKey collection
          \<lparr>ag_Predicates = toPredicates filters, ag_Func = func, ag_Field = field, ag_GroupBy = groupBy\<rparr>)) s)"

definition dataBatchWrite :: "'d DbEnv \<Rightarrow> string \<Rightarrow> BatchOp list \<Rightarrow> string \<Rightarrow> 'd CMDSData \<Rightarrow> (data_err + nat) \<times> 'd CMDSData" where
  "dataBatchWrite env pluginKey ops txID =
     onExec env pluginKey txID (\<lambda>ex s. map_prod (map_sum DDoc id) id (BatchWrite (dx_pg env) (ex \<noteq> None) (dx_beginOk env) (dx_commitOk env) pluginKey ops s))"

text \<open>The database opens the transaction only once a slot is reserved.\<close>

definition dataBeginTx :: "'d DbEnv \<Rightarrow> string \<Rightarrow> int \<Rightarrow> 'd CMDSData \<Rightarrow> (data_err + string) \<times> 'd CMDSData" where
  "dataBeginTx env pluginKey timeout st =
     (case beginReserve pluginKey (cd_txs st) of
        Inl e \<Rightarrow> (Inl (DTx e), st)
      | Inr _ \<Rightarrow>
          (case dx_open env (cd_db st) of (dbtx, d) \<Rightarrow>
           (case BeginTx dbtx (dx_newID env) (dx_now env) pluginKey timeout (cd_txs st) of
              (r, txs) \<Rightarrow> (map_sum DTx id r, \<lparr>cd_txs = txs, cd_db = d\<rparr>))))"

definition endOk :: "'d DbEnv \<Rightarrow> (nat \<Rightarrow> txAction) \<Rightarrow> string \<Rightarrow> 'd CMDSData \<Rightarrow> bool" where
  "endOk env act txID st = (case map_of (tr_txs (cd_txs st)) txID of None \<Rightarrow> True | Some t \<Rightarrow> fst (dx_end env (act (ot_tx t)) (cd_db st)))"

definition dataCommitTx :: "'d DbEnv \<Rightarrow> string \<Rightarrow> string \<Rightarrow> 'd CMDSData \<Rightarrow> (data_err + unit) \<times> 'd CMDSData" where
  "dataCommitTx env pluginKey txID st =
     (case Commit (endOk env DoCommit txID st) pluginKey txID (cd_txs st) of (r, txs) \<Rightarrow> (map_sum DTx id r, settle env txs st))"

definition dataRollbackTx :: "'d DbEnv \<Rightarrow> string \<Rightarrow> string \<Rightarrow> 'd CMDSData \<Rightarrow> (data_err + unit) \<times> 'd CMDSData" where
  "dataRollbackTx env pluginKey txID st =
     (case Rollback (endOk env DoRollback txID st) pluginKey txID (cd_txs st) of (r, txs) \<Rightarrow> (map_sum DTx id r, settle env txs st))"

definition ProvisionSchema :: "'d DbEnv \<Rightarrow> string \<Rightarrow> CollectionSchema list \<Rightarrow> 'd CMDSData \<Rightarrow> (doc_err + unit) \<times> 'd CMDSData" where
  "ProvisionSchema env pluginKey collections st =
     (if collections = [] then (Inr (), st)
      else case ReconcileSchema (dx_pg env) pluginKey collections (dx_see env None (cd_db st)) of
        (r, s) \<Rightarrow> (r, st\<lparr>cd_db := dx_set env None s (cd_db st)\<rparr>))"

section \<open>A transaction belongs to one plugin\<close>

text \<open>The id is not that of a transaction of this plugin: nobody's, or another plugin's.\<close>

definition foreignTx :: "string \<Rightarrow> string \<Rightarrow> 'd CMDSData \<Rightarrow> bool" where
  "foreignTx pluginKey txID st \<longleftrightarrow> txID \<noteq> [] \<and> (case map_of (tr_txs (cd_txs st)) txID of None \<Rightarrow> True | Some t \<Rightarrow> ot_pluginKey t \<noteq> pluginKey)"

lemma settle_same [simp]: "settle env (cd_txs st) st = st"
  by (simp add: settle_def)

lemma onExec_foreign: "foreignTx pluginKey txID st \<Longrightarrow> onExec env pluginKey txID f st = (Inl (DTx ErrUnknownTx), st)"
  by (auto simp: foreignTx_def onExec_def execFor_def Lookup_def split: option.splits)

lemma endTx_foreign:
  assumes "foreignTx pluginKey txID st"
  shows "dataCommitTx env pluginKey txID st = (Inl (DTx ErrUnknownTx), st)" "dataRollbackTx env pluginKey txID st = (Inl (DTx ErrUnknownTx), st)"
  using assms by (auto simp: foreignTx_def dataCommitTx_def dataRollbackTx_def Commit_def Rollback_def takeTx_def split: option.splits)

text \<open>A database for samples: a transaction works on a copy of the store, and its commit puts the copy in place.\<close>

definition sampleDb :: "int \<Rightarrow> (Store \<times> (nat \<Rightarrow> Store) \<times> nat) DbEnv" where
  "sampleDb now = \<lparr>dx_pg = samplePg, dx_qdb = sampleQDb, dx_codec = sampleCodec,
     dx_see = (\<lambda>ex (s, ts, n). case ex of None \<Rightarrow> s | Some t \<Rightarrow> ts t), dx_set = (\<lambda>ex s' (s, ts, n). case ex of None \<Rightarrow> (s', ts, n) | Some t \<Rightarrow> (s, ts(t := s'), n)),
     dx_open = (\<lambda>(s, ts, n). (Some n, s, ts(n := s), n + 1)), dx_end = (\<lambda>a (s, ts, n). case a of DoCommit t \<Rightarrow> (True, ts t, ts, n) | DoRollback t \<Rightarrow> (True, s, ts, n)),
     dx_now = now, dx_newID = ''tx1'', dx_beginOk = True, dx_commitOk = True\<rparr>"

section \<open>Stored settings\<close>

text \<open>The table of settings: plugin, key and value. \<open>cf_fault\<close> is what the server answers to the n-th statement of a call.\<close>

type_synonym cfgRow = "string \<times> string \<times> string"

record CfgEnv =
  cf_begin :: "string option"
  cf_fault :: "nat \<Rightarrow> string option"
  cf_commit :: "string option"

definition CfgGet :: "CfgEnv \<Rightarrow> string \<Rightarrow> cfgRow list \<Rightarrow> string + (string, string) gomap" where
  "CfgGet env pluginKey rows =
     (case cf_fault env 0 of
        Some m \<Rightarrow> Inl m
      | None \<Rightarrow> Inr (fold (\<lambda>(_, k, v) out. AList.update k v out) (filter (\<lambda>(p, _). p = pluginKey) rows) []))"

text \<open>The inserts, in the order the map is walked; a second row for a key violates the primary key.\<close>

fun cfgInserts :: "CfgEnv \<Rightarrow> nat \<Rightarrow> string \<Rightarrow> (string, string) gomap \<Rightarrow> cfgRow list \<Rightarrow> string + cfgRow list" where
  "cfgInserts env n pluginKey [] rows = Inr rows"
| "cfgInserts env n pluginKey ((k, v) # kvs) rows =
     (case cf_fault env n of
        Some m \<Rightarrow> Inl m
      | None \<Rightarrow> if (pluginKey, k) \<in> (\<lambda>(p, k, _). (p, k)) ` set rows then Inl ''duplicate key'' else cfgInserts env (n + 1) pluginKey kvs (rows @ [(pluginKey, k, v)]))"

definition CfgSet :: "CfgEnv \<Rightarrow> string \<Rightarrow> (string, string) gomap \<Rightarrow> cfgRow list \<Rightarrow> (string + unit) \<times> cfgRow list" where
  "CfgSet env pluginKey values rows =
     (case cf_begin env of
        Some m \<Rightarrow> (Inl m, rows)
      | None \<Rightarrow>
          (case cf_fault env 0 of
             Some m \<Rightarrow> (Inl m, rows)
           | None \<Rightarrow>
               (case cfgInserts env 1 pluginKey values (filter (\<lambda>(p, _). p \<noteq> pluginKey) rows) of
                  Inl m \<Rightarrow> (Inl m, rows)
                | Inr rows1 \<Rightarrow> (case cf_commit env of Some m \<Rightarrow> (Inl m, rows) | None \<Rightarrow> (Inr (), rows1)))))"

lemma cfgInserts_rows: "cfgInserts env n p kvs rows = Inr rows' \<Longrightarrow> rows' = rows @ map (\<lambda>(k, v). (p, k, v)) kvs"
  by (induction env n p kvs rows rule: cfgInserts.induct) (auto split: option.splits if_splits)

text \<open>Saving settings is all or nothing and exact. When it fails the table is as it was; when it succeeds the plugin reads back exactly the settings that were saved, a removed key is gone,
  and every other plugin's rows are untouched.\<close>

theorem settings_replaced:
  assumes "CfgSet env p kvs rows = (r, rows')" "distinct (map fst kvs)"
  shows "(r \<noteq> Inr () \<longrightarrow> rows' = rows) \<and>
    (r = Inr () \<longrightarrow> (\<exists>m. CfgGet env p rows' = Inr m \<and> map_of m = map_of kvs) \<and> filter (\<lambda>(q, _). q \<noteq> p) rows' = filter (\<lambda>(q, _). q \<noteq> p) rows)"
proof -
  have "map_of (fold (\<lambda>(_, k, v) out. AList.update k v out) (map (\<lambda>(k, v). (p, k, v)) xs) out) = map_of out ++ map_of (rev xs)" for xs :: "(string \<times> string) list" and out
    by (induction xs arbitrary: out) (auto simp: update_conv' map_add_def fun_eq_iff split: option.splits)
  then have get: "map_of (fold (\<lambda>(_, k, v) out. AList.update k v out) (map (\<lambda>(k, v). (p, k, v)) kvs) []) = map_of kvs"
    using map_of_rev_distinct[OF assms(2)] by simp
  show ?thesis
  proof (cases "r = Inr ()")
    case True
    then have f: "cf_fault env 0 = None" and "cfgInserts env 1 p kvs (filter (\<lambda>(q, _). q \<noteq> p) rows) = Inr rows'"
      using assms(1) by (auto simp: CfgSet_def split: option.splits sum.splits)
    then have rows': "rows' = filter (\<lambda>(q, _). q \<noteq> p) rows @ map (\<lambda>(k, v). (p, k, v)) kvs" using cfgInserts_rows by blast
    have "filter (\<lambda>(q, _). q = p) rows' = map (\<lambda>(k, v). (p, k, v)) kvs" "filter (\<lambda>(q, _). q \<noteq> p) rows' = filter (\<lambda>(q, _). q \<noteq> p) rows"
      unfolding rows' by (auto simp: filter_empty_conv filter_id_conv)
    then show ?thesis using True f get by (simp add: CfgGet_def)
  qed (use assms(1) in \<open>auto simp: CfgSet_def split: option.splits sum.splits\<close>)
qed

definition plainCfg :: CfgEnv where
  "plainCfg = \<lparr>cf_begin = None, cf_fault = (\<lambda>_. None), cf_commit = None\<rparr>"

theorem settings_replaced_witness:
  "snd (CfgSet plainCfg ''a'' [(''x'', ''2'')] [(''a'', ''y'', ''1''), (''b'', ''y'', ''0'')]) = [(''b'', ''y'', ''0''), (''a'', ''x'', ''2'')] \<and>
   (\<exists>m. CfgGet plainCfg ''a'' [(''b'', ''y'', ''0''), (''a'', ''x'', ''2'')] = Inr m \<and> map_of m = map_of [(''x'', ''2'')])"
proof -
  have s: "CfgSet plainCfg ''a'' [(''x'', ''2'')] [(''a'', ''y'', ''1''), (''b'', ''y'', ''0'')] = (Inr (), [(''b'', ''y'', ''0''), (''a'', ''x'', ''2'')])" by code_simp
  with settings_replaced[OF s] show ?thesis by simp
qed

end
