(* ===== verification/HostServer.thy ===== *)
theory HostServer
  imports HostData Memory Queue Files Egress Events
begin

text \<open>
  The service Core offers to a plugin: \<^verbatim>\<open>src/core/hostsvc/server.go\<close> and the handlers of \<^verbatim>\<open>rpc_data.go\<close>, \<^verbatim>\<open>rpc_files.go\<close>,
  \<^verbatim>\<open>rpc_queue.go\<close> and \<^verbatim>\<open>rpc_runtime.go\<close> beside it. Every handler checks the permission, then that the capability is configured, then
  delegates to a backend with the key of the plugin the server was made for, and turns the backend's error into a status. The backends are interfaces in
  the code and records of operations here, on a world they share; a missing one is \<open>None\<close>. A streaming handler runs to the end of its stream.
\<close>

section \<open>The server\<close>

datatype code = PermissionDenied | Unavailable | InvalidArgument | NotFound | Aborted | FailedPrecondition | ResourceExhausted | DeadlineExceeded | Internal | Unknown

text \<open>The message of a status: a fixed text, or the error it prints.\<close>

datatype cause = Said string | OfData data_err | OfFile file_err | OfQueue string q_err | OfEvents event_err | OfConfig string | OfEgress egress_err

datatype status = Status code cause

record ('w, 'v) DataOps =
  d_Put :: "string \<Rightarrow> string \<Rightarrow> string \<Rightarrow> bytes \<Rightarrow> string \<Rightarrow> int \<Rightarrow> 'w \<Rightarrow> (data_err + int) \<times> 'w"
  d_Get :: "string \<Rightarrow> string \<Rightarrow> string \<Rightarrow> string \<Rightarrow> 'w \<Rightarrow> (data_err + (bytes \<times> int) option) \<times> 'w"
  d_Delete :: "string \<Rightarrow> string \<Rightarrow> string \<Rightarrow> string \<Rightarrow> 'w \<Rightarrow> (data_err + bool) \<times> 'w"
  d_Find :: "string \<Rightarrow> string \<Rightarrow> DataFilter list \<Rightarrow> int \<Rightarrow> int \<Rightarrow> string \<Rightarrow> 'w \<Rightarrow> (data_err + bytes list) \<times> 'w"
  d_Query :: "string \<Rightarrow> string \<Rightarrow> DataFilter list \<Rightarrow> SortField list \<Rightarrow> int \<Rightarrow> string \<Rightarrow> string \<Rightarrow> 'w \<Rightarrow> (data_err + QueryResult) \<times> 'w"
  d_Aggregate :: "string \<Rightarrow> string \<Rightarrow> DataFilter list \<Rightarrow> string \<Rightarrow> string \<Rightarrow> string list \<Rightarrow> string \<Rightarrow> 'w \<Rightarrow> (data_err + 'v AggregateBucket list) \<times> 'w"
  d_BatchWrite :: "string \<Rightarrow> BatchOp list \<Rightarrow> string \<Rightarrow> 'w \<Rightarrow> (data_err + nat) \<times> 'w"
  d_BeginTx :: "string \<Rightarrow> int \<Rightarrow> 'w \<Rightarrow> (data_err + string) \<times> 'w"
  d_CommitTx :: "string \<Rightarrow> string \<Rightarrow> 'w \<Rightarrow> (data_err + unit) \<times> 'w"
  d_RollbackTx :: "string \<Rightarrow> string \<Rightarrow> 'w \<Rightarrow> (data_err + unit) \<times> 'w"

text \<open>\<open>q_Consume\<close> runs a whole stream and gives the messages it handed over.\<close>

record 'w QueueOps =
  q_Enqueue :: "string \<Rightarrow> string \<Rightarrow> bytes \<Rightarrow> EnqueueOptions \<Rightarrow> 'w \<Rightarrow> (q_err + int \<times> bool) \<times> 'w"
  q_Consume :: "string \<Rightarrow> string \<Rightarrow> int \<Rightarrow> int \<Rightarrow> 'w \<Rightarrow> (Message list \<times> consumeEnd) \<times> 'w"
  q_Ack :: "string \<Rightarrow> int \<Rightarrow> 'w \<Rightarrow> (q_err + unit) \<times> 'w"
  q_Nack :: "string \<Rightarrow> int \<Rightarrow> string \<Rightarrow> int \<Rightarrow> 'w \<Rightarrow> (q_err + unit) \<times> 'w"

record 'w CacheOps =
  c_Get :: "string \<Rightarrow> string \<Rightarrow> 'w \<Rightarrow> bytes option \<times> 'w"
  c_Set :: "string \<Rightarrow> string \<Rightarrow> bytes \<Rightarrow> int \<Rightarrow> 'w \<Rightarrow> 'w"
  c_Delete :: "string \<Rightarrow> string \<Rightarrow> 'w \<Rightarrow> 'w"

record 'w LockOps =
  l_Acquire :: "string \<Rightarrow> string \<Rightarrow> int \<Rightarrow> int \<Rightarrow> 'w \<Rightarrow> (string + Lease option) \<times> 'w"
  l_Renew :: "string \<Rightarrow> string \<Rightarrow> string \<Rightarrow> int \<Rightarrow> 'w \<Rightarrow> Lease option \<times> 'w"
  l_Release :: "string \<Rightarrow> string \<Rightarrow> string \<Rightarrow> 'w \<Rightarrow> 'w"

record 'w FileOps =
  f_Put :: "string \<Rightarrow> string \<Rightarrow> string \<Rightarrow> bytes \<Rightarrow> 'w \<Rightarrow> (file_err + string \<times> int) \<times> 'w"
  f_Delete :: "string \<Rightarrow> string \<Rightarrow> 'w \<Rightarrow> (file_err + unit) \<times> 'w"
  f_Token :: "string \<Rightarrow> string \<Rightarrow> string \<Rightarrow> int \<Rightarrow> 'w \<Rightarrow> (file_err + string \<times> int) \<times> 'w"
  f_Metadata :: "string \<Rightarrow> string \<Rightarrow> 'w \<Rightarrow> (file_err + FileMeta) \<times> 'w"

record 'w EventOps =
  e_Publish :: "string \<Rightarrow> Event \<Rightarrow> 'w \<Rightarrow> 'w"
  e_Subscribe :: "string \<Rightarrow> string \<Rightarrow> 'w \<Rightarrow> (event_err + Event list) \<times> 'w"

text \<open>A metric is its name, kind, value as it is printed, and labels.\<close>

record 'w ObsOps =
  o_Log :: "string \<Rightarrow> LogRecord \<Rightarrow> 'w \<Rightarrow> 'w"
  o_Metric :: "string \<Rightarrow> string \<times> string \<times> string \<times> (string, string) gomap \<Rightarrow> 'w \<Rightarrow> 'w"

record ('w, 'v) Deps =
  dp_Data :: "('w, 'v) DataOps option"
  dp_Queue :: "'w QueueOps option"
  dp_Cache :: "'w CacheOps option"
  dp_Locks :: "'w LockOps option"
  dp_Config :: "(string \<Rightarrow> 'w \<Rightarrow> (string + (string, string) gomap) \<times> 'w) option"
  dp_Files :: "'w FileOps option"
  dp_Events :: "'w EventOps option"
  dp_Egress :: "(string \<Rightarrow> EgressRequest \<Rightarrow> 'w \<Rightarrow> (egress_err + EgressResponse) \<times> 'w) option"
  dp_Obs :: "'w ObsOps option"

record Server =
  sr_key :: string
  sr_perms :: "string list"
  sr_inflight :: int

definition NewServer :: "string \<Rightarrow> string list \<Rightarrow> Server" where
  "NewServer pluginKey granted = \<lparr>sr_key = pluginKey, sr_perms = granted, sr_inflight = 0\<rparr>"

definition require :: "Server \<Rightarrow> string \<Rightarrow> status + unit" where
  "require s perm =
     (if perm \<in> set (sr_perms s) then Inr ()
      else Inl (Status PermissionDenied (Said (''plugin '' @ sr_key s @ '' is not granted the '' @ perm @ '' permission''))))"

definition requireTx :: "Server \<Rightarrow> string \<Rightarrow> status + unit" where
  "requireTx s txID = (if txID = [] then Inr () else require s PermDBTx)"

definition unavailable :: "string \<Rightarrow> status" where
  "unavailable what = Status Unavailable (Said (what @ '' is not configured on this Core instance''))"

definition backend :: "string \<Rightarrow> 'b option \<Rightarrow> status + 'b" where
  "backend what dep = (case dep of None \<Rightarrow> Inl (unavailable what) | Some b \<Rightarrow> Inr b)"

text \<open>\<open>md\<close> is the trace id in the metadata of the call, if it has one.\<close>

definition traceFrom :: "string list \<Rightarrow> string \<Rightarrow> string" where
  "traceFrom md fallback = (case md of v # _ \<Rightarrow> if v \<noteq> [] then v else fallback | [] \<Rightarrow> fallback)"

text \<open>A check that ends the call when it fails, and a backend's answer with its error made a status.\<close>

definition andThen :: "(status + 'x) \<Rightarrow> ('x \<Rightarrow> 'w \<Rightarrow> (status + 'a) \<times> 'w) \<Rightarrow> 'w \<Rightarrow> (status + 'a) \<times> 'w" where
  "andThen r k w = (case r of Inl e \<Rightarrow> (Inl e, w) | Inr x \<Rightarrow> k x w)"

definition classify :: "('e \<Rightarrow> status) \<Rightarrow> ('a \<Rightarrow> 'b) \<Rightarrow> ('e + 'a) \<times> 'w \<Rightarrow> (status + 'b) \<times> 'w" where
  "classify f g r = map_prod (map_sum f g) id r"

section \<open>Documents\<close>

fun isConflict :: "doc_err \<Rightarrow> bool" where
  "isConflict ErrVersionConflict = True"
| "isConflict (BatchOpErr i e) = isConflict e"
| "isConflict _ = False"

definition dataErr :: "data_err \<Rightarrow> status" where
  "dataErr err =
     (case err of
        DDoc e \<Rightarrow> if isConflict e then Status Aborted (Said ''version conflict: the document changed since you read it'') else Status Internal (OfData err)
      | DTx (ErrTooManyTx p n l) \<Rightarrow> Status ResourceExhausted (OfData err)
      | DTx ErrUnknownTx \<Rightarrow>
          Status FailedPrecondition (Said ''unknown or expired transaction; transactions are rolled back once their timeout passes'')
      | _ \<Rightarrow> Status Internal (OfData err))"

definition onData :: "('w, 'v) Deps \<Rightarrow> Server \<Rightarrow> string \<Rightarrow> (('w, 'v) DataOps \<Rightarrow> 'w \<Rightarrow> (status + 'a) \<times> 'w) \<Rightarrow> 'w \<Rightarrow> (status + 'a) \<times> 'w" where
  "onData deps s txID k = andThen (require s PermDB) (\<lambda>_. andThen (requireTx s txID) (\<lambda>_. andThen (backend ''the document store'' (dp_Data deps)) k))"

definition rpcPut :: "('w, 'v) Deps \<Rightarrow> Server \<Rightarrow> string \<Rightarrow> string \<Rightarrow> bytes \<Rightarrow> string \<Rightarrow> int \<Rightarrow> 'w \<Rightarrow> (status + int) \<times> 'w" where
  "rpcPut deps s collection docID data txID expectedVersion =
     onData deps s txID (\<lambda>d w. classify dataErr id (d_Put d (sr_key s) collection docID data txID expectedVersion w))"

definition rpcGet :: "('w, 'v) Deps \<Rightarrow> Server \<Rightarrow> string \<Rightarrow> string \<Rightarrow> string \<Rightarrow> 'w \<Rightarrow> (status + (bytes \<times> int) option) \<times> 'w" where
  "rpcGet deps s collection docID txID =
     onData deps s txID (\<lambda>d w. classify dataErr id (d_Get d (sr_key s) collection docID txID w))"

definition rpcDelete :: "('w, 'v) Deps \<Rightarrow> Server \<Rightarrow> string \<Rightarrow> string \<Rightarrow> string \<Rightarrow> 'w \<Rightarrow> (status + bool) \<times> 'w" where
  "rpcDelete deps s collection docID txID =
     onData deps s txID (\<lambda>d w. classify dataErr id (d_Delete d (sr_key s) collection docID txID w))"

text \<open>The enumerations of the wire are open: an unknown number takes the default branch.\<close>

definition operatorName :: "int \<Rightarrow> string" where
  "operatorName op =
     (if op = 2 then OpNe else if op = 3 then OpGt else if op = 4 then OpGte else if op = 5 then OpLt else if op = 6 then OpLte
      else if op = 7 then OpLike else if op = 8 then OpIn else if op = 9 then OpBetween else if op = 10 then OpIsNull
      else if op = 11 then OpIsNotNull else OpEq)"

definition aggregateFuncName :: "int \<Rightarrow> string" where
  "aggregateFuncName fn = (if fn = 2 then AggSum else if fn = 3 then AggAvg else if fn = 4 then AggMin else if fn = 5 then AggMax else AggCount)"

definition filtersFrom :: "(string \<times> int \<times> string list) list \<Rightarrow> DataFilter list" where
  "filtersFrom fs = map (\<lambda>(field, op, vals). \<lparr>df_Field = field, df_Op = operatorName op, df_Values = vals\<rparr>) fs"

definition rpcFind :: "('w, 'v) Deps \<Rightarrow> Server \<Rightarrow> string \<Rightarrow> (string \<times> int \<times> string list) list \<Rightarrow> int \<Rightarrow> int \<Rightarrow> string \<Rightarrow> 'w \<Rightarrow> (status + bytes list) \<times> 'w" where
  "rpcFind deps s collection filters lim offset txID =
     onData deps s txID (\<lambda>d w. classify dataErr id (d_Find d (sr_key s) collection (filtersFrom filters) lim offset txID w))"

definition rpcQuery :: "('w, 'v) Deps \<Rightarrow> Server \<Rightarrow> string \<Rightarrow> (string \<times> int \<times> string list) list \<Rightarrow> SortField list \<Rightarrow> int \<Rightarrow> string \<Rightarrow> string \<Rightarrow>
    'w \<Rightarrow> (status + QueryResult) \<times> 'w" where
  "rpcQuery deps s collection filters sorts lim cursor txID =
     onData deps s txID (\<lambda>d w. classify (\<lambda>e. Status InvalidArgument (OfData e)) id
       (d_Query d (sr_key s) collection (filtersFrom filters) sorts lim cursor txID w))"

definition rpcAggregate :: "('w, 'v) Deps \<Rightarrow> Server \<Rightarrow> string \<Rightarrow> (string \<times> int \<times> string list) list \<Rightarrow> int \<Rightarrow> string \<Rightarrow> string list \<Rightarrow> string \<Rightarrow>
    'w \<Rightarrow> (status + 'v AggregateBucket list) \<times> 'w" where
  "rpcAggregate deps s collection filters fn field groupBy txID =
     onData deps s txID (\<lambda>d w. classify (\<lambda>e. Status InvalidArgument (OfData e)) id
       (d_Aggregate d (sr_key s) collection (filtersFrom filters) (aggregateFuncName fn) field groupBy txID w))"

text \<open>An element of a batch on the wire: a put, a delete, or neither.\<close>

datatype wireOp = WPut string string bytes | WDelete string string | WNothing

definition batchOps :: "wireOp list \<Rightarrow> status + BatchOp list" where
  "batchOps ops = mapRes (\<lambda>op. case op of
       WPut c i d \<Rightarrow> Inr \<lparr>bo_Delete = False, bo_Collection = c, bo_DocID = i, bo_Data = d\<rparr>
     | WDelete c i \<Rightarrow> Inr \<lparr>bo_Delete = True, bo_Collection = c, bo_DocID = i, bo_Data = []\<rparr>
     | WNothing \<Rightarrow> Inl (Status InvalidArgument (Said ''batch op has no put or delete''))) ops"

definition rpcBatchWrite :: "('w, 'v) Deps \<Rightarrow> Server \<Rightarrow> wireOp list \<Rightarrow> string \<Rightarrow> 'w \<Rightarrow> (status + nat) \<times> 'w" where
  "rpcBatchWrite deps s ops txID =
     onData deps s txID (\<lambda>d. andThen (batchOps ops) (\<lambda>batch w. classify dataErr id (d_BatchWrite d (sr_key s) batch txID w)))"

definition onTx :: "('w, 'v) Deps \<Rightarrow> Server \<Rightarrow> (('w, 'v) DataOps \<Rightarrow> 'w \<Rightarrow> (status + 'a) \<times> 'w) \<Rightarrow> 'w \<Rightarrow> (status + 'a) \<times> 'w" where
  "onTx deps s k = andThen (require s PermDBTx) (\<lambda>_. andThen (backend ''the document store'' (dp_Data deps)) k)"

definition rpcBeginTx :: "('w, 'v) Deps \<Rightarrow> Server \<Rightarrow> int \<Rightarrow> 'w \<Rightarrow> (status + string) \<times> 'w" where
  "rpcBeginTx deps s secs = onTx deps s (\<lambda>d w. classify dataErr id (d_BeginTx d (sr_key s) (secs * second) w))"

definition rpcCommitTx :: "('w, 'v) Deps \<Rightarrow> Server \<Rightarrow> string \<Rightarrow> 'w \<Rightarrow> (status + unit) \<times> 'w" where
  "rpcCommitTx deps s txID = onTx deps s (\<lambda>d w. classify dataErr id (d_CommitTx d (sr_key s) txID w))"

definition rpcRollbackTx :: "('w, 'v) Deps \<Rightarrow> Server \<Rightarrow> string \<Rightarrow> 'w \<Rightarrow> (status + unit) \<times> 'w" where
  "rpcRollbackTx deps s txID = onTx deps s (\<lambda>d w. classify dataErr id (d_RollbackTx d (sr_key s) txID w))"

section \<open>Files\<close>

definition fileErr :: "file_err \<Rightarrow> status" where
  "fileErr err = (case err of
     ErrFileNotFound i \<Rightarrow> Status NotFound (OfFile err) | ErrFileTooLarge n \<Rightarrow> Status InvalidArgument (OfFile err) | _ \<Rightarrow> Status Internal (OfFile err))"

definition onFiles :: "('w, 'v) Deps \<Rightarrow> Server \<Rightarrow> string \<Rightarrow> ('w FileOps \<Rightarrow> 'w \<Rightarrow> (status + 'a) \<times> 'w) \<Rightarrow> 'w \<Rightarrow> (status + 'a) \<times> 'w" where
  "onFiles deps s perm k = andThen (require s perm) (\<lambda>_. andThen (backend ''file storage'' (dp_Files deps)) k)"

text \<open>The upload stream: its chunks, each a name, a type and data, and the error that ended it if it did not end properly.\<close>

definition rpcPutFile :: "('w, 'v) Deps \<Rightarrow> Server \<Rightarrow> (string \<times> string \<times> bytes) list \<Rightarrow> string option \<Rightarrow> 'w \<Rightarrow> (status + string \<times> int) \<times> 'w" where
  "rpcPutFile deps s chunks broke =
     onFiles deps s PermFilesWrite (\<lambda>f w. case chunks of
        [] \<Rightarrow> (Inl (Status InvalidArgument (Said ''no file content received'')), w)
      | (filename, mimeType, d) # rest \<Rightarrow>
          (case broke of
             Some m \<Rightarrow> (Inl (Status Aborted (Said (''receive file: '' @ m))), w)
           | None \<Rightarrow> classify fileErr id (f_Put f (sr_key s) filename mimeType (d @ concat (map (\<lambda>(_, _, d). d) rest)) w)))"

definition rpcDeleteFile :: "('w, 'v) Deps \<Rightarrow> Server \<Rightarrow> string \<Rightarrow> 'w \<Rightarrow> (status + unit) \<times> 'w" where
  "rpcDeleteFile deps s fileID = onFiles deps s PermFilesWrite (\<lambda>f w. classify fileErr id (f_Delete f (sr_key s) fileID w))"

definition rpcDownloadToken :: "('w, 'v) Deps \<Rightarrow> Server \<Rightarrow> string \<Rightarrow> string \<Rightarrow> int \<Rightarrow> 'w \<Rightarrow> (status + string \<times> int) \<times> 'w" where
  "rpcDownloadToken deps s fileID userID secs =
     onFiles deps s PermFilesRead (\<lambda>f w. classify fileErr (\<lambda>(url, at). (url, at div second)) (f_Token f (sr_key s) fileID userID (secs * second) w))"

definition rpcFileMetadata :: "('w, 'v) Deps \<Rightarrow> Server \<Rightarrow> string \<Rightarrow> 'w \<Rightarrow> (status + FileMeta) \<times> 'w" where
  "rpcFileMetadata deps s fileID = onFiles deps s PermFilesRead (\<lambda>f w. classify fileErr id (f_Metadata f (sr_key s) fileID w))"

section \<open>Queue\<close>

definition onQueue :: "('w, 'v) Deps \<Rightarrow> Server \<Rightarrow> ('w QueueOps \<Rightarrow> 'w \<Rightarrow> (status + 'a) \<times> 'w) \<Rightarrow> 'w \<Rightarrow> (status + 'a) \<times> 'w" where
  "onQueue deps s k = andThen (require s PermQueue) (\<lambda>_. andThen (backend ''the durable queue'' (dp_Queue deps)) k)"

definition needed :: "string \<Rightarrow> string \<Rightarrow> status + unit" where
  "needed what name = (if name = [] then Inl (Status InvalidArgument (Said (what @ '' is required''))) else Inr ())"

definition rpcEnqueue :: "('w, 'v) Deps \<Rightarrow> Server \<Rightarrow> string list \<Rightarrow> string \<Rightarrow> bytes \<Rightarrow> int \<Rightarrow> string \<Rightarrow> int \<Rightarrow> int \<Rightarrow> string \<Rightarrow> 'w \<Rightarrow> (status + int \<times> bool) \<times> 'w" where
  "rpcEnqueue deps s md topic payload delay dedupKey priority maxAttempts traceID =
     onQueue deps s (\<lambda>q. andThen (needed ''topic'' topic) (\<lambda>_ w. classify (\<lambda>e. Status Internal (OfQueue ''enqueue'' e)) id
       (q_Enqueue q (sr_key s) topic payload
          \<lparr>eo_Delay = delay * second, eo_DedupKey = dedupKey, eo_Priority = priority, eo_MaxAttempts = maxAttempts, eo_TraceID = traceFrom md traceID\<rparr> w)))"

definition newDeliveryTraceID :: "int \<Rightarrow> int \<Rightarrow> string" where
  "newDeliveryTraceID messageID attempt = ''q-'' @ itoa messageID @ ''-'' @ itoa attempt"

definition enteredFlight :: "Server \<Rightarrow> Server" where
  "enteredFlight s = s\<lparr>sr_inflight := sr_inflight s + 1\<rparr>"

definition leftFlight :: "Server \<Rightarrow> Server" where
  "leftFlight s = (if sr_inflight s > 0 then s\<lparr>sr_inflight := sr_inflight s - 1\<rparr> else s)"

text \<open>The messages a consumer received, each with the trace id of its delivery, and how the backend's loop ended: its error is returned as it is.\<close>

definition rpcConsume :: "('w, 'v) Deps \<Rightarrow> Server \<Rightarrow> string \<Rightarrow> int \<Rightarrow> int \<Rightarrow> 'w \<Rightarrow> (status + (Message \<times> string) list \<times> consumeEnd) \<times> 'w" where
  "rpcConsume deps s topic prefetch visibility =
     onQueue deps s (\<lambda>q. andThen (needed ''topic'' topic) (\<lambda>_ w.
       case q_Consume q (sr_key s) topic prefetch (visibility * second) w of
         ((ms, fin), w1) \<Rightarrow> (Inr (map (\<lambda>m. (m, newDeliveryTraceID (ms_ID m) (ms_Attempt m))) ms, fin), w1)))"

definition rpcAck :: "('w, 'v) Deps \<Rightarrow> Server \<Rightarrow> int \<Rightarrow> 'w \<Rightarrow> (status + unit) \<times> 'w" where
  "rpcAck deps s i = onQueue deps s (\<lambda>q w. classify (\<lambda>e. Status Internal (OfQueue ''ack'' e)) id (q_Ack q (sr_key s) i w))"

definition rpcNack :: "('w, 'v) Deps \<Rightarrow> Server \<Rightarrow> int \<Rightarrow> string \<Rightarrow> int \<Rightarrow> 'w \<Rightarrow> (status + unit) \<times> 'w" where
  "rpcNack deps s i reason retryAfter =
     onQueue deps s (\<lambda>q w. classify (\<lambda>e. Status Internal (OfQueue ''nack'' e)) id (q_Nack q (sr_key s) i reason (retryAfter * second) w))"

text \<open>Waiting for room before a claim. A script holds what each turn of the loop saw: the messages in flight, the clock, and whether the consumer left.\<close>

datatype room = HasRoom | ConsumerLeft | StillWaiting

fun awaitRoom :: "int \<Rightarrow> int \<Rightarrow> (int \<times> int \<times> bool) list \<Rightarrow> room" where
  "awaitRoom prefetch deadline [] = StillWaiting"
| "awaitRoom prefetch deadline ((n, now, gone) # polls) =
     (if n < (if prefetch \<le> 0 then 1 else prefetch) \<or> now > deadline then HasRoom
      else if gone then ConsumerLeft else awaitRoom prefetch deadline polls)"

section \<open>Cache, locks, configuration, events, logs and outbound requests\<close>

definition onCache :: "('w, 'v) Deps \<Rightarrow> Server \<Rightarrow> ('w CacheOps \<Rightarrow> 'w \<Rightarrow> (status + 'a) \<times> 'w) \<Rightarrow> 'w \<Rightarrow> (status + 'a) \<times> 'w" where
  "onCache deps s k = andThen (require s PermCache) (\<lambda>_. andThen (backend ''the cache'' (dp_Cache deps)) k)"

definition rpcCacheGet :: "('w, 'v) Deps \<Rightarrow> Server \<Rightarrow> string \<Rightarrow> 'w \<Rightarrow> (status + bytes option) \<times> 'w" where
  "rpcCacheGet deps s key = onCache deps s (\<lambda>c w. case c_Get c (sr_key s) key w of (v, w1) \<Rightarrow> (Inr v, w1))"

definition rpcCacheSet :: "('w, 'v) Deps \<Rightarrow> Server \<Rightarrow> string \<Rightarrow> bytes \<Rightarrow> int \<Rightarrow> 'w \<Rightarrow> (status + unit) \<times> 'w" where
  "rpcCacheSet deps s key val ttl = onCache deps s (\<lambda>c w. (Inr (), c_Set c (sr_key s) key val (ttl * second) w))"

definition rpcCacheDelete :: "('w, 'v) Deps \<Rightarrow> Server \<Rightarrow> string \<Rightarrow> 'w \<Rightarrow> (status + unit) \<times> 'w" where
  "rpcCacheDelete deps s key = onCache deps s (\<lambda>c w. (Inr (), c_Delete c (sr_key s) key w))"

definition onLocks :: "('w, 'v) Deps \<Rightarrow> Server \<Rightarrow> ('w LockOps \<Rightarrow> 'w \<Rightarrow> (status + 'a) \<times> 'w) \<Rightarrow> 'w \<Rightarrow> (status + 'a) \<times> 'w" where
  "onLocks deps s k = andThen (require s PermLock) (\<lambda>_. andThen (backend ''locking'' (dp_Locks deps)) k)"

text \<open>A lease on the wire: its id and expiry in seconds, absent when the lock was not acquired.\<close>

definition wireLease :: "Lease option \<Rightarrow> (string \<times> int) option" where
  "wireLease l = map_option (\<lambda>l. (le_ID l, le_ExpiresAt l div second)) l"

definition rpcAcquireLock :: "('w, 'v) Deps \<Rightarrow> Server \<Rightarrow> string \<Rightarrow> int \<Rightarrow> int \<Rightarrow> 'w \<Rightarrow> (status + (string \<times> int) option) \<times> 'w" where
  "rpcAcquireLock deps s name ttl wait =
     onLocks deps s (\<lambda>l. andThen (needed ''lock name'' name) (\<lambda>_ w.
       classify (\<lambda>e. Status Aborted (Said (''acquire lock: '' @ e))) wireLease (l_Acquire l (sr_key s) name (ttl * second) (wait * second) w)))"

definition rpcRenewLock :: "('w, 'v) Deps \<Rightarrow> Server \<Rightarrow> string \<Rightarrow> string \<Rightarrow> int \<Rightarrow> 'w \<Rightarrow> (status + (string \<times> int) option) \<times> 'w" where
  "rpcRenewLock deps s name leaseID ttl =
     onLocks deps s (\<lambda>l w. case l_Renew l (sr_key s) name leaseID (ttl * second) w of (r, w1) \<Rightarrow> (Inr (wireLease r), w1))"

definition rpcReleaseLock :: "('w, 'v) Deps \<Rightarrow> Server \<Rightarrow> string \<Rightarrow> string \<Rightarrow> 'w \<Rightarrow> (status + unit) \<times> 'w" where
  "rpcReleaseLock deps s name leaseID = onLocks deps s (\<lambda>l w. (Inr (), l_Release l (sr_key s) name leaseID w))"

definition rpcGetConfig :: "('w, 'v) Deps \<Rightarrow> Server \<Rightarrow> 'w \<Rightarrow> (status + (string, string) gomap) \<times> 'w" where
  "rpcGetConfig deps s w =
     (case dp_Config deps of None \<Rightarrow> (Inr [], w) | Some get \<Rightarrow> classify (\<lambda>e. Status Internal (OfConfig e)) id (get (sr_key s) w))"

definition onEvents :: "('w, 'v) Deps \<Rightarrow> Server \<Rightarrow> string \<Rightarrow> ('w EventOps \<Rightarrow> 'w \<Rightarrow> (status + 'a) \<times> 'w) \<Rightarrow> 'w \<Rightarrow> (status + 'a) \<times> 'w" where
  "onEvents deps s name k = andThen (require s PermEvents) (\<lambda>_. andThen (backend ''the event bus'' (dp_Events deps)) (\<lambda>e. andThen (needed ''event name'' name) (\<lambda>_. k e)))"

definition rpcPublish :: "('w, 'v) Deps \<Rightarrow> Server \<Rightarrow> string list \<Rightarrow> string \<Rightarrow> bytes \<Rightarrow> string \<Rightarrow> 'w \<Rightarrow> (status + unit) \<times> 'w" where
  "rpcPublish deps s md name data traceID =
     onEvents deps s name (\<lambda>e w. (Inr (), e_Publish e (sr_key s)
       \<lparr>ev_Name = name, ev_Data = data, ev_SourcePluginKey = sr_key s, ev_TraceID = traceFrom md traceID\<rparr> w))"

text \<open>The bus's error is returned as it is, which the transport reports as unknown.\<close>

definition rpcSubscribe :: "('w, 'v) Deps \<Rightarrow> Server \<Rightarrow> string \<Rightarrow> 'w \<Rightarrow> (status + Event list) \<times> 'w" where
  "rpcSubscribe deps s name = onEvents deps s name (\<lambda>e w. classify (\<lambda>err. Status Unknown (OfEvents err)) id (e_Subscribe e (sr_key s) name w))"

definition logLevelName :: "int \<Rightarrow> string" where
  "logLevelName l = (if l = 1 then ''debug'' else if l = 3 then ''warn'' else if l = 4 then ''error'' else ''info'')"

definition metricKindName :: "int \<Rightarrow> string" where
  "metricKindName k = (if k = 2 then ''gauge'' else if k = 3 then ''histogram'' else ''counter'')"

text \<open>The records of the stream, each with its level as a number; the clock is not part of what is logged.\<close>

definition rpcLog :: "('w, 'v) Deps \<Rightarrow> Server \<Rightarrow> (int \<times> string \<times> (string, string) gomap \<times> string) list \<Rightarrow> 'w \<Rightarrow> (status + unit) \<times> 'w" where
  "rpcLog deps s recs w =
     (case dp_Obs deps of
        None \<Rightarrow> (Inr (), w)
      | Some obs \<Rightarrow> (Inr (), fold (\<lambda>(l, m, fs, t). o_Log obs (sr_key s) \<lparr>lr_Level = logLevelName l, lr_Message = m, lr_Fields = fs, lr_TraceID = t\<rparr>) recs w))"

definition rpcRecordMetric :: "('w, 'v) Deps \<Rightarrow> Server \<Rightarrow> string \<Rightarrow> int \<Rightarrow> string \<Rightarrow> (string, string) gomap \<Rightarrow> 'w \<Rightarrow> (status + unit) \<times> 'w" where
  "rpcRecordMetric deps s name kind val lbls w =
     (case dp_Obs deps of None \<Rightarrow> (Inr (), w) | Some obs \<Rightarrow> (Inr (), o_Metric obs (sr_key s) (name, metricKindName kind, val, lbls) w))"

text \<open>The deadline of the call is a transport error to the model of the proxy; \<open>late\<close> tells which of those it was.\<close>

definition egressErr :: "(string \<Rightarrow> bool) \<Rightarrow> egress_err \<Rightarrow> status" where
  "egressErr late err =
     (case errIs err of
        Some ErrEgressNotAllowed \<Rightarrow> Status PermissionDenied (OfEgress err)
      | Some ErrEgressRateLimited \<Rightarrow> Status ResourceExhausted (OfEgress err)
      | Some ErrEgressBadRequest \<Rightarrow> Status InvalidArgument (OfEgress err)
      | None \<Rightarrow> (case err of
          Transport m \<Rightarrow> if late m then Status DeadlineExceeded (OfEgress err) else Status Unavailable (OfEgress err)
        | _ \<Rightarrow> Status Unavailable (OfEgress err)))"

definition rpcFetch :: "(string \<Rightarrow> bool) \<Rightarrow> ('w, 'v) Deps \<Rightarrow> Server \<Rightarrow> string \<Rightarrow> string \<Rightarrow> (string, string list) gomap \<Rightarrow> bytes \<Rightarrow> int \<Rightarrow>
    'w \<Rightarrow> (status + EgressResponse) \<times> 'w" where
  "rpcFetch late deps s verb url headers body ms =
     andThen (require s PermHTTPEgress) (\<lambda>_. andThen (backend ''outbound HTTP'' (dp_Egress deps)) (\<lambda>fetch w.
       classify (egressErr late) id
         (fetch (sr_key s) \<lparr>er_Method = verb, er_URL = url, er_Headers = headers, er_Body = body, er_Timeout = ms * 1000000\<rparr> w)))"

section \<open>Every call\<close>

text \<open>The calls of the service with the fields of their requests; the first argument of three of them is the trace id in the call's metadata.\<close>

datatype Call =
  CPut string string bytes string int | CGet string string string | CDelete string string string
| CFind string "(string \<times> int \<times> string list) list" int int string
| CQuery string "(string \<times> int \<times> string list) list" "SortField list" int string string
| CAggregate string "(string \<times> int \<times> string list) list" int string "string list" string
| CBatchWrite "wireOp list" string | CBeginTx int | CCommitTx string | CRollbackTx string
| CEnqueue "string list" string bytes int string int int string | CConsume string int int | CAck int | CNack int string int
| CPutFile "(string \<times> string \<times> bytes) list" "string option" | CDeleteFile string | CDownloadToken string string int | CFileMetadata string
| CCacheGet string | CCacheSet string bytes int | CCacheDelete string
| CAcquireLock string int int | CRenewLock string string int | CReleaseLock string string
| CGetConfig | CPublish "string list" string bytes string | CSubscribe string
| CLog "(int \<times> string \<times> (string, string) gomap \<times> string) list" | CRecordMetric string int string "(string, string) gomap"
| CFetch string string "(string, string list) gomap" bytes int

datatype 'v Answer =
  AEmpty | AVersion int | ADoc "(bytes \<times> int) option" | ADeleted bool | ADocs "bytes list" | AResult QueryResult | ABuckets "'v AggregateBucket list"
| AApplied nat | ATx string | AEnqueued "int \<times> bool" | AMessages "(Message \<times> string) list \<times> consumeEnd" | AFile "string \<times> int" | AToken "string \<times> int"
| AMeta FileMeta | AValue "bytes option" | ALease "(string \<times> int) option" | AConfig "(string, string) gomap" | AEvents "Event list" | AResponse EgressResponse

definition answer :: "('a \<Rightarrow> 'v Answer) \<Rightarrow> (status + 'a) \<times> 'w \<Rightarrow> (status + 'v Answer) \<times> 'w" where
  "answer f r = map_prod (map_sum id f) id r"

fun respond :: "(string \<Rightarrow> bool) \<Rightarrow> ('w, 'v) Deps \<Rightarrow> Server \<Rightarrow> Call \<Rightarrow> 'w \<Rightarrow> (status + 'v Answer) \<times> 'w" where
  "respond late deps s (CPut c i d t v) w = answer AVersion (rpcPut deps s c i d t v w)"
| "respond late deps s (CGet c i t) w = answer ADoc (rpcGet deps s c i t w)"
| "respond late deps s (CDelete c i t) w = answer ADeleted (rpcDelete deps s c i t w)"
| "respond late deps s (CFind c fs l off t) w = answer ADocs (rpcFind deps s c fs l off t w)"
| "respond late deps s (CQuery c fs ss l cur t) w = answer AResult (rpcQuery deps s c fs ss l cur t w)"
| "respond late deps s (CAggregate c fs fn f g t) w = answer ABuckets (rpcAggregate deps s c fs fn f g t w)"
| "respond late deps s (CBatchWrite ops t) w = answer AApplied (rpcBatchWrite deps s ops t w)"
| "respond late deps s (CBeginTx n) w = answer ATx (rpcBeginTx deps s n w)"
| "respond late deps s (CCommitTx t) w = answer (\<lambda>_. AEmpty) (rpcCommitTx deps s t w)"
| "respond late deps s (CRollbackTx t) w = answer (\<lambda>_. AEmpty) (rpcRollbackTx deps s t w)"
| "respond late deps s (CEnqueue md t p d k pr m tr) w = answer AEnqueued (rpcEnqueue deps s md t p d k pr m tr w)"
| "respond late deps s (CConsume t n v) w = answer AMessages (rpcConsume deps s t n v w)"
| "respond late deps s (CAck i) w = answer (\<lambda>_. AEmpty) (rpcAck deps s i w)"
| "respond late deps s (CNack i m n) w = answer (\<lambda>_. AEmpty) (rpcNack deps s i m n w)"
| "respond late deps s (CPutFile cs b) w = answer AFile (rpcPutFile deps s cs b w)"
| "respond late deps s (CDeleteFile i) w = answer (\<lambda>_. AEmpty) (rpcDeleteFile deps s i w)"
| "respond late deps s (CDownloadToken i u n) w = answer AToken (rpcDownloadToken deps s i u n w)"
| "respond late deps s (CFileMetadata i) w = answer AMeta (rpcFileMetadata deps s i w)"
| "respond late deps s (CCacheGet k) w = answer AValue (rpcCacheGet deps s k w)"
| "respond late deps s (CCacheSet k v n) w = answer (\<lambda>_. AEmpty) (rpcCacheSet deps s k v n w)"
| "respond late deps s (CCacheDelete k) w = answer (\<lambda>_. AEmpty) (rpcCacheDelete deps s k w)"
| "respond late deps s (CAcquireLock n t m) w = answer ALease (rpcAcquireLock deps s n t m w)"
| "respond late deps s (CRenewLock n l t) w = answer ALease (rpcRenewLock deps s n l t w)"
| "respond late deps s (CReleaseLock n l) w = answer (\<lambda>_. AEmpty) (rpcReleaseLock deps s n l w)"
| "respond late deps s CGetConfig w = answer AConfig (rpcGetConfig deps s w)"
| "respond late deps s (CPublish md n d tr) w = answer (\<lambda>_. AEmpty) (rpcPublish deps s md n d tr w)"
| "respond late deps s (CSubscribe n) w = answer AEvents (rpcSubscribe deps s n w)"
| "respond late deps s (CLog rs) w = answer (\<lambda>_. AEmpty) (rpcLog deps s rs w)"
| "respond late deps s (CRecordMetric n k v ls) w = answer (\<lambda>_. AEmpty) (rpcRecordMetric deps s n k v ls w)"
| "respond late deps s (CFetch m u h b n) w = answer AResponse (rpcFetch late deps s m u h b n w)"

text \<open>The server afterwards: messages handed over raise the count of those in flight, an acknowledged one lowers it.\<close>

definition serverAfter :: "Call \<Rightarrow> (status + 'v Answer) \<Rightarrow> Server \<Rightarrow> Server" where
  "serverAfter c r s =
     (case (c, r) of
        (CAck i, Inr _) \<Rightarrow> leftFlight s
      | (CNack i m n, Inr _) \<Rightarrow> leftFlight s
      | (_, Inr (AMessages (ms, fin))) \<Rightarrow> (enteredFlight ^^ length ms) s
      | _ \<Rightarrow> s)"

section \<open>Permissions come first\<close>

text \<open>What a call needs, by the permissions a manifest can declare.\<close>

definition txPerm :: "string \<Rightarrow> string set" where
  "txPerm t = (if t = [] then {} else {PermDBTx})"

fun needs :: "Call \<Rightarrow> string set" where
  "needs (CPut c i d t v) = {PermDB} \<union> txPerm t"
| "needs (CGet c i t) = {PermDB} \<union> txPerm t"
| "needs (CDelete c i t) = {PermDB} \<union> txPerm t"
| "needs (CFind c fs l off t) = {PermDB} \<union> txPerm t"
| "needs (CQuery c fs ss l cur t) = {PermDB} \<union> txPerm t"
| "needs (CAggregate c fs fn f g t) = {PermDB} \<union> txPerm t"
| "needs (CBatchWrite ops t) = {PermDB} \<union> txPerm t"
| "needs (CBeginTx n) = {PermDBTx}"
| "needs (CCommitTx t) = {PermDBTx}"
| "needs (CRollbackTx t) = {PermDBTx}"
| "needs (CEnqueue md t p d k pr m tr) = {PermQueue}"
| "needs (CConsume t n v) = {PermQueue}"
| "needs (CAck i) = {PermQueue}"
| "needs (CNack i m n) = {PermQueue}"
| "needs (CPutFile cs b) = {PermFilesWrite}"
| "needs (CDeleteFile i) = {PermFilesWrite}"
| "needs (CDownloadToken i u n) = {PermFilesRead}"
| "needs (CFileMetadata i) = {PermFilesRead}"
| "needs (CCacheGet k) = {PermCache}"
| "needs (CCacheSet k v n) = {PermCache}"
| "needs (CCacheDelete k) = {PermCache}"
| "needs (CAcquireLock n t m) = {PermLock}"
| "needs (CRenewLock n l t) = {PermLock}"
| "needs (CReleaseLock n l) = {PermLock}"
| "needs (CPublish md n d tr) = {PermEvents}"
| "needs (CSubscribe n) = {PermEvents}"
| "needs (CFetch m u h b n) = {PermHTTPEgress}"
| "needs c = {}"

text \<open>The code of an answer, if it is an error.\<close>

fun codeOf :: "status + 'a \<Rightarrow> code option" where
  "codeOf (Inl (Status c m)) = Some c"
| "codeOf (Inr x) = None"

text \<open>The one call that may be denied with its permissions: the host is not on the plugin's list.\<close>

definition hostRefused :: "Call \<Rightarrow> bool" where
  "hostRefused c = (case c of CFetch _ _ _ _ _ \<Rightarrow> True | _ \<Rightarrow> False)"

lemmas rpc_defs = rpcPut_def rpcGet_def rpcDelete_def rpcFind_def rpcQuery_def rpcAggregate_def rpcBatchWrite_def rpcBeginTx_def rpcCommitTx_def
  rpcRollbackTx_def rpcEnqueue_def rpcConsume_def rpcAck_def rpcNack_def rpcPutFile_def rpcDeleteFile_def rpcDownloadToken_def rpcFileMetadata_def
  rpcCacheGet_def rpcCacheSet_def rpcCacheDelete_def rpcAcquireLock_def rpcRenewLock_def rpcReleaseLock_def rpcGetConfig_def rpcPublish_def rpcSubscribe_def
  rpcLog_def rpcRecordMetric_def rpcFetch_def
lemmas gate_defs = onData_def onTx_def onQueue_def onFiles_def onCache_def onLocks_def onEvents_def

lemma codeOf_Inr [simp]: "codeOf (map_sum id f r) = codeOf r"
  by (cases r rule: codeOf.cases) simp_all

lemma codeOf_gates [simp]:
  "codeOf (fst (andThen (require s p) k w)) = (if p \<in> set (sr_perms s) then codeOf (fst (k () w)) else Some PermissionDenied)"
  "codeOf (fst (andThen (requireTx s t) k w)) = (if txPerm t \<subseteq> set (sr_perms s) then codeOf (fst (k () w)) else Some PermissionDenied)"
  "codeOf (fst (andThen (backend what dep) k2 w)) = (case dep of None \<Rightarrow> Some Unavailable | Some b \<Rightarrow> codeOf (fst (k2 b w)))"
  "codeOf (fst (andThen (needed what2 name) k w)) = (if name = [] then Some InvalidArgument else codeOf (fst (k () w)))"
  "codeOf (fst (answer f r)) = codeOf (fst r)"
  by (auto simp: andThen_def require_def requireTx_def backend_def unavailable_def needed_def answer_def txPerm_def split: option.splits)

lemma world_gates [simp]:
  "snd (andThen (require s p) k w) = (if p \<in> set (sr_perms s) then snd (k () w) else w)"
  "snd (andThen (requireTx s t) k w) = (if txPerm t \<subseteq> set (sr_perms s) then snd (k () w) else w)"
  "snd (andThen (backend what dep) k2 w) = (case dep of None \<Rightarrow> w | Some b \<Rightarrow> snd (k2 b w))"
  "snd (answer f r) = snd r"
  by (auto simp: andThen_def require_def requireTx_def backend_def answer_def txPerm_def split: option.splits)

lemma codeOf_batch [simp]:
  "codeOf (fst (andThen (batchOps ops) k w)) = (case batchOps ops of Inl e \<Rightarrow> Some InvalidArgument | Inr b \<Rightarrow> codeOf (fst (k b w)))"
proof -
  have "batchOps ops = Inl e \<Longrightarrow> \<exists>m. e = Status InvalidArgument m" for e
    by (induction ops) (auto simp: batchOps_def split: wireOp.splits sum.splits)
  then show ?thesis by (cases "batchOps ops") (auto simp: andThen_def)
qed

lemma codeOf_classify: "codeOf (fst (classify f g r)) = (case fst r of Inl e \<Rightarrow> codeOf (Inl (f e) :: status + unit) | Inr x \<Rightarrow> None)"
  by (cases r; cases "fst r"; cases "f (projl (fst r))") (auto simp: classify_def)

lemma codeOf_Status [simp]: "codeOf (fst (classify (\<lambda>e. Status code (m e)) g r)) = (if isl (fst r) then Some code else None)"
  by (simp add: codeOf_classify split: sum.splits)

lemma codeOf_backends [simp]:
  "codeOf (fst (classify dataErr g r)) \<noteq> Some PermissionDenied" "codeOf (fst (classify fileErr g2 r2)) \<noteq> Some PermissionDenied"
  by (auto simp: codeOf_classify dataErr_def fileErr_def split: sum.splits data_err.splits tx_err.splits file_err.splits)

text \<open>The capability a call needs is configured.\<close>

fun configured :: "('w, 'v) Deps \<Rightarrow> Call \<Rightarrow> bool" where
  "configured deps (CEnqueue md t p d k pr m tr) = (dp_Queue deps \<noteq> None)"
| "configured deps (CConsume t n v) = (dp_Queue deps \<noteq> None)"
| "configured deps (CAck i) = (dp_Queue deps \<noteq> None)"
| "configured deps (CNack i m n) = (dp_Queue deps \<noteq> None)"
| "configured deps (CPutFile cs b) = (dp_Files deps \<noteq> None)"
| "configured deps (CDeleteFile i) = (dp_Files deps \<noteq> None)"
| "configured deps (CDownloadToken i u n) = (dp_Files deps \<noteq> None)"
| "configured deps (CFileMetadata i) = (dp_Files deps \<noteq> None)"
| "configured deps (CCacheGet k) = (dp_Cache deps \<noteq> None)"
| "configured deps (CCacheSet k v n) = (dp_Cache deps \<noteq> None)"
| "configured deps (CCacheDelete k) = (dp_Cache deps \<noteq> None)"
| "configured deps (CAcquireLock n t m) = (dp_Locks deps \<noteq> None)"
| "configured deps (CRenewLock n l t) = (dp_Locks deps \<noteq> None)"
| "configured deps (CReleaseLock n l) = (dp_Locks deps \<noteq> None)"
| "configured deps (CPublish md n d tr) = (dp_Events deps \<noteq> None)"
| "configured deps (CSubscribe n) = (dp_Events deps \<noteq> None)"
| "configured deps (CFetch m u h b n) = (dp_Egress deps \<noteq> None)"
| "configured deps CGetConfig = True"
| "configured deps (CLog rs) = True"
| "configured deps (CRecordMetric n k v ls) = True"
| "configured deps c = (dp_Data deps \<noteq> None)"

lemma missing_denied:
  assumes "\<not> needs c \<subseteq> set (sr_perms s)"
  shows "codeOf (fst (respond late deps s c w)) = Some PermissionDenied \<and> snd (respond late deps s c w) = w"
  using assms by (cases c) (auto simp: rpc_defs gate_defs)

lemma missing_backend:
  assumes "needs c \<subseteq> set (sr_perms s)" "\<not> configured deps c"
  shows "codeOf (fst (respond late deps s c w)) = Some Unavailable \<and> snd (respond late deps s c w) = w"
  using assms by (cases c) (auto simp: rpc_defs gate_defs)

lemma granted_not_denied:
  assumes "needs c \<subseteq> set (sr_perms s)" "\<not> hostRefused c"
  shows "codeOf (fst (respond late deps s c w)) \<noteq> Some PermissionDenied"
  using assms by (cases c) (auto simp: rpc_defs gate_defs hostRefused_def split: option.splits sum.splits list.splits prod.splits)

text \<open>C4: Permission first, then configuration. A call that needs a permission the plugin was not granted is answered \<^verbatim>\<open>PermissionDenied\<close> and one whose capability Core does not run
  is answered \<^verbatim>\<open>Unavailable\<close>, both without any effect and whatever the backends would do. With the permissions granted a plugin is never told that one is missing: only an outbound
  request can still be denied, for its host.\<close>

theorem rpc_gate:
  "(\<not> needs c \<subseteq> set (sr_perms s) \<longrightarrow> codeOf (fst (respond late deps s c w)) = Some PermissionDenied \<and> snd (respond late deps s c w) = w) \<and>
   (needs c \<subseteq> set (sr_perms s) \<and> \<not> configured deps c \<longrightarrow> codeOf (fst (respond late deps s c w)) = Some Unavailable \<and> snd (respond late deps s c w) = w) \<and>
   (needs c \<subseteq> set (sr_perms s) \<and> \<not> hostRefused c \<longrightarrow> codeOf (fst (respond late deps s c w)) \<noteq> Some PermissionDenied)"
  using missing_denied[of c s late deps w] missing_backend[of c s deps late w] granted_not_denied[of c s late deps w] by auto

section \<open>A plugin speaks only for itself\<close>

text \<open>Two backends that do the same for one plugin and may differ in everything they do for others.\<close>

definition sameData :: "string \<Rightarrow> ('w, 'v) DataOps \<Rightarrow> ('w, 'v) DataOps \<Rightarrow> bool" where
  "sameData k a b \<longleftrightarrow> d_Put a k = d_Put b k \<and> d_Get a k = d_Get b k \<and> d_Delete a k = d_Delete b k \<and> d_Find a k = d_Find b k \<and> d_Query a k = d_Query b k \<and>
     d_Aggregate a k = d_Aggregate b k \<and> d_BatchWrite a k = d_BatchWrite b k \<and> d_BeginTx a k = d_BeginTx b k \<and> d_CommitTx a k = d_CommitTx b k \<and>
     d_RollbackTx a k = d_RollbackTx b k"

definition sameQueue :: "string \<Rightarrow> 'w QueueOps \<Rightarrow> 'w QueueOps \<Rightarrow> bool" where
  "sameQueue k a b \<longleftrightarrow> q_Enqueue a k = q_Enqueue b k \<and> q_Consume a k = q_Consume b k \<and> q_Ack a k = q_Ack b k \<and> q_Nack a k = q_Nack b k"

definition sameCache :: "string \<Rightarrow> 'w CacheOps \<Rightarrow> 'w CacheOps \<Rightarrow> bool" where
  "sameCache k a b \<longleftrightarrow> c_Get a k = c_Get b k \<and> c_Set a k = c_Set b k \<and> c_Delete a k = c_Delete b k"

definition sameLocks :: "string \<Rightarrow> 'w LockOps \<Rightarrow> 'w LockOps \<Rightarrow> bool" where
  "sameLocks k a b \<longleftrightarrow> l_Acquire a k = l_Acquire b k \<and> l_Renew a k = l_Renew b k \<and> l_Release a k = l_Release b k"

definition sameFiles :: "string \<Rightarrow> 'w FileOps \<Rightarrow> 'w FileOps \<Rightarrow> bool" where
  "sameFiles k a b \<longleftrightarrow> f_Put a k = f_Put b k \<and> f_Delete a k = f_Delete b k \<and> f_Token a k = f_Token b k \<and> f_Metadata a k = f_Metadata b k"

definition sameEvents :: "string \<Rightarrow> 'w EventOps \<Rightarrow> 'w EventOps \<Rightarrow> bool" where
  "sameEvents k a b \<longleftrightarrow> e_Publish a k = e_Publish b k \<and> e_Subscribe a k = e_Subscribe b k"

definition sameObs :: "string \<Rightarrow> 'w ObsOps \<Rightarrow> 'w ObsOps \<Rightarrow> bool" where
  "sameObs k a b \<longleftrightarrow> o_Log a k = o_Log b k \<and> o_Metric a k = o_Metric b k"

definition agreeOn :: "string \<Rightarrow> ('w, 'v) Deps \<Rightarrow> ('w, 'v) Deps \<Rightarrow> bool" where
  "agreeOn k d1 d2 \<longleftrightarrow> rel_option (sameData k) (dp_Data d1) (dp_Data d2) \<and> rel_option (sameQueue k) (dp_Queue d1) (dp_Queue d2) \<and>
     rel_option (sameCache k) (dp_Cache d1) (dp_Cache d2) \<and> rel_option (sameLocks k) (dp_Locks d1) (dp_Locks d2) \<and>
     rel_option (\<lambda>a b. a k = b k) (dp_Config d1) (dp_Config d2) \<and> rel_option (sameFiles k) (dp_Files d1) (dp_Files d2) \<and>
     rel_option (sameEvents k) (dp_Events d1) (dp_Events d2) \<and> rel_option (\<lambda>a b. a k = b k) (dp_Egress d1) (dp_Egress d2) \<and>
     rel_option (sameObs k) (dp_Obs d1) (dp_Obs d2)"

lemmas same_defs = sameData_def sameQueue_def sameCache_def sameLocks_def sameFiles_def sameEvents_def sameObs_def

lemma backend_cong:
  assumes "rel_option R d1 d2" "\<And>a b. R a b \<Longrightarrow> k1 a w = k2 b w"
  shows "andThen (backend what d1) k1 w = andThen (backend what d2) k2 w"
  using assms by (cases d1; cases d2) (auto simp: andThen_def backend_def)

lemma andThen_cong: "(\<And>x. k1 x w = k2 x w) \<Longrightarrow> andThen r k1 w = andThen r k2 w"
  by (simp add: andThen_def split: sum.splits)

lemma agreeOn_gates:
  assumes "agreeOn k d1 d2"
  shows "(\<And>a b. sameData k a b \<Longrightarrow> kd1 a w = kd2 b w) \<Longrightarrow> onData d1 s t kd1 w = onData d2 s t kd2 w"
    "(\<And>a b. sameData k a b \<Longrightarrow> kd1 a w = kd2 b w) \<Longrightarrow> onTx d1 s kd1 w = onTx d2 s kd2 w"
    "(\<And>a b. sameQueue k a b \<Longrightarrow> kq1 a w = kq2 b w) \<Longrightarrow> onQueue d1 s kq1 w = onQueue d2 s kq2 w"
    "(\<And>a b. sameCache k a b \<Longrightarrow> kc1 a w = kc2 b w) \<Longrightarrow> onCache d1 s kc1 w = onCache d2 s kc2 w"
    "(\<And>a b. sameLocks k a b \<Longrightarrow> kl1 a w = kl2 b w) \<Longrightarrow> onLocks d1 s kl1 w = onLocks d2 s kl2 w"
    "(\<And>a b. sameFiles k a b \<Longrightarrow> kf1 a w = kf2 b w) \<Longrightarrow> onFiles d1 s p kf1 w = onFiles d2 s p kf2 w"
    "(\<And>a b. sameEvents k a b \<Longrightarrow> ke1 a w = ke2 b w) \<Longrightarrow> onEvents d1 s n ke1 w = onEvents d2 s n ke2 w"
proof -
  note A = assms[unfolded agreeOn_def]
  show "onData d1 s t kd1 w = onData d2 s t kd2 w" "onTx d1 s kd1 w = onTx d2 s kd2 w" if "\<And>a b. sameData k a b \<Longrightarrow> kd1 a w = kd2 b w"
    unfolding onData_def onTx_def by (intro andThen_cong backend_cong[where R = "sameData k"]; simp add: A that)+
  show "onQueue d1 s kq1 w = onQueue d2 s kq2 w" if "\<And>a b. sameQueue k a b \<Longrightarrow> kq1 a w = kq2 b w"
    unfolding onQueue_def by (intro andThen_cong backend_cong[where R = "sameQueue k"]; simp add: A that)
  show "onCache d1 s kc1 w = onCache d2 s kc2 w" if "\<And>a b. sameCache k a b \<Longrightarrow> kc1 a w = kc2 b w"
    unfolding onCache_def by (intro andThen_cong backend_cong[where R = "sameCache k"]; simp add: A that)
  show "onLocks d1 s kl1 w = onLocks d2 s kl2 w" if "\<And>a b. sameLocks k a b \<Longrightarrow> kl1 a w = kl2 b w"
    unfolding onLocks_def by (intro andThen_cong backend_cong[where R = "sameLocks k"]; simp add: A that)
  show "onFiles d1 s p kf1 w = onFiles d2 s p kf2 w" if "\<And>a b. sameFiles k a b \<Longrightarrow> kf1 a w = kf2 b w"
    unfolding onFiles_def by (intro andThen_cong backend_cong[where R = "sameFiles k"]; simp add: A that)
  show "onEvents d1 s n ke1 w = onEvents d2 s n ke2 w" if "\<And>a b. sameEvents k a b \<Longrightarrow> ke1 a w = ke2 b w"
    unfolding onEvents_def by (rule andThen_cong, rule backend_cong[where R = "sameEvents k"]) (simp_all add: A that andThen_def split: sum.splits)
qed

lemma agreeOn_data:
  assumes "agreeOn (sr_key s) d1 d2"
  shows "rpcPut d1 s c i d t v w = rpcPut d2 s c i d t v w" "rpcGet d1 s c i t w = rpcGet d2 s c i t w" "rpcDelete d1 s c i t w = rpcDelete d2 s c i t w"
    "rpcFind d1 s c fs l off t w = rpcFind d2 s c fs l off t w" "rpcQuery d1 s c fs ss l cur t w = rpcQuery d2 s c fs ss l cur t w"
    "rpcAggregate d1 s c fs fn f g t w = rpcAggregate d2 s c fs fn f g t w" "rpcBatchWrite d1 s ops t w = rpcBatchWrite d2 s ops t w"
    "rpcBeginTx d1 s n w = rpcBeginTx d2 s n w" "rpcCommitTx d1 s t w = rpcCommitTx d2 s t w" "rpcRollbackTx d1 s t w = rpcRollbackTx d2 s t w"
  unfolding rpc_defs by (rule agreeOn_gates(1,2)[OF assms]; simp add: sameData_def)+

lemma agreeOn_queue_files:
  assumes "agreeOn (sr_key s) d1 d2"
  shows "rpcEnqueue d1 s md tp p d k pr m tr w = rpcEnqueue d2 s md tp p d k pr m tr w" "rpcConsume d1 s tp n v w = rpcConsume d2 s tp n v w"
    "rpcAck d1 s i w = rpcAck d2 s i w" "rpcNack d1 s i e n w = rpcNack d2 s i e n w"
    "rpcPutFile d1 s cs b w = rpcPutFile d2 s cs b w" "rpcDeleteFile d1 s fi w = rpcDeleteFile d2 s fi w"
    "rpcDownloadToken d1 s fi u n w = rpcDownloadToken d2 s fi u n w" "rpcFileMetadata d1 s fi w = rpcFileMetadata d2 s fi w"
  unfolding rpc_defs by (rule agreeOn_gates(3,6)[OF assms]; simp add: sameQueue_def sameFiles_def split: list.splits option.splits)+

lemma agreeOn_runtime:
  assumes "agreeOn (sr_key s) d1 d2"
  shows "rpcCacheGet d1 s k w = rpcCacheGet d2 s k w" "rpcCacheSet d1 s k v n w = rpcCacheSet d2 s k v n w" "rpcCacheDelete d1 s k w = rpcCacheDelete d2 s k w"
    "rpcAcquireLock d1 s nm n m w = rpcAcquireLock d2 s nm n m w" "rpcRenewLock d1 s nm l n w = rpcRenewLock d2 s nm l n w"
    "rpcReleaseLock d1 s nm l w = rpcReleaseLock d2 s nm l w"
    "rpcPublish d1 s md nm d tr w = rpcPublish d2 s md nm d tr w" "rpcSubscribe d1 s nm w = rpcSubscribe d2 s nm w"
  unfolding rpc_defs by (rule agreeOn_gates(4,5,7)[OF assms]; simp add: sameCache_def sameLocks_def sameEvents_def)+

lemma agreeOn_ungated:
  assumes "agreeOn (sr_key s) d1 d2"
  shows "rpcGetConfig d1 s w = rpcGetConfig d2 s w" "rpcLog d1 s rs w = rpcLog d2 s rs w" "rpcRecordMetric d1 s n k x ls w = rpcRecordMetric d2 s n k x ls w"
    "rpcFetch late d1 s m u h b ms w = rpcFetch late d2 s m u h b ms w"
proof -
  note A = assms[unfolded agreeOn_def]
  show "rpcGetConfig d1 s w = rpcGetConfig d2 s w" using A by (cases "dp_Config d1"; cases "dp_Config d2") (auto simp: rpcGetConfig_def)
  show "rpcLog d1 s rs w = rpcLog d2 s rs w" "rpcRecordMetric d1 s n k x ls w = rpcRecordMetric d2 s n k x ls w"
    using A by (cases "dp_Obs d1"; cases "dp_Obs d2"; simp add: rpcLog_def rpcRecordMetric_def sameObs_def; fail)+
  show "rpcFetch late d1 s m u h b ms w = rpcFetch late d2 s m u h b ms w"
    unfolding rpcFetch_def by (intro andThen_cong backend_cong[where R = "\<lambda>a b. a (sr_key s) = b (sr_key s)"]; simp add: A)
qed

text \<open>C8: No request can name another plugin. Whatever a plugin asks for, the answer and everything the call does to the shared world are the same under any two sets of backends that
  agree on what they do for this plugin's key: no handler passes another key on, and none is taken from the request.\<close>

theorem own_key_only:
  assumes "agreeOn (sr_key s) d1 d2"
  shows "respond late d1 s c w = respond late d2 s c w"
  by (cases c) (simp_all only: respond.simps agreeOn_data[OF assms] agreeOn_queue_files[OF assms] agreeOn_runtime[OF assms] agreeOn_ungated[OF assms])

section \<open>Transactions across plugins\<close>

definition cmdsOps :: "(Store \<Rightarrow> string \<Rightarrow> string list \<Rightarrow> string + (string option list \<times> ('v :: zero) option) list) \<Rightarrow> 'd DbEnv \<Rightarrow> ('d CMDSData, 'v) DataOps" where
  "cmdsOps ask env = \<lparr>d_Put = dataPut env, d_Get = dataGet env, d_Delete = dataDelete env, d_Find = dataFind env, d_Query = dataQuery env,
     d_Aggregate = dataAggregate ask env, d_BatchWrite = dataBatchWrite env, d_BeginTx = dataBeginTx env, d_CommitTx = dataCommitTx env, d_RollbackTx = dataRollbackTx env\<rparr>"

fun txOf :: "Call \<Rightarrow> string" where
  "txOf (CPut c i d t v) = t"
| "txOf (CGet c i t) = t"
| "txOf (CDelete c i t) = t"
| "txOf (CFind c fs l off t) = t"
| "txOf (CQuery c fs ss l cur t) = t"
| "txOf (CAggregate c fs fn f g t) = t"
| "txOf (CBatchWrite ops t) = (if isl (batchOps ops) then [] else t)"
| "txOf (CCommitTx t) = t"
| "txOf (CRollbackTx t) = t"
| "txOf c = []"

fun searches :: "Call \<Rightarrow> bool" where
  "searches (CQuery c fs ss l cur t) = True"
| "searches (CAggregate c fs fn f g t) = True"
| "searches c = False"

text \<open>C17: A transaction cannot be used from outside. A call of a plugin that names a transaction which is not its own, be it unknown or another plugin's, to read, write, commit or roll back,
  is refused and changes nothing. The status is the \<^verbatim>\<open>FailedPrecondition\<close> that tells the plugin to start over, except for Query and Aggregate: those report every error as
  \<^verbatim>\<open>InvalidArgument\<close>, so an expired transaction looks like a malformed query there.\<close>

theorem foreign_tx_refused:
  assumes "dp_Data deps = Some (cmdsOps ask env)" "needs c \<subseteq> set (sr_perms s)" "foreignTx (sr_key s) (txOf c) w"
  shows "codeOf (fst (respond late deps s c w)) = Some (if searches c then InvalidArgument else FailedPrecondition) \<and> snd (respond late deps s c w) = w"
proof -
  have ne: "txOf c \<noteq> []" using assms(3) by (simp add: foreignTx_def)
  have code: "codeOf (fst (classify dataErr g (Inl (DTx ErrUnknownTx), v))) = Some FailedPrecondition" "snd (classify f g (r, v)) = v" for f g r v
    by (simp_all add: classify_def dataErr_def)
  show ?thesis
  proof (cases c)
    case (CBatchWrite ops t)
    with ne obtain b where b: "batchOps ops = Inr b" by (cases "batchOps ops") auto
    then show ?thesis using assms CBatchWrite
      by (simp add: rpc_defs gate_defs cmdsOps_def dataBatchWrite_def onExec_foreign andThen_def[of "Inr _"] code[simplified] classify_def dataErr_def)
  qed (use assms ne in \<open>simp_all add: rpc_defs gate_defs cmdsOps_def dataPut_def dataGet_def dataDelete_def dataFind_def dataQuery_def dataAggregate_def
      onExec_foreign endTx_foreign classify_def dataErr_def\<close>)
qed

section \<open>Samples\<close>

definition noDeps :: "('w, 'v) Deps" where
  "noDeps = \<lparr>dp_Data = None, dp_Queue = None, dp_Cache = None, dp_Locks = None, dp_Config = None, dp_Files = None, dp_Events = None, dp_Egress = None, dp_Obs = None\<rparr>"

text \<open>The in-memory cache as a backend.\<close>

definition cacheOps :: "int \<Rightarrow> string list \<Rightarrow> MemoryCache CacheOps" where
  "cacheOps now order = \<lparr>c_Get = CacheGet now, c_Set = CacheSet now order, c_Delete = CacheDelete\<rparr>"

theorem rpc_gate_witness:
  "let s = NewServer ''a'' [PermCache]; deps = noDeps\<lparr>dp_Cache := Some (cacheOps 0 [])\<rparr> :: (MemoryCache, int) Deps; w = NewMemoryCache 0; r = respond (\<lambda>_. False) deps s
   in codeOf (fst (r (CBeginTx 5) w)) = Some PermissionDenied \<and> codeOf (fst (r (CCacheGet ''k'') w)) \<noteq> Some PermissionDenied \<and>
      codeOf (fst (respond (\<lambda>_. False) noDeps s (CCacheGet ''k'') w :: (status + int Answer) \<times> MemoryCache)) = Some Unavailable"
proof -
  define s where "s = NewServer ''a'' [PermCache]"
  define deps :: "(MemoryCache, int) Deps" where "deps = noDeps\<lparr>dp_Cache := Some (cacheOps 0 [])\<rparr>"
  have p: "\<not> needs (CBeginTx 5) \<subseteq> set (sr_perms s)" "needs (CCacheGet ''k'') \<subseteq> set (sr_perms s)" "\<not> hostRefused (CCacheGet ''k'')"
    "\<not> configured (noDeps :: (MemoryCache, int) Deps) (CCacheGet ''k'')"
    by (simp_all add: s_def NewServer_def PermCache_def PermDBTx_def hostRefused_def noDeps_def)
  show ?thesis
    using rpc_gate[of "CBeginTx 5" s "\<lambda>_. False" deps "NewMemoryCache 0"] rpc_gate[of "CCacheGet ''k''" s "\<lambda>_. False" deps "NewMemoryCache 0"]
      rpc_gate[of "CCacheGet ''k''" s "\<lambda>_. False" "noDeps :: (MemoryCache, int) Deps" "NewMemoryCache 0"] p
    by (simp only: s_def[symmetric] deps_def[symmetric] Let_def simp_thms)
qed

theorem own_key_only_witness:
  "respond (\<lambda>_. False) (noDeps\<lparr>dp_Cache := Some ((cacheOps 0 [])\<lparr>c_Get := (\<lambda>k key c. if k = ''a'' then CacheGet 0 k key c else (Some ''secret'', c))\<rparr>)\<rparr> :: (MemoryCache, int) Deps)
     (NewServer ''a'' [PermCache]) (CCacheGet ''k'') (NewMemoryCache 0) = (Inr (AValue None), NewMemoryCache 0)"
proof -
  let ?d = "noDeps\<lparr>dp_Cache := Some ((cacheOps 0 [])\<lparr>c_Get := (\<lambda>k key c. if k = ''a'' then CacheGet 0 k key c else (Some ''secret'', c))\<rparr>)\<rparr> :: (MemoryCache, int) Deps"
  have "agreeOn (sr_key (NewServer ''a'' [PermCache])) ?d (noDeps\<lparr>dp_Cache := Some (cacheOps 0 [])\<rparr>)"
    by (simp add: agreeOn_def noDeps_def sameCache_def cacheOps_def NewServer_def)
  from own_key_only[OF this, of "\<lambda>_. False" "CCacheGet ''k''" "NewMemoryCache 0"]
  have "respond (\<lambda>_. False) ?d (NewServer ''a'' [PermCache]) (CCacheGet ''k'') (NewMemoryCache 0) =
    respond (\<lambda>_. False) (noDeps\<lparr>dp_Cache := Some (cacheOps 0 [])\<rparr>) (NewServer ''a'' [PermCache]) (CCacheGet ''k'') (NewMemoryCache 0)" .
  also have "\<dots> = (Inr (AValue None), NewMemoryCache 0)" by code_simp
  finally show ?thesis .
qed

definition sampleData :: "(Store \<times> (nat \<Rightarrow> Store) \<times> nat) CMDSData" where
  "sampleData = snd (dataBeginTx (sampleDb 0) ''a'' 0 (NewCMDSData (sampleStore, (\<lambda>_. sampleStore), 0) NewTxRegistry))"

theorem foreign_tx_refused_witness:
  "let deps = noDeps\<lparr>dp_Data := Some (cmdsOps (\<lambda>_ _ _. Inr ([] :: (string option list \<times> int option) list)) (sampleDb 0))\<rparr>; s = NewServer ''b'' [PermDB, PermDBTx]
   in map_of (tr_txs (cd_txs sampleData)) ''tx1'' \<noteq> None \<and>
      codeOf (fst (respond (\<lambda>_. False) deps s (CCommitTx ''tx1'') sampleData)) = Some FailedPrecondition \<and>
      codeOf (fst (respond (\<lambda>_. False) deps s (CQuery ''c'' [] [] 0 [] ''tx1'') sampleData)) = Some InvalidArgument"
proof -
  define deps where "deps = noDeps\<lparr>dp_Data := Some (cmdsOps (\<lambda>_ _ _. Inr ([] :: (string option list \<times> int option) list)) (sampleDb 0))\<rparr>"
  define s where "s = NewServer ''b'' [PermDB, PermDBTx]"
  have d: "dp_Data deps = Some (cmdsOps (\<lambda>_ _ _. Inr ([] :: (string option list \<times> int option) list)) (sampleDb 0))" by (simp add: deps_def)
  have t: "map_of (tr_txs (cd_txs sampleData)) ''tx1'' \<noteq> None" by code_simp
  have f: "foreignTx (sr_key s) ''tx1'' sampleData" unfolding s_def by code_simp
  have p: "needs (CCommitTx ''tx1'') \<subseteq> set (sr_perms s)" "needs (CQuery ''c'' [] [] 0 [] ''tx1'') \<subseteq> set (sr_perms s)"
    by (simp_all add: s_def NewServer_def txPerm_def)
  show ?thesis unfolding s_def[symmetric] deps_def[symmetric] Let_def
    using foreign_tx_refused[OF d p(1), of sampleData "\<lambda>_. False"] foreign_tx_refused[OF d p(2), of sampleData "\<lambda>_. False"] f t by simp
qed

section \<open>Messages in flight\<close>

text \<open>What happens to a server's count: a consumer found room (or waited until its deadline) and was handed the messages of one claim, or a message was acknowledged.
  The lists are what the turns of the wait saw and the messages delivered, at most as many as were claimed.\<close>

datatype flow = Delivered "(int \<times> int \<times> bool) list" nat | Acknowledged

definition effective :: "int \<Rightarrow> int" where
  "effective prefetch = (if prefetch \<le> 0 then 1 else prefetch)"

text \<open>The wait sees the count as it is at its last turn, nobody adds to it meanwhile and a claim asks for at most the prefetch.\<close>

fun flowStep :: "int \<Rightarrow> int \<Rightarrow> flow \<Rightarrow> Server \<Rightarrow> Server" where
  "flowStep prefetch deadline (Delivered polls k) s =
     (if awaitRoom prefetch deadline (polls @ [(sr_inflight s, deadline, False)]) = HasRoom \<and> list_all (\<lambda>(n, now, _). sr_inflight s \<le> n \<and> now \<le> deadline) polls \<and>
         int k \<le> effective prefetch
      then (enteredFlight ^^ k) s else s)"
| "flowStep prefetch deadline Acknowledged s = leftFlight s"

lemma awaitRoom_room:
  "awaitRoom prefetch deadline (polls @ [(n, deadline, False)]) = HasRoom \<Longrightarrow> list_all (\<lambda>(m, now, _). n \<le> m \<and> now \<le> deadline) polls \<Longrightarrow> n < effective prefetch"
  by (induction polls) (auto simp: effective_def split: if_splits)

lemma enteredFlight_many: "sr_inflight ((enteredFlight ^^ k) s) = sr_inflight s + int k"
  by (induction k) (simp_all add: enteredFlight_def)

text \<open>The work in hand is bounded, by less than twice what was asked for. As long as no wait runs into its deadline, a consumer never holds more than twice its prefetch minus one
  unacknowledged messages. The bound is reached: the wait only asks for room for one message, and the claim that follows takes a full prefetch, so the count is not
  bounded to the prefetch as the comment on it says.\<close>

theorem inflight_bounded:
  assumes "sr_inflight s = 0"
  shows "0 \<le> sr_inflight (fold (flowStep prefetch deadline) ops s) \<and> sr_inflight (fold (flowStep prefetch deadline) ops s) \<le> 2 * effective prefetch - 1"
proof -
  have step: "0 \<le> sr_inflight (flowStep prefetch deadline op t) \<and> sr_inflight (flowStep prefetch deadline op t) \<le> 2 * effective prefetch - 1"
    if "0 \<le> sr_inflight t \<and> sr_inflight t \<le> 2 * effective prefetch - 1" for op t
    using that by (cases op) (auto simp: enteredFlight_many leftFlight_def dest!: awaitRoom_room)
  have "0 \<le> sr_inflight (fold (flowStep prefetch deadline) ops t) \<and> sr_inflight (fold (flowStep prefetch deadline) ops t) \<le> 2 * effective prefetch - 1"
    if "0 \<le> sr_inflight t \<and> sr_inflight t \<le> 2 * effective prefetch - 1" for t
    using that by (induction ops arbitrary: t) (simp_all only: fold_simps step)
  moreover have "1 \<le> effective prefetch" by (simp add: effective_def)
  ultimately show ?thesis using assms by simp
qed

theorem inflight_bounded_witness:
  "let s = fold (flowStep 4 100) [Delivered [] 4, Acknowledged, Delivered [(4, 5, False)] 4] (NewServer ''a'' [])
   in sr_inflight s = 7 \<and> sr_inflight s \<le> 2 * effective 4 - 1"
proof -
  define s where "s = fold (flowStep 4 100) [Delivered [] 4, Acknowledged, Delivered [(4, 5, False)] 4] (NewServer ''a'' [])"
  have "sr_inflight s = 7" unfolding s_def by code_simp
  moreover have "sr_inflight (NewServer ''a'' []) = 0" by (simp add: NewServer_def)
  from inflight_bounded[OF this, of 4 100 "[Delivered [] 4, Acknowledged, Delivered [(4, 5, False)] 4]"]
  have "sr_inflight s \<le> 2 * effective 4 - 1" unfolding s_def by blast
  ultimately show ?thesis unfolding s_def[symmetric] by (simp add: Let_def)
qed

end
